(* ===== verification/Prelude.thy ===== *)
theory Prelude
  imports Main "HOL-Library.Word" "HOL-Library.Multiset" "HOL-Library.Monad_Syntax"
begin

unbundle bit_operations_syntax

text \<open>
  Shared vocabulary of the development: how run-time panics and errors of the Go code are
  represented, the bit-level lemmas on machine words that the hash trie needs, and generic
  facts on lists and sums that several components use.

  Conventions. A Go function that may panic returns an \<open>option\<close>, \<open>None\<close> being
  the panic. A Go function with an error result returns a sum, \<open>Inl\<close> the error. A Go
  \<open>string\<close> is its sequence of bytes and is modelled by \<open>string\<close> (a \<open>char\<close> of
  HOL is a byte).
\<close>

named_theorems word_bits \<open>facts that move a bit test through the word operations\<close>

subsection \<open>Sums as error results\<close>

fun bindE :: "'e + 'a \<Rightarrow> ('a \<Rightarrow> 'e + 'b) \<Rightarrow> 'e + 'b" where
  "bindE (Inl e) f = Inl e"
| "bindE (Inr x) f = f x"

lemma bindE_Inr_iff: "bindE m f = Inr y \<longleftrightarrow> (\<exists>x. m = Inr x \<and> f x = Inr y)"
  by (cases m) auto

lemma bindE_assoc: "bindE (bindE m f) g = bindE m (\<lambda>x. bindE (f x) g)"
  by (cases m) auto

text \<open>The same for operations that may also panic.\<close>

fun bindO :: "('e + 'a) option \<Rightarrow> ('a \<Rightarrow> ('e + 'b) option) \<Rightarrow> ('e + 'b) option" where
  "bindO None f = None"
| "bindO (Some (Inl e)) f = Some (Inl e)"
| "bindO (Some (Inr x)) f = f x"

lemma bindO_cong [fundef_cong]:
  "m = m' \<Longrightarrow> (\<And>x. m' = Some (Inr x) \<Longrightarrow> f x = g x) \<Longrightarrow> bindO m f = bindO m' g"
  by (cases "(m, f)" rule: bindO.cases) auto

lemma bindE_cong [fundef_cong]:
  "m = m' \<Longrightarrow> (\<And>x. m' = Inr x \<Longrightarrow> f x = g x) \<Longrightarrow> bindE m f = bindE m' g"
  by (cases m) auto

lemma bindO_assoc: "bindO (bindO m f) g = bindO m (\<lambda>x. bindO (f x) g)"
  by (cases "(m, f)" rule: bindO.cases) auto

definition isOk :: "'e + 'a \<Rightarrow> bool" where
  "isOk r = (case r of Inl _ \<Rightarrow> False | Inr _ \<Rightarrow> True)"

lemma isOk_simps [simp]: "isOk (Inr x)" "\<not> isOk (Inl e)"
  by (simp_all add: isOk_def)

subsection \<open>Lists\<close>

lemma size_nth_le [termination_simp]:
  "i < length xs \<Longrightarrow> f (xs ! i) \<le> size_list f xs"
  by (rule size_list_estimation') auto

lemma size_zip_right [termination_simp]:
  "(a, x) \<in> set (zip as xs) \<Longrightarrow> f x \<le> size_list f xs"
  by (rule size_list_estimation' [where x = x]) (auto dest: set_zip_rightD)

lemma list_all2_insert_at:
  assumes "list_all2 P xs ys" and "P x y"
  shows "list_all2 P (take i xs @ x # drop i xs) (take i ys @ y # drop i ys)"
  using assms by (intro list_all2_appendI list_all2_takeI) (auto intro: list_all2_dropI)

lemma list_all2_delete_at:
  assumes "list_all2 P xs ys"
  shows "list_all2 P (take i xs @ drop (Suc i) xs) (take i ys @ drop (Suc i) ys)"
  using assms by (intro list_all2_appendI list_all2_takeI list_all2_dropI)

lemma length_filter_key:
  "distinct (map f xs) \<Longrightarrow> c \<in> f ` set xs \<Longrightarrow> Suc (length (filter (\<lambda>x. f x \<noteq> c) xs)) = length xs"
proof (induction xs)
  case (Cons x xs)
  have "f x = c \<Longrightarrow> filter (\<lambda>y. f y \<noteq> c) xs = xs"
    using Cons.prems(1) by (auto intro!: filter_True simp: image_iff)
  with Cons show ?case by auto
qed simp

lemma filter_same_length: "length (filter P xs) = length xs \<Longrightarrow> filter P xs = xs"
  by (metis filter_True length_filter_less less_irrefl)

lemma set_delete_at:
  assumes "i < length xs"
  shows "set (take i xs @ drop (Suc i) xs) \<union> {xs ! i} = set xs"
proof -
  have "set xs = set (take i xs @ xs ! i # drop (Suc i) xs)"
    using assms by (simp only: id_take_nth_drop [symmetric])
  then show ?thesis by auto
qed

lemma set_insert_at: "set (take i xs @ x # drop i xs) = insert x (set xs)"
  by (metis Un_insert_right append_take_drop_id list.simps(15) set_append)

lemma sort_key_unique:
  assumes "distinct xs" "distinct ys" "set xs = set ys" "inj_on f (set ys)" "sorted (map f ys)"
  shows "sort_key f xs = ys"
  using assms by (intro sort_key_inj_key_eq) (simp_all flip: set_eq_iff_mset_eq_distinct)

subsection \<open>The set bits of a machine word\<close>

text \<open>
  A bitmap of occupied slots is read through \<open>bitsOf\<close>, the positions of its set bits in
  increasing order; \<open>onesCount\<close> is Go's \<open>bits.OnesCount32\<close>.
\<close>

definition bitsOf :: "32 word \<Rightarrow> nat list" where
  "bitsOf w = filter (bit w) [0..<32]"

definition onesCount :: "32 word \<Rightarrow> nat" where
  "onesCount w = length (bitsOf w)"

lemma set_bitsOf [simp]: "set (bitsOf w) = {i. bit w i}"
  using bit_imp_le_length [of w] by (auto simp: bitsOf_def)

lemma distinct_bitsOf [simp]: "distinct (bitsOf w)"
  by (simp add: bitsOf_def)

lemma bitsOf_0 [simp]: "bitsOf 0 = []"
  by (simp add: bitsOf_def)

lemma upt_split3: "b < 32 \<Longrightarrow> [0..<32] = [0..<b] @ b # [Suc b..<32::nat]"
  using upt_add_eq_append [of 0 b "32 - b"] by (simp add: upt_conv_Cons)

lemma bit_single [word_bits]: "b < 32 \<Longrightarrow> bit (2 ^ b :: 32 word) i \<longleftrightarrow> i = b"
  by (auto simp: bit_simps)

lemma bit_below [word_bits]: "b < 32 \<Longrightarrow> bit (2 ^ b - 1 :: 32 word) i \<longleftrightarrow> i < b"
  by (auto simp: bit_simps simp flip: mask_eq_exp_minus_1)

lemma and_single_eq_0:
  assumes "b < 32"
  shows "w AND 2 ^ b = (0 :: 32 word) \<longleftrightarrow> \<not> bit w b"
  using assms by (auto simp: bit_eq_iff [of "w AND 2 ^ b"] bit_and_iff bit_single)

text \<open>The rank of a bit: how many bits below it are set.\<close>

definition rankOf :: "32 word \<Rightarrow> nat \<Rightarrow> nat" where
  "rankOf w b = length (filter (bit w) [0..<b])"

lemma bitsOf_split:
  assumes "b < 32"
  shows "bitsOf w = filter (bit w) [0..<b] @ (if bit w b then [b] else [])
                    @ filter (bit w) [Suc b..<32]"
  by (simp add: bitsOf_def upt_split3 [OF assms])

lemma onesCount_below:
  assumes "b < 32"
  shows "onesCount (w AND (2 ^ b - 1)) = rankOf w b"
proof -
  have "bitsOf (w AND (2 ^ b - 1)) = filter (bit w) [0..<b]"
    unfolding bitsOf_split [OF assms]
    by (auto simp: bit_and_iff bit_below [OF assms] filter_empty_conv intro: filter_cong)
  then show ?thesis by (simp add: onesCount_def rankOf_def)
qed

lemma bitsOf_rank:
  assumes "b < 32" "bit w b"
  shows "rankOf w b < length (bitsOf w)" "bitsOf w ! rankOf w b = b"
  using assms by (simp_all add: bitsOf_split [OF assms(1), of w] rankOf_def nth_append)

lemma bitsOf_set_bit:
  assumes "b < 32" "\<not> bit w b"
  shows "bitsOf (w OR 2 ^ b)
         = take (rankOf w b) (bitsOf w) @ b # drop (rankOf w b) (bitsOf w)"
  using assms
  by (auto simp: bitsOf_split [OF assms(1)] rankOf_def bit_or_iff bit_single
      intro!: arg_cong2 [where f = "(@)"] filter_cong)

lemma bitsOf_clear_bit:
  assumes "b < 32" "bit w b"
  shows "bitsOf (w AND NOT (2 ^ b))
         = take (rankOf w b) (bitsOf w) @ drop (Suc (rankOf w b)) (bitsOf w)"
  using assms
  by (auto simp: bitsOf_split [OF assms(1)] rankOf_def bit_and_iff bit_not_iff bit_single
      intro!: arg_cong2 [where f = "(@)"] filter_cong)

lemma bitsOf_single: "b < 32 \<Longrightarrow> bitsOf (2 ^ b) = [b]"
  using bitsOf_set_bit [of b 0] by (simp add: rankOf_def)

lemma bitsOf_pair:
  assumes "b < c" "c < 32"
  shows "bitsOf (2 ^ b OR 2 ^ c) = [b, c]"
proof -
  have "filter (bit (2 ^ b :: 32 word)) [0..<c] = [b]"
    using assms bitsOf_split [of c "2 ^ b"] bitsOf_single [of b] by (auto simp: bit_single)
  then show ?thesis
    using assms bitsOf_set_bit [of c "2 ^ b"] by (simp add: rankOf_def bit_single bitsOf_single)
qed

end
