(* ===== verification/Hamt.thy ===== *)
theory Hamt
  imports Prelude
begin

unbundle bit_operations_syntax

text \<open>
  The hash array mapped trie of \<open>xdm/hamt.go\<close>, the persistent structure behind an XDM
  map. A node has a 32-bit bitmap and one slot per set bit; five bits of the key's 64-bit
  hash select the bit at each level. A slot is an entry, a subtree, or a collision node.

  The source's \<open>edit\<close> token (which builder may still write a node in place) is the
  field of the same name: \<open>mutable\<close> keeps a node whose token matches and otherwise takes
  a copy that carries the caller's token. The hash function is Go's randomly seeded
  \<open>hash/maphash\<close>: a parameter \<open>H\<close> of the statements. An index out of range, a
  failed type assertion and a nil dereference are panics, the outer \<open>None\<close>; the
  invariant \<open>wf_node\<close> excludes all of them.
\<close>

subsection \<open>Data\<close>

record ('a, 'v) mapEntry =
  key :: 'a
  val :: 'v
  ckey :: string
  hash :: "64 word"
  seq :: nat

datatype 'e hamtSlot =
    SEntry 'e
  | SColl "64 word" "'e list"
  | SNode "'e hamtNode"
and 'e hamtNode = HNode "32 word" "'e hamtSlot list" "nat option"

definition hamtBits :: nat where "hamtBits = 5"
definition hamtMask :: "64 word" where "hamtMask = 2 ^ hamtBits - 1"
definition hamtDepth :: nat where "hamtDepth = 64 div hamtBits * hamtBits"

lemma hamt_consts [simp]: "hamtBits = 5" "hamtMask = 31" "hamtDepth = 60"
  by (simp_all add: hamtBits_def hamtMask_def hamtDepth_def)

text \<open>The five hash bits at a shift, and the bitmap bit they select.\<close>

definition hamtDigit :: "64 word \<Rightarrow> nat \<Rightarrow> nat" where
  "hamtDigit h shift = unat (drop_bit shift h AND hamtMask)"

definition hamtBit :: "64 word \<Rightarrow> nat \<Rightarrow> 32 word" where
  "hamtBit h shift = push_bit (hamtDigit h shift) 1"

definition hamtIndex :: "32 word \<Rightarrow> 32 word \<Rightarrow> nat" where
  "hamtIndex bitmap b = onesCount (bitmap AND (b - 1))"

lemma size_slot_node [termination_simp]:
  "i < length slots \<Longrightarrow> slots ! i = SNode n \<Longrightarrow> size n < Suc (size_list size slots)"
  using size_nth_le [of i slots size] by simp

subsection \<open>Lookup\<close>

fun coll_get :: "('a, 'v) mapEntry list \<Rightarrow> string \<Rightarrow> ('a, 'v) mapEntry option" where
  "coll_get [] ck = None"
| "coll_get (e # es) ck = (if ckey e = ck then Some e else coll_get es ck)"

fun hget :: "('a, 'v) mapEntry hamtNode \<Rightarrow> 64 word \<Rightarrow> nat \<Rightarrow> string
             \<Rightarrow> ('a, 'v) mapEntry option option" where
  "hget (HNode bitmap slots ed) h shift ck =
     (let b = hamtBit h shift in
      if bitmap AND b = 0 then Some None
      else let i = hamtIndex bitmap b in
        if i < length slots then
          (case slots ! i of
             SEntry s \<Rightarrow> Some (if ckey s = ck then Some s else None)
           | SColl _ es \<Rightarrow> Some (coll_get es ck)
           | SNode n \<Rightarrow> hget n h (shift + hamtBits) ck)
        else None)"

fun hamt_get :: "('a, 'v) mapEntry hamtNode option \<Rightarrow> 64 word \<Rightarrow> string
                 \<Rightarrow> ('a, 'v) mapEntry option option" where
  "hamt_get None h ck = Some None"
| "hamt_get (Some n) h ck = hget n h 0 ck"

subsection \<open>Insertion\<close>

fun mutable :: "'e hamtNode \<Rightarrow> nat option \<Rightarrow> 'e hamtNode" where
  "mutable (HNode bitmap slots ed) edit =
     (if edit \<noteq> None \<and> ed = edit then HNode bitmap slots ed else HNode bitmap slots edit)"

fun coll_put_entries :: "('a, 'v) mapEntry list \<Rightarrow> ('a, 'v) mapEntry
                         \<Rightarrow> ('a, 'v) mapEntry list \<times> bool" where
  "coll_put_entries [] e = ([e], True)"
| "coll_put_entries (x # xs) e =
     (if ckey x = ckey e then (e\<lparr>seq := seq x\<rparr> # xs, False)
      else let (ys, added) = coll_put_entries xs e in (x # ys, added))"

fun coll_put :: "64 word \<Rightarrow> ('a, 'v) mapEntry list \<Rightarrow> ('a, 'v) mapEntry
                 \<Rightarrow> ('a, 'v) mapEntry hamtSlot \<times> bool" where
  "coll_put h es e = (let (ys, added) = coll_put_entries es e in (SColl h ys, added))"

function hamtMerge :: "('a, 'v) mapEntry hamtSlot \<Rightarrow> ('a, 'v) mapEntry \<Rightarrow> nat \<Rightarrow> nat option
                       \<Rightarrow> ('a, 'v) mapEntry hamtSlot option" where
  "hamtMerge old e shift edit =
     (let oldHash = (case old of SEntry s \<Rightarrow> hash s | SColl h _ \<Rightarrow> h | SNode _ \<Rightarrow> 0) in
      if shift \<ge> hamtDepth then
        (case old of
           SColl _ es \<Rightarrow> Some (SColl (hash e) (es @ [e]))
         | SEntry s \<Rightarrow> Some (SColl (hash e) ([s] @ [e]))
         | SNode _ \<Rightarrow> None)
      else
        let ob = hamtBit oldHash shift; nb = hamtBit (hash e) shift in
        if ob = nb then
          map_option (\<lambda>s. SNode (HNode ob [s] edit)) (hamtMerge old e (shift + hamtBits) edit)
        else if ob < nb then Some (SNode (HNode (ob OR nb) [old, SEntry e] edit))
        else Some (SNode (HNode (ob OR nb) [SEntry e, old] edit)))"
  by pat_completeness auto
termination
  by (relation "measure (\<lambda>(old, e, shift, edit). hamtDepth - shift)") auto

declare hamtMerge.simps [simp del]

text \<open>
  \<open>hput\<close> is \<open>put\<close> on a node and \<open>hput_slot\<close> its switch on the slot; \<open>hamt_put\<close>
  adds the nil receiver, which only the root of an empty map can be.
\<close>

fun hput :: "('a, 'v) mapEntry hamtNode \<Rightarrow> ('a, 'v) mapEntry \<Rightarrow> nat \<Rightarrow> nat option
             \<Rightarrow> (('a, 'v) mapEntry hamtNode \<times> bool) option"
and hput_slot :: "('a, 'v) mapEntry hamtSlot \<Rightarrow> ('a, 'v) mapEntry \<Rightarrow> nat \<Rightarrow> nat option
             \<Rightarrow> (('a, 'v) mapEntry hamtSlot \<times> bool) option" where
  "hput (HNode bitmap slots ed) e shift edit =
     (let b = hamtBit (hash e) shift; i = hamtIndex bitmap b in
      if bitmap AND b = 0 then
        (if i \<le> length slots then
           (case mutable (HNode bitmap slots ed) edit of HNode bm ss ed' \<Rightarrow>
              Some (HNode (bm OR b) (take i ss @ SEntry e # drop i ss) ed', True))
         else None)
      else if i < length slots then
        Option.bind (hput_slot (slots ! i) e shift edit)
          (\<lambda>(slot, added).
             case mutable (HNode bitmap slots ed) edit of HNode bm ss ed' \<Rightarrow>
               Some (HNode bm (ss[i := slot]) ed', added))
      else None)"
| "hput_slot (SEntry s) e shift edit =
     (if ckey s = ckey e then Some (SEntry (e\<lparr>seq := seq s\<rparr>), False)
      else map_option (\<lambda>t. (t, True)) (hamtMerge (SEntry s) e (shift + hamtBits) edit))"
| "hput_slot (SColl h es) e shift edit =
     (if h = hash e then Some (coll_put h es e)
      else map_option (\<lambda>t. (t, True)) (hamtMerge (SColl h es) e (shift + hamtBits) edit))"
| "hput_slot (SNode n) e shift edit =
     map_option (\<lambda>(n', added). (SNode n', added)) (hput n e (shift + hamtBits) edit)"

fun hamt_put :: "('a, 'v) mapEntry hamtNode option \<Rightarrow> ('a, 'v) mapEntry \<Rightarrow> nat option
             \<Rightarrow> (('a, 'v) mapEntry hamtNode \<times> bool) option" where
  "hamt_put None e edit = Some (HNode (hamtBit (hash e) 0) [SEntry e] edit, True)"
| "hamt_put (Some n) e edit = hput n e 0 edit"

subsection \<open>Removal\<close>

text \<open>
  The result slot of \<open>hremove\<close> is Go's \<open>any\<close>: \<open>None\<close> is nil, and a node
  emptied down to one entry at a positive shift is replaced by that entry.
\<close>

fun coll_remove :: "('a, 'v) mapEntry list \<Rightarrow> string \<Rightarrow> ('a, 'v) mapEntry list option" where
  "coll_remove [] ck = None"
| "coll_remove (x # xs) ck =
     (if ckey x = ck then Some xs else map_option ((#) x) (coll_remove xs ck))"

text \<open>\<open>hremove_apply\<close> is the part after the slot's replacement (\<open>None\<close> is nil) is known.\<close>

definition slot_is_entry :: "'e hamtSlot \<Rightarrow> bool" where
  "slot_is_entry s = (case s of SEntry _ \<Rightarrow> True | _ \<Rightarrow> False)"

definition hremove_apply ::
  "32 word \<Rightarrow> 'e hamtSlot list \<Rightarrow> nat option \<Rightarrow> 32 word \<Rightarrow> nat \<Rightarrow> nat
   \<Rightarrow> 'e hamtSlot option \<Rightarrow> 'e hamtSlot option" where
  "hremove_apply bitmap slots ed b i shift slot =
     (case slot of
        None \<Rightarrow>
          if length slots = 1 then None
          else let ss = take i slots @ drop (Suc i) slots in
            if length ss = 1 \<and> slot_is_entry (hd ss) \<and> shift > 0 then Some (hd ss)
            else Some (SNode (HNode (bitmap AND NOT b) ss None))
      | Some s \<Rightarrow>
          (case mutable (HNode bitmap slots ed) None of HNode bm ss ed' \<Rightarrow>
             Some (SNode (HNode bm (ss[i := s]) ed'))))"

text \<open>
  \<open>hremove_slot\<close> is the switch: what the slot becomes (\<open>None\<close> for nil) and whether the key
  was found. A node in which the key is not found is returned as it is.
\<close>

fun hremove :: "('a, 'v) mapEntry hamtNode \<Rightarrow> 64 word \<Rightarrow> nat \<Rightarrow> string
                \<Rightarrow> (('a, 'v) mapEntry hamtSlot option \<times> bool) option"
and hremove_slot :: "('a, 'v) mapEntry hamtSlot \<Rightarrow> 64 word \<Rightarrow> nat \<Rightarrow> string
                \<Rightarrow> (('a, 'v) mapEntry hamtSlot option \<times> bool) option" where
  "hremove (HNode bitmap slots ed) h shift ck =
     (let b = hamtBit h shift; i = hamtIndex bitmap b; n = HNode bitmap slots ed in
      if bitmap AND b = 0 then Some (Some (SNode n), False)
      else if i < length slots then
        Option.bind (hremove_slot (slots ! i) h shift ck)
          (\<lambda>(slot, ok). if \<not> ok then Some (Some (SNode n), False)
                        else Some (hremove_apply bitmap slots ed b i shift slot, True))
      else None)"
| "hremove_slot (SEntry s) h shift ck =
     (if ckey s \<noteq> ck then Some (Some (SEntry s), False) else Some (None, True))"
| "hremove_slot (SColl hc es) h shift ck =
     (case coll_remove es ck of
        None \<Rightarrow> Some (Some (SColl hc es), False)
      | Some es' \<Rightarrow> Some (Some (if length es' = 1 then SEntry (hd es') else SColl hc es'), True))"
| "hremove_slot (SNode n) h shift ck = hremove n h (shift + hamtBits) ck"

subsection \<open>Traversal\<close>

fun hwalk :: "'e hamtNode \<Rightarrow> 'e list" and hwalk_slot :: "'e hamtSlot \<Rightarrow> 'e list" where
  "hwalk (HNode bitmap slots ed) = concat (map hwalk_slot slots)"
| "hwalk_slot (SEntry e) = [e]"
| "hwalk_slot (SColl h es) = es"
| "hwalk_slot (SNode n) = hwalk n"

subsection \<open>The invariant\<close>

text \<open>
  The path of a hash is its list of twelve digits; a node or slot at path \<open>pr\<close> holds only
  entries whose hash starts with \<open>pr\<close>. Collision nodes sit below the last level only, so
  a node's shift is \<open>5 * length pr\<close> with \<open>length pr < 12\<close>. \<open>H\<close> is the hash function.
\<close>

definition digits :: "64 word \<Rightarrow> nat list" where
  "digits h = map (\<lambda>k. hamtDigit h (5 * k)) [0..<12]"

definition entry_ok :: "(string \<Rightarrow> 64 word) \<Rightarrow> nat list \<Rightarrow> ('a, 'v) mapEntry \<Rightarrow> bool" where
  "entry_ok H pr e \<longleftrightarrow> hash e = H (ckey e) \<and> take (length pr) (digits (hash e)) = pr"

fun wf_node :: "(string \<Rightarrow> 64 word) \<Rightarrow> nat list \<Rightarrow> ('a, 'v) mapEntry hamtNode \<Rightarrow> bool"
and wf_slot :: "(string \<Rightarrow> 64 word) \<Rightarrow> nat list \<Rightarrow> ('a, 'v) mapEntry hamtSlot \<Rightarrow> bool" where
  "wf_node H pr (HNode bm ss ed) \<longleftrightarrow>
     length pr < 12 \<and> ss \<noteq> [] \<and> length ss = length (bitsOf bm) \<and>
     (\<forall>(b, s) \<in> set (zip (bitsOf bm) ss). wf_slot H (pr @ [b]) s)"
| "wf_slot H pr (SEntry e) \<longleftrightarrow> entry_ok H pr e"
| "wf_slot H pr (SColl h es) \<longleftrightarrow>
     length pr = 12 \<and> 2 \<le> length es \<and> distinct (map ckey es) \<and>
     (\<forall>e \<in> set es. entry_ok H pr e \<and> hash e = h)"
| "wf_slot H pr (SNode n) \<longleftrightarrow> wf_node H pr n"

lemma wf_node_iff:
  "wf_node H pr (HNode bm ss ed) \<longleftrightarrow>
     length pr < 12 \<and> ss \<noteq> [] \<and>
     list_all2 (\<lambda>b s. wf_slot H (pr @ [b]) s) (bitsOf bm) ss"
  by (auto simp: list_all2_iff)

declare wf_node.simps [simp del]

lemma hamtDigit_less [simp]: "hamtDigit h k < 32"
proof -
  have "unat (drop_bit k h AND 31) \<le> unat (31 :: 64 word)"
    by (intro word_le_nat_alt [THEN iffD1] word_and_le1)
  then show ?thesis by (simp add: hamtDigit_def)
qed

lemma length_digits [simp]: "length (digits h) = 12"
  by (simp add: digits_def)

lemma digits_nth [simp]: "k < 12 \<Longrightarrow> digits h ! k = hamtDigit h (5 * k)"
  by (simp add: digits_def)

lemma take_Suc_digits:
  "k < 12 \<Longrightarrow> take (Suc k) (digits h) = take k (digits h) @ [hamtDigit h (5 * k)]"
  by (simp add: take_Suc_conv_app_nth)

lemma entry_ok_snoc:
  assumes "length pr < 12"
  shows "entry_ok H (pr @ [b]) e \<longleftrightarrow> entry_ok H pr e \<and> hamtDigit (hash e) (5 * length pr) = b"
  using assms by (auto simp: entry_ok_def take_Suc_digits)

lemma entry_ok_digits:
  "length pr = 12 \<Longrightarrow> entry_ok H pr e \<Longrightarrow> digits (hash e) = pr"
  by (auto simp: entry_ok_def)

text \<open>The bitmap of a node at one digit.\<close>

lemma hamtBit_eq: "hamtBit h k = 2 ^ hamtDigit h k"
  by (simp add: hamtBit_def push_bit_of_1)

lemma hamtBit_test [simp]: "bm AND hamtBit h k = 0 \<longleftrightarrow> \<not> bit bm (hamtDigit h k)"
  by (simp add: hamtBit_eq and_single_eq_0)

lemma hamtIndex_rank [simp]: "hamtIndex bm (hamtBit h k) = rankOf bm (hamtDigit h k)"
  by (simp add: hamtIndex_def hamtBit_eq onesCount_below)

lemma unat_pow32: "a < 32 \<Longrightarrow> unat (2 ^ a :: 32 word) = 2 ^ a"
proof -
  assume "a < 32"
  then have "(2::nat) ^ a < 2 ^ 32" by (intro power_strict_increasing) auto
  then show ?thesis using unat_of_nat [of "2 ^ a", where 'a = 32] by simp
qed

lemma hamtBit_eq_iff: "hamtBit g k = hamtBit h k \<longleftrightarrow> hamtDigit g k = hamtDigit h k"
  by (simp add: hamtBit_eq word_unat_eq_iff unat_pow32)

lemma hamtBit_less_iff: "hamtBit g k < hamtBit h k \<longleftrightarrow> hamtDigit g k < hamtDigit h k"
  by (simp add: hamtBit_eq word_less_nat_alt unat_pow32)


subsection \<open>Lookup is the entry of the key\<close>

text \<open>The digit a key takes at the level of a node, and the entries found below one slot.\<close>

lemma wf_slot_walk:
  fixes s :: "('a, 'v) mapEntry hamtSlot" and n :: "('a, 'v) mapEntry hamtNode"
  shows "wf_node H pr n \<Longrightarrow> x \<in> set (hwalk n) \<Longrightarrow> entry_ok H pr x"
    and "wf_slot H pr s \<Longrightarrow> x \<in> set (hwalk_slot s) \<Longrightarrow> entry_ok H pr x"
proof (induction H pr n and H pr s rule: wf_node_wf_slot.induct)
  case (1 H pr bm ss ed)
  from "1.prems" obtain s where s: "s \<in> set ss" "x \<in> set (hwalk_slot s)" by auto
  from s(1) "1.prems"(1) obtain b where "(b, s) \<in> set (zip (bitsOf bm) ss)"
    by (auto simp: wf_node_iff dest!: list_all2_lengthD elim!: in_set_impl_in_set_zip2)
  moreover from this "1.prems"(1) have "wf_slot H (pr @ [b]) s" "length pr < 12"
    by (auto simp: wf_node.simps)
  ultimately show ?case using "1.IH" s(2) by (auto simp: entry_ok_snoc)
qed auto

lemma slot_entry_digit:
  assumes "list_all2 (\<lambda>b s. wf_slot H (pr @ [b]) s) bs ss" "length pr < 12"
    and "j < length ss" "x \<in> set (hwalk_slot (ss ! j))"
  shows "bs ! j = hamtDigit (H (ckey x)) (5 * length pr)" "entry_ok H pr x"
proof -
  have "entry_ok H (pr @ [bs ! j]) x"
    using assms by (intro wf_slot_walk(2)) (auto dest: list_all2_nthD2)
  then show "bs ! j = hamtDigit (H (ckey x)) (5 * length pr)" "entry_ok H pr x"
    using assms(2) by (auto simp: entry_ok_snoc) (simp add: entry_ok_def)
qed

lemma walk_in_slot:
  assumes "list_all2 (\<lambda>b s. wf_slot H (pr @ [b]) s) bs ss" "length pr < 12" "distinct bs"
    and "i < length ss" "bs ! i = hamtDigit (H ck) (5 * length pr)"
    and "x \<in> set (concat (map hwalk_slot ss))" "ckey x = ck"
  shows "x \<in> set (hwalk_slot (ss ! i))"
proof -
  from assms(6) obtain s where "s \<in> set ss" "x \<in> set (hwalk_slot s)" by auto
  then obtain j where j: "j < length ss" "x \<in> set (hwalk_slot (ss ! j))"
    by (metis in_set_conv_nth)
  then have "bs ! j = bs ! i" using slot_entry_digit [OF assms(1,2)] assms(5,7) by simp
  then have "j = i"
    using assms(1,3,4) j(1) by (auto dest!: list_all2_lengthD simp: nth_eq_iff_index_eq)
  then show ?thesis using j by simp
qed

text \<open>A node at a digit whose bit is clear, and at one whose bit is set.\<close>

lemma node_slot:
  assumes "wf_node H pr (HNode bm ss ed)" "bit bm (hamtDigit h (5 * length pr))"
  defines "i \<equiv> rankOf bm (hamtDigit h (5 * length pr))"
  shows "i < length ss" "bitsOf bm ! i = hamtDigit h (5 * length pr)"
    "wf_slot H (pr @ [hamtDigit h (5 * length pr)]) (ss ! i)"
proof -
  have wf: "list_all2 (\<lambda>b s. wf_slot H (pr @ [b]) s) (bitsOf bm) ss"
    using assms(1) by (auto simp: wf_node_iff)
  note rk = bitsOf_rank [OF hamtDigit_less assms(2)]
  show 1: "i < length ss" using rk(1) wf by (auto simp: i_def dest: list_all2_lengthD)
  show 2: "bitsOf bm ! i = hamtDigit h (5 * length pr)" using rk(2) by (simp add: i_def)
  show "wf_slot H (pr @ [hamtDigit h (5 * length pr)]) (ss ! i)"
    using list_all2_nthD2 [OF wf 1] 2 by simp
qed

lemma node_no_slot:
  assumes "wf_node H pr (HNode bm ss ed)" "\<not> bit bm (hamtDigit (H ck) (5 * length pr))"
    and "x \<in> set (hwalk (HNode bm ss ed))"
  shows "ckey x \<noteq> ck"
proof
  assume ck: "ckey x = ck"
  have wf: "list_all2 (\<lambda>b s. wf_slot H (pr @ [b]) s) (bitsOf bm) ss" and len: "length pr < 12"
    using assms(1) by (auto simp: wf_node_iff)
  from assms(3) obtain s where "s \<in> set ss" "x \<in> set (hwalk_slot s)" by auto
  then obtain j where j: "j < length ss" "x \<in> set (hwalk_slot (ss ! j))"
    by (metis in_set_conv_nth)
  then have "bitsOf bm ! j = hamtDigit (H ck) (5 * length pr)" "j < length (bitsOf bm)"
    using slot_entry_digit(1) [OF wf len j] ck wf by (auto dest: list_all2_lengthD)
  then have "hamtDigit (H ck) (5 * length pr) \<in> set (bitsOf bm)" using nth_mem by metis
  with assms(2) show False by simp
qed

lemma coll_get_spec:
  "case coll_get es ck of Some x \<Rightarrow> x \<in> set es \<and> ckey x = ck
                       | None \<Rightarrow> \<forall>x \<in> set es. ckey x \<noteq> ck"
  by (induction es) (auto split: option.splits)

definition finds :: "('a, 'v) mapEntry set \<Rightarrow> string \<Rightarrow> ('a, 'v) mapEntry option \<Rightarrow> bool" where
  "finds W ck r \<longleftrightarrow> (case r of Some x \<Rightarrow> x \<in> W \<and> ckey x = ck
                              | None \<Rightarrow> \<forall>x \<in> W. ckey x \<noteq> ck)"

lemma finds_frame:
  assumes "finds V ck r" "V \<subseteq> W" "\<And>x. x \<in> W \<Longrightarrow> ckey x = ck \<Longrightarrow> x \<in> V"
  shows "finds W ck r"
proof (cases r)
  case None
  with assms(1) have "\<forall>x \<in> V. ckey x \<noteq> ck" by (simp add: finds_def)
  with assms(3) have "\<forall>x \<in> W. ckey x \<noteq> ck" by blast
  with None show ?thesis by (simp add: finds_def)
next
  case (Some x)
  with assms(1) have "x \<in> V \<and> ckey x = ck" by (simp add: finds_def)
  with Some assms(2) show ?thesis by (simp add: finds_def subset_iff)
qed

lemma hget_finds:
  "wf_node H pr n \<Longrightarrow> take (length pr) (digits (H ck)) = pr \<Longrightarrow>
   \<exists>r. hget n (H ck) (5 * length pr) ck = Some r \<and> finds (set (hwalk n)) ck r"
proof (induction n "H ck" "5 * length pr" ck arbitrary: pr rule: hget.induct)
  case (1 bm ss ed ck)
  let ?b = "hamtDigit (H ck) (5 * length pr)" and ?i = "rankOf bm (hamtDigit (H ck) (5 * length pr))"
  from "1.prems" have wf: "list_all2 (\<lambda>b s. wf_slot H (pr @ [b]) s) (bitsOf bm) ss"
    and len: "length pr < 12" by (auto simp: wf_node_iff)
  show ?case
  proof (cases "bit bm ?b")
    case False
    have "\<forall>x \<in> set (hwalk (HNode bm ss ed)). ckey x \<noteq> ck"
      using node_no_slot [OF "1.prems"(1) False] by blast
    then have "finds (set (hwalk (HNode bm ss ed))) ck None" by (simp add: finds_def)
    with False show ?thesis by (auto simp: Let_def)
  next
    case True
    note i = node_slot(1) [OF "1.prems"(1) True] and ib = node_slot(2) [OF "1.prems"(1) True]
      and slot = node_slot(3) [OF "1.prems"(1) True]
    have frame: "finds (set (hwalk (HNode bm ss ed))) ck r"
      if "finds (set (hwalk_slot (ss ! ?i))) ck r" for r
      using that
    proof (rule finds_frame)
      show "set (hwalk_slot (ss ! ?i)) \<subseteq> set (hwalk (HNode bm ss ed))"
        using i nth_mem by fastforce
    qed (use walk_in_slot [OF wf len _ i] ib in auto)
    show ?thesis
    proof (cases "ss ! ?i")
      case (SEntry s)
      then show ?thesis using True i frame [of "if ckey s = ck then Some s else None"]
        by (auto simp: Let_def finds_def split: if_splits)
    next
      case (SColl h es)
      then show ?thesis using True i frame [of "coll_get es ck"] coll_get_spec [of es ck]
        by (auto simp: Let_def finds_def)
    next
      case (SNode n)
      have "\<exists>r. hget n (H ck) (5 * length (pr @ [?b])) ck = Some r \<and> finds (set (hwalk n)) ck r"
        using SNode True i slot len "1.prems"(2)
        by (intro "1.hyps") (auto simp: take_Suc_digits)
      then show ?thesis using SNode True i frame by (auto simp: Let_def add.commute)
    qed
  qed
qed


subsection \<open>Insertion adds or replaces one entry\<close>

definition put_rel :: "('a, 'v) mapEntry set \<Rightarrow> ('a, 'v) mapEntry \<Rightarrow> ('a, 'v) mapEntry set
                       \<Rightarrow> bool \<Rightarrow> bool" where
  "put_rel W e W' added \<longleftrightarrow>
     (if added then (\<forall>x \<in> W. ckey x \<noteq> ckey e) \<and> W' = insert e W
      else \<exists>x \<in> W. ckey x = ckey e \<and>
             W' = insert (e\<lparr>seq := seq x\<rparr>) {y \<in> W. ckey y \<noteq> ckey e})"

lemma put_rel_frame:
  assumes "put_rel V e V' added" "\<And>x. x \<in> R \<Longrightarrow> ckey x \<noteq> ckey e"
  shows "put_rel (R \<union> V) e (R \<union> V') added"
proof (cases added)
  case True
  with assms show ?thesis by (auto simp: put_rel_def)
next
  case False
  with assms(1) obtain x where "x \<in> V" "ckey x = ckey e"
    "V' = insert (e\<lparr>seq := seq x\<rparr>) {y \<in> V. ckey y \<noteq> ckey e}" by (auto simp: put_rel_def)
  moreover from this assms(2) have
    "R \<union> V' = insert (e\<lparr>seq := seq x\<rparr>) {y \<in> R \<union> V. ckey y \<noteq> ckey e}" by auto
  ultimately show ?thesis using False by (auto simp: put_rel_def)
qed

definition hash_compat :: "('a, 'v) mapEntry set \<Rightarrow> 64 word \<Rightarrow> bool" where
  "hash_compat W h \<longleftrightarrow> (\<forall>x \<in> W. digits (hash x) = digits h \<longrightarrow> hash x = h)"

lemma coll_put_entries_spec:
  assumes "coll_put_entries es e = (ys, added)" "distinct (map ckey es)"
  shows "put_rel (set es) e (set ys) added" "distinct (map ckey ys)" "length es \<le> length ys"
proof -
  have "put_rel (set es) e (set ys) added \<and> distinct (map ckey ys) \<and> length es \<le> length ys \<and>
        ckey ` set ys = insert (ckey e) (ckey ` set es)"
    using assms
  proof (induction es arbitrary: ys)
    case Nil
    then show ?case by (auto simp: put_rel_def)
  next
    case (Cons x es)
    show ?case
    proof (cases "ckey x = ckey e")
      case True
      with Cons.prems have "{y \<in> set es. ckey y \<noteq> ckey e} = set es" by (auto simp: image_iff)
      with True Cons.prems show ?thesis by (auto simp: put_rel_def)
    next
      case False
      with Cons.prems obtain zs where zs: "coll_put_entries es e = (zs, added)" "ys = x # zs"
        by (auto split: prod.splits)
      with Cons have IH: "put_rel (set es) e (set zs) added" "distinct (map ckey zs)"
        "length es \<le> length zs" "ckey ` set zs = insert (ckey e) (ckey ` set es)" by auto
      have "put_rel ({x} \<union> set es) e ({x} \<union> set zs) added"
        using IH(1) False by (intro put_rel_frame) auto
      moreover have "ckey x \<notin> ckey ` set zs" using IH(4) False Cons.prems(2) by auto
      ultimately show ?thesis using zs(2) IH by auto
    qed
  qed
  then show "put_rel (set es) e (set ys) added" "distinct (map ckey ys)" "length es \<le> length ys"
    by auto
qed

lemma coll_put_entries_old:
  "coll_put_entries es e = (ys, added) \<Longrightarrow> y \<in> set ys \<Longrightarrow>
   y \<in> set es \<or> (ckey y = ckey e \<and> hash y = hash e)"
  by (induction es arbitrary: ys) (auto split: if_splits prod.splits)

lemma entry_ok_seq [simp]: "entry_ok H pr (e\<lparr>seq := k\<rparr>) = entry_ok H pr e"
  by (simp add: entry_ok_def)

text \<open>Merging pushes two entries down to the first digit in which their hashes differ.\<close>

lemma hamtMerge_spec:
  assumes "entry_ok H pr s" "entry_ok H pr e" "ckey s \<noteq> ckey e" "length pr \<le> 12"
    and "hash_compat {s} (hash e)"
  shows "\<exists>t. hamtMerge (SEntry s) e (5 * length pr) edit = Some t \<and> wf_slot H pr t \<and>
             set (hwalk_slot t) = {s, e}"
  using assms
proof (induction "12 - length pr" arbitrary: pr)
  case 0
  then have len: "length pr = 12" by simp
  with "0.prems" have "hash s = hash e"
    using entry_ok_digits [OF len "0.prems"(1)] entry_ok_digits [OF len "0.prems"(2)]
    by (simp add: hash_compat_def)
  with "0.prems" len show ?case
    by (subst hamtMerge.simps) (auto simp: Let_def)
next
  case (Suc m)
  then have len: "length pr < 12" by simp
  let ?k = "5 * length pr"
  let ?ob = "hamtDigit (hash s) ?k" and ?nb = "hamtDigit (hash e) ?k"
  have ok: "entry_ok H (pr @ [?ob]) s" "entry_ok H (pr @ [?nb]) e"
    using Suc.prems len by (auto simp: entry_ok_snoc)
  consider (eq) "?ob = ?nb" | (lt) "?ob < ?nb" | (gt) "?nb < ?ob" by linarith
  then show ?case
  proof cases
    case eq
    have "m = 12 - length (pr @ [?ob])" "length (pr @ [?ob]) \<le> 12"
      using Suc.hyps(2) len by simp_all
    moreover have "entry_ok H (pr @ [?ob]) e" using ok(2) eq by simp
    ultimately obtain t where t: "hamtMerge (SEntry s) e (5 * length (pr @ [?ob])) edit = Some t"
      "wf_slot H (pr @ [?ob]) t" "set (hwalk_slot t) = {s, e}"
      using Suc.hyps(1) [of "pr @ [?ob]"] ok(1) Suc.prems(3,5) by blast
    have "wf_node H pr (HNode (hamtBit (hash s) ?k) [t] edit)"
      using len t(2) by (simp add: wf_node_iff hamtBit_eq bitsOf_single)
    with eq len t(1,3) show ?thesis
      by (subst hamtMerge.simps) (simp add: Let_def hamtBit_eq_iff add.commute)
  next
    case lt
    then have "bitsOf (hamtBit (hash s) ?k OR hamtBit (hash e) ?k) = [?ob, ?nb]"
      by (simp add: hamtBit_eq bitsOf_pair)
    with lt len ok show ?thesis
      by (subst hamtMerge.simps)
         (auto simp: Let_def hamtBit_eq_iff hamtBit_less_iff wf_node_iff)
  next
    case gt
    then have "bitsOf (hamtBit (hash s) ?k OR hamtBit (hash e) ?k) = [?nb, ?ob]"
      by (simp add: hamtBit_eq bitsOf_pair or.commute [of "2 ^ ?ob"])
    with gt len ok show ?thesis
      by (subst hamtMerge.simps)
         (auto simp: Let_def hamtBit_eq_iff hamtBit_less_iff wf_node_iff)
  qed
qed


text \<open>
  The entries of a node are those under one slot and the rest; the rest never holds the key
  whose digit selects the slot.
\<close>

definition others :: "('a, 'v) mapEntry hamtSlot list \<Rightarrow> nat \<Rightarrow> ('a, 'v) mapEntry set" where
  "others ss i = set (concat (map hwalk_slot (take i ss @ drop (Suc i) ss)))"

lemma walk_split:
  assumes "i < length ss"
  shows "set (concat (map hwalk_slot ss)) = others ss i \<union> set (hwalk_slot (ss ! i))"
  unfolding others_def by (subst (1) id_take_nth_drop [OF assms]) auto

lemma walk_update:
  assumes "i < length ss"
  shows "set (concat (map hwalk_slot (ss[i := s]))) = others ss i \<union> set (hwalk_slot s)"
  unfolding others_def by (subst (1) upd_conv_take_nth_drop [OF assms]) auto

lemma walk_delete:
  "set (concat (map hwalk_slot (take i ss @ drop (Suc i) ss))) = others ss i"
  by (simp add: others_def)

lemma walk_insert:
  "set (concat (map hwalk_slot (take i ss @ s # drop i ss)))
   = set (hwalk_slot s) \<union> set (concat (map hwalk_slot ss))"
  by (simp only: set_concat set_map set_insert_at image_insert Union_insert)

lemma delete_at_nth:
  assumes "s \<in> set (take i xs @ drop (Suc i) xs)"
  shows "\<exists>j < length xs. j \<noteq> i \<and> xs ! j = s"
proof -
  from assms consider "s \<in> set (take i xs)" | "s \<in> set (drop (Suc i) xs)" by auto
  then show ?thesis
  proof cases
    case 1
    then show ?thesis by (auto simp: in_set_conv_nth)
  next
    case 2
    then obtain j where "j < length xs - Suc i" "xs ! (Suc i + j) = s"
      by (auto simp: in_set_conv_nth)
    then show ?thesis by (intro exI [of _ "Suc i + j"]) auto
  qed
qed

lemma others_key:
  assumes wf: "list_all2 (\<lambda>b s. wf_slot H (pr @ [b]) s) bs ss" and len: "length pr < 12"
    and "distinct bs" "i < length ss" "bs ! i = hamtDigit (H ck) (5 * length pr)"
    and "x \<in> others ss i"
  shows "ckey x \<noteq> ck"
proof
  assume ck: "ckey x = ck"
  from assms(6) obtain s where "s \<in> set (take i ss @ drop (Suc i) ss)" "x \<in> set (hwalk_slot s)"
    by (auto simp: others_def)
  then obtain j where j: "j < length ss" "j \<noteq> i" "x \<in> set (hwalk_slot (ss ! j))"
    using delete_at_nth by metis
  then have "bs ! j = bs ! i" using slot_entry_digit(1) [OF wf len j(1,3)] ck assms(5) by simp
  with j assms(3,4) wf show False
    by (auto dest!: list_all2_lengthD simp: nth_eq_iff_index_eq)
qed

lemma wf_update:
  assumes "list_all2 (\<lambda>b s. wf_slot H (pr @ [b]) s) bs ss" "i < length ss"
    and "wf_slot H (pr @ [bs ! i]) s"
  shows "list_all2 (\<lambda>b s. wf_slot H (pr @ [b]) s) bs (ss[i := s])"
  using list_all2_update_cong [OF assms(1), of "bs ! i" s i] assms by simp

lemma mutable_node: "\<exists>ed'. mutable (HNode bm ss ed) edit = HNode bm ss ed'"
  by auto


text \<open>A slot that is put into: the result of the switch, and what it does to the node.\<close>

definition slot_put_ok where
  "slot_put_ok H pr slot e r \<longleftrightarrow>
     (\<exists>slot' added. r = Some (slot', added) \<and> wf_slot H pr slot' \<and>
        put_rel (set (hwalk_slot slot)) e (set (hwalk_slot slot')) added)"

lemma put_entry_ok:
  assumes "entry_ok H (pr @ [d]) s" "entry_ok H (pr @ [d]) e" "length pr < 12"
    and "hash_compat {s} (hash e)"
  shows "slot_put_ok H (pr @ [d]) (SEntry s) e (hput_slot (SEntry s) e (5 * length pr) edit)"
proof (cases "ckey s = ckey e")
  case True
  with assms(2) show ?thesis by (auto simp: slot_put_ok_def put_rel_def)
next
  case False
  then obtain t where "hamtMerge (SEntry s) e (5 * length (pr @ [d])) edit = Some t"
    "wf_slot H (pr @ [d]) t" "set (hwalk_slot t) = {s, e}"
    using hamtMerge_spec [OF assms(1,2) False, of edit] assms(3,4) by auto
  with False show ?thesis by (auto simp: slot_put_ok_def put_rel_def add.commute)
qed

lemma put_coll_ok:
  assumes wf: "wf_slot H pr (SColl h es)" and e: "entry_ok H pr e"
    and "hash_compat (set es) (hash e)"
  shows "slot_put_ok H pr (SColl h es) e (hput_slot (SColl h es) e shift edit)"
proof -
  have len: "length pr = 12" using wf by simp
  obtain x where x: "x \<in> set es" "entry_ok H pr x" "hash x = h" using wf by (cases es) auto
  then have "hash e = h"
    using assms(3) entry_ok_digits [OF len x(2)] entry_ok_digits [OF len e]
    by (auto simp: hash_compat_def)
  obtain ys added where ys: "coll_put_entries es e = (ys, added)" by fastforce
  note cs = coll_put_entries_spec [OF ys]
  have "\<forall>y \<in> set ys. entry_ok H pr y \<and> hash y = h"
    using cs(1) e \<open>hash e = h\<close> wf by (auto simp: put_rel_def split: if_splits)
  with cs wf ys \<open>hash e = h\<close> show ?thesis by (auto simp: slot_put_ok_def)
qed

lemma put_at_slot:
  assumes wf: "wf_node H pr (HNode bm ss ed)"
    and e: "hash e = H (ckey e)" "bit bm (hamtDigit (hash e) (5 * length pr))"
  defines "i \<equiv> rankOf bm (hamtDigit (hash e) (5 * length pr))"
  assumes step: "slot_put_ok H (pr @ [hamtDigit (hash e) (5 * length pr)]) (ss ! i) e
                   (hput_slot (ss ! i) e (5 * length pr) edit)"
  shows "\<exists>n' added. hput (HNode bm ss ed) e (5 * length pr) edit = Some (n', added) \<and>
           wf_node H pr n' \<and> put_rel (set (hwalk (HNode bm ss ed))) e (set (hwalk n')) added"
proof -
  note sl = node_slot [OF wf e(2), folded i_def]
  from wf have wf2: "list_all2 (\<lambda>b s. wf_slot H (pr @ [b]) s) (bitsOf bm) ss"
    and len: "length pr < 12" by (auto simp: wf_node_iff)
  obtain ed' where mut: "mutable (HNode bm ss ed) edit = HNode bm ss ed'"
    using mutable_node by blast
  from step obtain slot added where r: "hput_slot (ss ! i) e (5 * length pr) edit = Some (slot, added)"
    "wf_slot H (pr @ [hamtDigit (hash e) (5 * length pr)]) slot"
    "put_rel (set (hwalk_slot (ss ! i))) e (set (hwalk_slot slot)) added"
    by (auto simp: slot_put_ok_def)
  have "wf_node H pr (HNode bm (ss[i := slot]) ed')"
    using wf_update [OF wf2 sl(1)] r(2) sl(1,2) len by (auto simp: wf_node_iff)
  moreover have "put_rel (set (hwalk (HNode bm ss ed))) e
      (set (hwalk (HNode bm (ss[i := slot]) ed'))) added"
    unfolding hwalk.simps walk_split [OF sl(1)] walk_update [OF sl(1)]
    using r(3) others_key [OF wf2 len _ sl(1), of "ckey e"] sl(2) e(1)
    by (intro put_rel_frame) auto
  moreover have "hput (HNode bm ss ed) e (5 * length pr) edit
      = Some (HNode bm (ss[i := slot]) ed', added)"
    using e(2) sl(1) r(1) mut by (simp add: Let_def i_def)
  ultimately show ?thesis by blast
qed

lemma put_at_free:
  assumes wf: "wf_node H pr (HNode bm ss ed)"
    and e: "entry_ok H pr e" "\<not> bit bm (hamtDigit (hash e) (5 * length pr))"
  shows "\<exists>n' added. hput (HNode bm ss ed) e (5 * length pr) edit = Some (n', added) \<and>
           wf_node H pr n' \<and> put_rel (set (hwalk (HNode bm ss ed))) e (set (hwalk n')) added"
proof -
  let ?d = "hamtDigit (hash e) (5 * length pr)"
  let ?i = "rankOf bm ?d"
  from wf have wf2: "list_all2 (\<lambda>b s. wf_slot H (pr @ [b]) s) (bitsOf bm) ss"
    and len: "length pr < 12" by (auto simp: wf_node_iff)
  obtain ed' where mut: "mutable (HNode bm ss ed) edit = HNode bm ss ed'"
    using mutable_node by blast
  let ?n = "HNode (bm OR hamtBit (hash e) (5 * length pr)) (take ?i ss @ SEntry e # drop ?i ss) ed'"
  have "wf_slot H (pr @ [?d]) (SEntry e)" using e(1) len by (simp add: entry_ok_snoc)
  then have "wf_node H pr ?n"
    using e(2) wf2 len by (simp add: wf_node_iff hamtBit_eq bitsOf_set_bit list_all2_insert_at)
  moreover have "\<forall>x \<in> set (hwalk (HNode bm ss ed)). ckey x \<noteq> ckey e"
    using node_no_slot [OF wf, of "ckey e"] e by (auto simp: entry_ok_def)
  then have "put_rel (set (hwalk (HNode bm ss ed))) e (set (hwalk ?n)) True"
    unfolding hwalk.simps walk_insert by (simp add: put_rel_def)
  moreover have "?i \<le> length ss"
    using list_all2_lengthD [OF wf2] bitsOf_split [of ?d bm] by (simp add: rankOf_def)
  then have "hput (HNode bm ss ed) e (5 * length pr) edit = Some (?n, True)"
    using e(2) mut by (simp add: Let_def)
  ultimately show ?thesis by blast
qed


lemma hput_spec:
  fixes n :: "('a, 'v) mapEntry hamtNode" and s :: "('a, 'v) mapEntry hamtSlot"
  shows "hash e = H (ckey e) \<Longrightarrow> shift = 5 * length pr \<Longrightarrow> wf_node H pr n \<Longrightarrow>
     entry_ok H pr e \<Longrightarrow> hash_compat (set (hwalk n)) (hash e) \<Longrightarrow>
     \<exists>n' added. hput n e shift edit = Some (n', added) \<and> wf_node H pr n' \<and>
       put_rel (set (hwalk n)) e (set (hwalk n')) added"
  and "hash e = H (ckey e) \<Longrightarrow> shift = 5 * length pr \<Longrightarrow> length pr < 12 \<Longrightarrow>
     wf_slot H (pr @ [d]) s \<Longrightarrow> entry_ok H (pr @ [d]) e \<Longrightarrow>
     hash_compat (set (hwalk_slot s)) (hash e) \<Longrightarrow>
     slot_put_ok H (pr @ [d]) s e (hput_slot s e shift edit)"
proof (induction n e shift edit and s e shift edit arbitrary: pr and pr d
    rule: hput_hput_slot.induct)
  case (1 bm ss ed e shift edit)
  let ?d = "hamtDigit (hash e) (5 * length pr)"
  show ?case
  proof (cases "bit bm ?d")
    case False
    then show ?thesis using put_at_free "1.prems" by blast
  next
    case True
    note sl = node_slot [OF "1.prems"(3) True]
    have len: "length pr < 12" using "1.prems"(3) by (simp add: wf_node_iff)
    have "hash_compat (set (hwalk_slot (ss ! rankOf bm ?d))) (hash e)"
      using "1.prems"(5) nth_mem [OF sl(1)] by (auto simp: hash_compat_def)
    then have "slot_put_ok H (pr @ [?d]) (ss ! rankOf bm ?d) e
        (hput_slot (ss ! rankOf bm ?d) e shift edit)"
      using "1.IH" [of "hamtBit (hash e) shift" "rankOf bm ?d" pr ?d] True sl len "1.prems"
      by (simp add: entry_ok_snoc)
    then show ?thesis
      using put_at_slot [OF "1.prems"(3,1) True] "1.prems"(2) by simp
  qed
next
  case (2 s e shift edit)
  then show ?case using put_entry_ok [of H pr d s e edit] by simp
next
  case (3 h es e shift edit)
  then show ?case using put_coll_ok [of H "pr @ [d]" h es e shift edit] by simp
next
  case (4 n e shift edit)
  have "\<exists>n' added. hput n e (shift + hamtBits) edit = Some (n', added) \<and>
      wf_node H (pr @ [d]) n' \<and> put_rel (set (hwalk n)) e (set (hwalk n')) added"
    using "4.prems" by (intro "4.IH") auto
  then show ?case by (auto simp: slot_put_ok_def)
qed


subsection \<open>Removal drops the entry of the key\<close>

definition slot_rem_ok where
  "slot_rem_ok H pr W ck r \<longleftrightarrow>
     (\<exists>res ok. r = Some (res, ok) \<and> (ok \<longleftrightarrow> (\<exists>x \<in> W. ckey x = ck)) \<and>
        (ok \<longrightarrow> (case res of None \<Rightarrow> \<forall>x \<in> W. ckey x = ck
                        | Some s \<Rightarrow> wf_slot H pr s \<and> set (hwalk_slot s) = {x \<in> W. ckey x \<noteq> ck})))"

lemma slot_rem_okI:
  assumes "\<exists>x \<in> W. ckey x = ck"
    and "case res of None \<Rightarrow> \<forall>x \<in> W. ckey x = ck
                   | Some s \<Rightarrow> wf_slot H pr s \<and> set (hwalk_slot s) = {x \<in> W. ckey x \<noteq> ck}"
  shows "slot_rem_ok H pr W ck (Some (res, True))"
  using assms by (auto simp: slot_rem_ok_def)

lemma coll_remove_spec:
  assumes "distinct (map ckey es)"
  shows "case coll_remove es ck of
      None \<Rightarrow> \<forall>x \<in> set es. ckey x \<noteq> ck
    | Some es' \<Rightarrow> (\<exists>x \<in> set es. ckey x = ck) \<and> set es' = {x \<in> set es. ckey x \<noteq> ck} \<and>
        distinct (map ckey es') \<and> length es = Suc (length es')"
  using assms
proof (induction es)
  case (Cons x es)
  show ?case
  proof (cases "ckey x = ck")
    case True
    with Cons.prems have "{y \<in> set es. ckey y \<noteq> ck} = set es" by (auto simp: image_iff)
    with True Cons.prems show ?thesis by auto
  next
    case False
    with Cons show ?thesis by (auto split: option.splits)
  qed
qed simp

lemma rem_coll_ok:
  assumes "wf_slot H pr (SColl hc es)"
  shows "slot_rem_ok H pr (set es) ck (hremove_slot (SColl hc es) h shift ck)"
proof (cases "coll_remove es ck")
  case None
  then show ?thesis using coll_remove_spec [of es ck] assms by (auto simp: slot_rem_ok_def)
next
  case (Some es')
  then have es': "\<exists>x \<in> set es. ckey x = ck" "set es' = {x \<in> set es. ckey x \<noteq> ck}"
    "distinct (map ckey es')" "length es = Suc (length es')"
    using coll_remove_spec [of es ck] assms by auto
  show ?thesis
  proof (cases "length es' = 1")
    case True
    then obtain x where "es' = [x]" by (auto simp: length_Suc_conv)
    with Some es' assms show ?thesis by (auto simp: slot_rem_ok_def)
  next
    case False
    with Some es' assms show ?thesis by (auto simp: slot_rem_ok_def)
  qed
qed

text \<open>What \<open>hremove_apply\<close> makes of a well-formed node.\<close>

lemma hremove_apply_ok:
  assumes wf: "wf_node H pr (HNode bm ss ed)" and bit: "bit bm (hamtDigit h (5 * length pr))"
  defines "d \<equiv> hamtDigit h (5 * length pr)" and "i \<equiv> rankOf bm (hamtDigit h (5 * length pr))"
  assumes slot: "case slot of Some s \<Rightarrow> wf_slot H (pr @ [d]) s | None \<Rightarrow> True"
  shows "case hremove_apply bm ss ed (hamtBit h (5 * length pr)) i (5 * length pr) slot of
      None \<Rightarrow> slot = None \<and> others ss i = {}
    | Some s \<Rightarrow> wf_slot H pr s \<and> (pr = [] \<longrightarrow> (\<exists>n. s = SNode n)) \<and>
        set (hwalk_slot s) = others ss i \<union> (case slot of Some s' \<Rightarrow> set (hwalk_slot s') | None \<Rightarrow> {})"
proof (cases slot)
  case (Some s)
  note sl = node_slot [OF wf bit, folded i_def d_def]
  obtain ed' where "mutable (HNode bm ss ed) None = HNode bm ss ed'"
    using mutable_node by blast
  moreover have "wf_node H pr (HNode bm (ss[i := s]) ed')" for ed'
    using wf slot Some sl wf_update [of H pr "bitsOf bm" ss i s] by (auto simp: wf_node_iff)
  ultimately show ?thesis
    using Some walk_update [OF sl(1)] by (simp add: hremove_apply_def)
next
  case None
  note sl = node_slot [OF wf bit, folded i_def d_def]
  let ?ss = "take i ss @ drop (Suc i) ss"
  show ?thesis
  proof (cases "length ss = 1")
    case True
    with None sl(1) show ?thesis by (simp add: hremove_apply_def others_def)
  next
    case False
    have "0 < length ?ss" using False sl(1) by simp
    then have ne: "?ss \<noteq> []" unfolding length_greater_0_conv .
    have "list_all2 (\<lambda>b s. wf_slot H (pr @ [b]) s)
        (bitsOf (bm AND NOT (hamtBit h (5 * length pr)))) ?ss"
      using wf bit unfolding wf_node_iff hamtBit_eq bitsOf_clear_bit [OF hamtDigit_less bit] i_def
      by (intro list_all2_delete_at) simp
    moreover from this ne have "\<exists>b. wf_slot H (pr @ [b]) (hd ?ss)"
      by (cases ?ss) (auto simp: list_all2_Cons2)
    moreover have "hwalk_slot (hd ?ss) = concat (map hwalk_slot ?ss)" if "length ?ss = 1"
      using that by (cases ?ss) auto
    ultimately show ?thesis
      using None False ne wf walk_delete [of i ss]
      by (cases "hd ?ss")
         (auto simp: hremove_apply_def Let_def slot_is_entry_def wf_node_iff entry_ok_snoc
            simp del: hd_append2 map_append concat_append set_append length_append)
  qed
qed


lemma hremove_spec:
  fixes n :: "('a, 'v) mapEntry hamtNode" and s :: "('a, 'v) mapEntry hamtSlot"
  shows "h = H ck \<Longrightarrow> shift = 5 * length pr \<Longrightarrow> wf_node H pr n \<Longrightarrow>
     take (length pr) (digits h) = pr \<Longrightarrow>
     slot_rem_ok H pr (set (hwalk n)) ck (hremove n h shift ck) \<and>
     (\<forall>res ok. hremove n h shift ck = Some (res, ok) \<longrightarrow>
        (ok \<and> pr = [] \<longrightarrow> res = None \<or> (\<exists>m. res = Some (SNode m))))"
  and "h = H ck \<Longrightarrow> shift = 5 * length pr \<Longrightarrow> length pr < 12 \<Longrightarrow> wf_slot H (pr @ [d]) s \<Longrightarrow>
     take (Suc (length pr)) (digits h) = pr @ [d] \<Longrightarrow>
     slot_rem_ok H (pr @ [d]) (set (hwalk_slot s)) ck (hremove_slot s h shift ck)"
proof (induction n h shift ck and s h shift ck arbitrary: pr and pr d
    rule: hremove_hremove_slot.induct)
  case (1 bm ss ed h shift ck)
  let ?d = "hamtDigit h (5 * length pr)"
  let ?i = "rankOf bm ?d"
  have len: "length pr < 12" and wf: "list_all2 (\<lambda>b s. wf_slot H (pr @ [b]) s) (bitsOf bm) ss"
    using "1.prems"(3) by (auto simp: wf_node_iff)
  show ?case
  proof (cases "bit bm ?d")
    case False
    then show ?thesis
      using node_no_slot [OF "1.prems"(3), of ck] "1.prems"(1,2)
      by (auto simp: Let_def slot_rem_ok_def intro: exI [of _ False])
  next
    case True
    note sl = node_slot [OF "1.prems"(3) True]
    have oth: "x \<in> others ss ?i \<Longrightarrow> ckey x \<noteq> ck" for x
      using others_key [OF wf len _ sl(1), of ck x] sl(2) "1.prems"(1) by simp
    have "slot_rem_ok H (pr @ [?d]) (set (hwalk_slot (ss ! ?i))) ck
        (hremove_slot (ss ! ?i) h shift ck)"
      using "1.IH" [of "hamtBit h shift" ?i "HNode bm ss ed" pr ?d] True sl len "1.prems"
      by (simp add: take_Suc_digits)
    then obtain res ok where r: "hremove_slot (ss ! ?i) h shift ck = Some (res, ok)"
      "ok \<longleftrightarrow> (\<exists>x \<in> set (hwalk_slot (ss ! ?i)). ckey x = ck)"
      "ok \<Longrightarrow> (case res of None \<Rightarrow> \<forall>x \<in> set (hwalk_slot (ss ! ?i)). ckey x = ck
        | Some s \<Rightarrow> wf_slot H (pr @ [?d]) s \<and>
            set (hwalk_slot s) = {x \<in> set (hwalk_slot (ss ! ?i)). ckey x \<noteq> ck})"
      by (auto simp: slot_rem_ok_def)
    have W: "set (hwalk (HNode bm ss ed)) = others ss ?i \<union> set (hwalk_slot (ss ! ?i))"
      unfolding hwalk.simps by (rule walk_split [OF sl(1)])
    show ?thesis
    proof (cases ok)
      case False
      then show ?thesis using True sl(1) r(1,2) W oth "1.prems"(2)
        by (auto simp: Let_def slot_rem_ok_def)
    next
      case okT: True
      have slot: "case res of Some s \<Rightarrow> wf_slot H (pr @ [?d]) s | None \<Rightarrow> True"
        using r(3) [OF okT] by (simp split: option.splits)
      have eq: "hremove (HNode bm ss ed) h shift ck =
          Some (hremove_apply bm ss ed (hamtBit h (5 * length pr)) ?i (5 * length pr) res, True)"
        using True sl(1) r(1) okT "1.prems"(2) by (simp add: Let_def)
      let ?slotW = "case res of Some s' \<Rightarrow> set (hwalk_slot s') | None \<Rightarrow> {}"
      have rest: "others ss ?i \<union> ?slotW = {x \<in> set (hwalk (HNode bm ss ed)). ckey x \<noteq> ck}"
        using r(3) [OF okT] oth unfolding W by (cases res) auto
      have ex: "\<exists>x \<in> set (hwalk (HNode bm ss ed)). ckey x = ck" using r(2) okT W by blast
      note app = hremove_apply_ok [OF "1.prems"(3) True slot]
      show ?thesis
      proof (cases "hremove_apply bm ss ed (hamtBit h (5 * length pr)) ?i (5 * length pr) res")
        case None
        with app rest have "{x \<in> set (hwalk (HNode bm ss ed)). ckey x \<noteq> ck} = {}" by simp
        with ex have "slot_rem_ok H pr (set (hwalk (HNode bm ss ed))) ck (Some (None, True))"
          by (intro slot_rem_okI) auto
        then show ?thesis unfolding eq None by simp
      next
        case (Some s)
        with app rest have "wf_slot H pr s" "pr = [] \<longrightarrow> (\<exists>n. s = SNode n)"
          "set (hwalk_slot s) = {x \<in> set (hwalk (HNode bm ss ed)). ckey x \<noteq> ck}" by simp_all
        with ex have "slot_rem_ok H pr (set (hwalk (HNode bm ss ed))) ck (Some (Some s, True))"
          by (intro slot_rem_okI) simp_all
        then show ?thesis unfolding eq Some using \<open>pr = [] \<longrightarrow> (\<exists>n. s = SNode n)\<close> by simp
      qed
    qed
  qed
next
  case (2 s h shift ck)
  then show ?case by (auto simp: slot_rem_ok_def)
next
  case (3 hc es h shift ck)
  then show ?case using rem_coll_ok [of H "pr @ [d]" hc es ck h shift] by simp
next
  case (4 n h shift ck)
  then have "wf_node H (pr @ [d]) n" "take (length (pr @ [d])) (digits h) = pr @ [d]"
    "shift + hamtBits = 5 * length (pr @ [d])" by simp_all
  then show ?case using "4.IH" [of "pr @ [d]"] "4.prems"(1) by simp
qed


text \<open>Keys are distinct: entries under different slots take different digits.\<close>

lemma distinct_slots:
  assumes "list_all2 (\<lambda>b s. distinct (map ckey (hwalk_slot s)) \<and>
             (\<forall>x \<in> set (hwalk_slot s). g (ckey x) = b)) bs ss" "distinct bs"
  shows "distinct (map ckey (concat (map hwalk_slot ss)))"
  using assms
proof (induction bs ss rule: list_all2_induct)
  case (Cons b bs s ss)
  have "g (ckey x) \<in> set bs" if "t \<in> set ss" "x \<in> set (hwalk_slot t)" for t x
  proof -
    from that(1) obtain i where i: "i < length ss" "ss ! i = t" by (auto simp: in_set_conv_nth)
    with Cons.hyps(2) that(2) have "g (ckey x) = bs ! i" "i < length bs"
      by (auto simp: list_all2_conv_all_nth)
    then show ?thesis by simp
  qed
  then have "\<forall>y \<in> ckey ` set (hwalk_slot s). \<forall>t \<in> set ss. y \<notin> ckey ` set (hwalk_slot t)"
    using Cons.hyps(1) Cons.prems by auto
  with Cons show ?case by auto
qed simp

lemma wf_distinct:
  fixes n :: "('a, 'v) mapEntry hamtNode" and s :: "('a, 'v) mapEntry hamtSlot"
  shows "wf_node H pr n \<Longrightarrow> distinct (map ckey (hwalk n))"
    and "wf_slot H pr s \<Longrightarrow> distinct (map ckey (hwalk_slot s))"
proof (induction H pr n and H pr s rule: wf_node_wf_slot.induct)
  case (1 H pr bm ss ed)
  from "1.prems" have wf: "list_all2 (\<lambda>b s. wf_slot H (pr @ [b]) s) (bitsOf bm) ss"
    and len: "length pr < 12" by (auto simp: wf_node_iff)
  have "list_all2 (\<lambda>b s. distinct (map ckey (hwalk_slot s)) \<and>
      (\<forall>x \<in> set (hwalk_slot s). hamtDigit (H (ckey x)) (5 * length pr) = b)) (bitsOf bm) ss"
    unfolding list_all2_conv_all_nth
  proof (intro conjI allI impI ballI)
    show "length (bitsOf bm) = length ss" using wf by (rule list_all2_lengthD)
  next
    fix i assume i: "i < length (bitsOf bm)"
    then have "i < length ss" using wf by (auto dest: list_all2_lengthD)
    with i have "(bitsOf bm ! i, ss ! i) \<in> set (zip (bitsOf bm) ss)" "i < length ss"
      by (auto simp: set_zip)
    moreover from this have slot: "wf_slot H (pr @ [bitsOf bm ! i]) (ss ! i)"
      using wf by (auto dest: list_all2_nthD2)
    ultimately show "distinct (map ckey (hwalk_slot (ss ! i)))" using "1.IH" by auto
    fix x assume "x \<in> set (hwalk_slot (ss ! i))"
    with slot have "entry_ok H (pr @ [bitsOf bm ! i]) x" by (rule wf_slot_walk)
    then show "hamtDigit (H (ckey x)) (5 * length pr) = bitsOf bm ! i"
      using len by (auto simp: entry_ok_snoc) (simp add: entry_ok_def)
  qed
  then show ?case by (simp add: distinct_slots)
qed auto

end
