(* ===== verification/OrderedMap.thy ===== *)
theory OrderedMap
  imports Prelude
begin

text \<open>
  The contract between the XDM map (\<open>xdm/maparray.go\<close>) and its clients: a map is an
  association list in insertion order, keyed by the canonical form of the key. Replacing a
  key keeps its place, a new key goes to the end. The locale states what a client such as
  \<open>map:merge\<close> relies on; clients are proved once inside it.
\<close>

subsection \<open>The abstract map: an association list in insertion order\<close>

fun al_put :: "'c \<Rightarrow> 'd \<Rightarrow> ('c \<times> 'd) list \<Rightarrow> ('c \<times> 'd) list" where
  "al_put c d [] = [(c, d)]"
| "al_put c d ((c', d') # xs) = (if c' = c then (c, d) # xs else (c', d') # al_put c d xs)"

definition al_remove :: "'c set \<Rightarrow> ('c \<times> 'd) list \<Rightarrow> ('c \<times> 'd) list" where
  "al_remove C xs = filter (\<lambda>(c, d). c \<notin> C) xs"

lemma map_of_al_put: "map_of (al_put c d xs) = (map_of xs)(c \<mapsto> d)"
  by (induction c d xs rule: al_put.induct) auto

lemma al_put_new: "c \<notin> fst ` set xs \<Longrightarrow> al_put c d xs = xs @ [(c, d)]"
  by (induction c d xs rule: al_put.induct) auto

lemma keys_al_put:
  "map fst (al_put c d xs) = (if c \<in> fst ` set xs then map fst xs else map fst xs @ [c])"
  by (induction c d xs rule: al_put.induct) auto

lemma al_put_old:
  "distinct (map fst xs) \<Longrightarrow> c \<in> fst ` set xs \<Longrightarrow>
   al_put c d xs = map (\<lambda>(c', d'). if c' = c then (c, d) else (c', d')) xs"
proof (induction c d xs rule: al_put.induct)
  case (2 c d c' d' xs)
  then show ?case by (auto simp: image_iff intro!: map_idI [symmetric])
qed simp

lemma al_remove_empty [simp]: "al_remove {} xs = xs"
  by (simp add: al_remove_def)

lemma al_remove_insert: "al_remove (insert c C) xs = al_remove C (al_remove {c} xs)"
  by (auto simp: al_remove_def intro!: filter_cong)

lemma map_of_al_remove: "map_of (al_remove C xs) c = (if c \<in> C then None else map_of xs c)"
  by (induction xs) (auto simp: al_remove_def)

subsection \<open>Merging under a duplicates policy\<close>

datatype mergePolicy = UseFirst | UseLast | UseAny | Combine | Reject

text \<open>
  One step of \<open>mapMerge\<close>'s callback on a builder: look the key up, then decide. The
  builder's operations are arguments, so the step is the same code on any ordered map.
\<close>

definition mergeEntry ::
  "('b \<Rightarrow> 'k \<Rightarrow> (string + 'v list option) option) \<Rightarrow> ('b \<Rightarrow> 'k \<Rightarrow> 'v list \<Rightarrow> (string + 'b) option)
   \<Rightarrow> mergePolicy \<Rightarrow> 'k \<Rightarrow> 'v list \<Rightarrow> 'b \<Rightarrow> (string + 'b) option" where
  "mergeEntry lookup ins policy k v b =
     bindO (lookup b k)
       (\<lambda>r. case r of
          None \<Rightarrow> ins b k v
        | Some prev \<Rightarrow>
            (case policy of
               UseFirst \<Rightarrow> Some (Inr b)
             | UseAny \<Rightarrow> Some (Inr b)
             | UseLast \<Rightarrow> ins b k v
             | Combine \<Rightarrow> ins b k (prev @ v)
             | Reject \<Rightarrow> Some (Inl ''FOJS0003'')))"

text \<open>The specification of the step and of a whole merge on association lists.\<close>

definition al_merge ::
  "mergePolicy \<Rightarrow> 'c \<times> 'k \<times> 'v list \<Rightarrow> ('c \<times> 'k \<times> 'v list) list
   \<Rightarrow> string + ('c \<times> 'k \<times> 'v list) list" where
  "al_merge policy = (\<lambda>(c, k, v) xs.
     case map_of xs c of
       None \<Rightarrow> Inr (xs @ [(c, k, v)])
     | Some (_, prev) \<Rightarrow>
         (case policy of
            UseFirst \<Rightarrow> Inr xs
          | UseAny \<Rightarrow> Inr xs
          | UseLast \<Rightarrow> Inr (al_put c (k, v) xs)
          | Combine \<Rightarrow> Inr (al_put c (k, prev @ v) xs)
          | Reject \<Rightarrow> Inl ''FOJS0003''))"

fun al_merges ::
  "mergePolicy \<Rightarrow> ('c \<times> 'k \<times> 'v list) list \<Rightarrow> ('c \<times> 'k \<times> 'v list) list
   \<Rightarrow> string + ('c \<times> 'k \<times> 'v list) list" where
  "al_merges policy [] xs = Inr xs"
| "al_merges policy (e # es) xs = bindE (al_merge policy e xs) (al_merges policy es)"

lemma map_of_None_notin: "map_of xs c = None \<longleftrightarrow> c \<notin> fst ` set xs"
  by (simp add: map_of_eq_None_iff)

lemma al_merge_keys:
  assumes "al_merge policy e xs = Inr ys"
  shows "map fst ys = (if fst e \<in> fst ` set xs then map fst xs else map fst xs @ [fst e])"
proof (cases "map_of xs (fst e)")
  case None
  then have "fst e \<notin> fst ` set xs" by (simp add: map_of_None_notin)
  with assms None show ?thesis by (cases e) (simp add: al_merge_def, auto)
next
  case (Some p)
  then have "fst e \<in> fst ` set xs" by (metis map_of_None_notin option.distinct(1))
  moreover have "ys = xs \<or> (\<exists>d. ys = al_put (fst e) d xs)"
    using assms Some by (cases policy) (auto simp: al_merge_def split: prod.splits)
  ultimately show ?thesis by (elim disjE exE) (simp_all add: keys_al_put)
qed

lemma al_merge_set_keys: "al_merge policy e xs = Inr ys \<Longrightarrow> fst ` set ys = insert (fst e) (fst ` set xs)"
  using al_merge_keys [of policy e xs ys]
  by (metis (no_types, lifting) insert_absorb list.set_map set_append Un_insert_right
      list.set(1) list.set(2) sup_bot_right)

lemma al_merges_total: "policy \<noteq> Reject \<Longrightarrow> \<exists>ys. al_merges policy es xs = Inr ys"
proof (induction es arbitrary: xs)
  case (Cons e es)
  have "\<exists>zs. al_merge policy e xs = Inr zs"
    using Cons.prems by (cases policy) (auto simp: al_merge_def split: prod.splits option.splits)
  with Cons show ?case by auto
qed simp

lemma al_merges_first:
  assumes "policy = UseFirst \<or> policy = UseAny" "al_merges policy es xs = Inr ys"
  shows "map_of ys c = map_of (xs @ es) c"
  using assms(2)
proof (induction es arbitrary: xs)
  case (Cons e es)
  obtain zs where zs: "al_merge policy e xs = Inr zs" "al_merges policy es zs = Inr ys"
    using Cons.prems by (auto simp: bindE_Inr_iff)
  have "map_of (zs @ es) c = map_of (xs @ e # es) c"
    using zs(1) assms(1)
    by (auto simp: al_merge_def map_add_def split: prod.splits option.splits if_splits)
  with Cons.IH [OF zs(2)] show ?case by simp
qed simp

lemma al_merges_last:
  assumes "al_merges UseLast es xs = Inr ys"
  shows "map_of ys c = map_of (rev es @ xs) c"
  using assms
proof (induction es arbitrary: xs)
  case (Cons e es)
  obtain zs where zs: "al_merge UseLast e xs = Inr zs" "al_merges UseLast es zs = Inr ys"
    using Cons.prems by (auto simp: bindE_Inr_iff)
  have "map_of zs c = map_of (e # xs) c"
    using zs(1)
    by (auto simp: al_merge_def map_of_al_put map_add_def split: prod.splits option.splits if_splits)
  with Cons.IH [OF zs(2)] show ?case by (simp add: map_add_def split: option.splits)
qed simp

text \<open>All the values held under a key, in order.\<close>

definition vals_of :: "'c \<Rightarrow> ('c \<times> 'k \<times> 'v list) list \<Rightarrow> 'v list" where
  "vals_of c es = concat (map (\<lambda>(c', k, v). if c' = c then v else []) es)"

lemma vals_of_simps [simp]:
  "vals_of c [] = []"
  "vals_of c ((c', k, v) # es) = (if c' = c then v @ vals_of c es else vals_of c es)"
  by (simp_all add: vals_of_def)

lemma al_merges_combine:
  assumes "al_merges Combine es xs = Inr ys"
  shows "map_option snd (map_of ys c)
    = (if map_of xs c = None \<and> c \<notin> fst ` set es then None
       else Some (case map_of xs c of None \<Rightarrow> vals_of c es | Some (k, p) \<Rightarrow> p @ vals_of c es))"
  using assms
proof (induction es arbitrary: xs)
  case (Cons e es)
  obtain c' k v where e: "e = (c', k, v)" by (cases e)
  obtain zs where zs: "al_merge Combine e xs = Inr zs" "al_merges Combine es zs = Inr ys"
    using Cons.prems by (auto simp: bindE_Inr_iff)
  show ?case
  proof (cases "map_of xs c'")
    case None
    with zs(1) e have "zs = xs @ [(c', k, v)]" by (simp add: al_merge_def)
    with Cons.IH [OF zs(2)] None e show ?thesis
      by (auto simp: map_add_def split: option.splits)
  next
    case (Some p)
    with zs(1) e have "zs = al_put c' (k, snd p @ v) xs"
      by (simp add: al_merge_def split: prod.splits)
    with Cons.IH [OF zs(2)] Some e show ?thesis
      by (auto simp: map_of_al_put split: option.splits)
  qed
qed (auto split: option.splits)

lemma al_merges_reject:
  "al_merges Reject es xs =
     (if distinct (map fst es) \<and> fst ` set es \<inter> fst ` set xs = {} then Inr (xs @ es)
      else Inl ''FOJS0003'')"
proof (induction es arbitrary: xs)
  case (Cons e es)
  obtain c k v where e: "e = (c, k, v)" by (cases e)
  show ?case
  proof (cases "map_of xs c")
    case None
    then have "c \<notin> fst ` set xs" by (simp add: map_of_None_notin)
    with None e Cons.IH [of "xs @ [e]"] show ?thesis
      by (auto simp: al_merge_def)
  next
    case (Some p)
    then have "c \<in> fst ` set xs" by (metis map_of_None_notin option.distinct(1))
    with Some e show ?thesis by (auto simp: al_merge_def split: prod.splits)
  qed
qed simp

text \<open>A key keeps the place of its first occurrence.\<close>

fun add_keys :: "'c list \<Rightarrow> 'c list \<Rightarrow> 'c list" where
  "add_keys seen [] = seen"
| "add_keys seen (c # cs) = add_keys (if c \<in> set seen then seen else seen @ [c]) cs"

lemma al_merges_keys:
  "al_merges policy es xs = Inr ys \<Longrightarrow> map fst ys = add_keys (map fst xs) (map fst es)"
proof (induction es arbitrary: xs)
  case (Cons e es)
  obtain zs where zs: "al_merge policy e xs = Inr zs" "al_merges policy es zs = Inr ys"
    using Cons.prems by (auto simp: bindE_Inr_iff)
  from Cons.IH [OF zs(2)] al_merge_keys [OF zs(1)] show ?case by simp
qed simp

subsection \<open>The contract\<close>

locale ordered_map =
  fixes lookup :: "'b \<Rightarrow> 'k \<Rightarrow> (string + 'v list option) option"
    and ins :: "'b \<Rightarrow> 'k \<Rightarrow> 'v list \<Rightarrow> (string + 'b) option"
    and inv :: "'b \<Rightarrow> bool"
    and absm :: "'b \<Rightarrow> (string \<times> 'k \<times> 'v list) list"
    and canon :: "'k \<Rightarrow> string + string"
    and safe :: "string set \<Rightarrow> bool"
  assumes lookup_abs: "inv b \<Longrightarrow> canon k = Inr c \<Longrightarrow>
      lookup b k = Some (Inr (map_option snd (map_of (absm b) c)))"
    and ins_abs: "inv b \<Longrightarrow> canon k = Inr c \<Longrightarrow> safe (insert c (fst ` set (absm b))) \<Longrightarrow>
      \<exists>b'. ins b k v = Some (Inr b') \<and> inv b' \<and> absm b' = al_put c (k, v) (absm b)"
    and safe_mono: "safe K \<Longrightarrow> K' \<subseteq> K \<Longrightarrow> safe K'"
begin

lemma lookup_ins_same:
  assumes "inv b" "canon k = Inr c" "safe (insert c (fst ` set (absm b)))" "canon k' = Inr c"
  shows "\<exists>b'. ins b k v = Some (Inr b') \<and> lookup b' k' = Some (Inr (Some v))"
  using ins_abs [OF assms(1-3)] lookup_abs assms(4) by (fastforce simp: map_of_al_put)

lemma lookup_ins_other:
  assumes "inv b" "canon k = Inr c" "safe (insert c (fst ` set (absm b)))" "canon k' = Inr c'" "c' \<noteq> c"
  shows "\<exists>b'. ins b k v = Some (Inr b') \<and> lookup b' k' = lookup b k'"
  using ins_abs [OF assms(1-3)] lookup_abs assms(1,4,5) by (fastforce simp: map_of_al_put)

lemma merge_step:
  assumes "inv b" "canon k = Inr c" "safe (insert c (fst ` set (absm b)))"
  shows "case al_merge policy (c, k, v) (absm b) of
      Inl e \<Rightarrow> mergeEntry lookup ins policy k v b = Some (Inl e)
    | Inr xs \<Rightarrow> \<exists>b'. mergeEntry lookup ins policy k v b = Some (Inr b') \<and> inv b' \<and> absm b' = xs"
proof (cases "map_of (absm b) c")
  case None
  then have "al_put c (k, v) (absm b) = absm b @ [(c, k, v)]"
    by (intro al_put_new) (simp add: map_of_None_notin)
  with None show ?thesis
    using lookup_abs [OF assms(1,2)] ins_abs [OF assms, of v]
    by (simp add: mergeEntry_def al_merge_def)
next
  case (Some p)
  then show ?thesis
    using lookup_abs [OF assms(1,2)] ins_abs [OF assms, of v] ins_abs [OF assms, of "snd p @ v"] assms(1)
    by (cases policy) (auto simp: mergeEntry_def al_merge_def split: prod.splits)
qed

text \<open>The same over any list of entries, which is the whole of \<open>map:merge\<close>.\<close>

lemma merge_run:
  assumes "inv b" "\<And>k v. (k, v) \<in> set kvs \<Longrightarrow> canon k = Inr (cf k)"
    and "safe (fst ` set (absm b) \<union> cf ` fst ` set kvs)"
    and step: "\<And>k v kvs b. run ((k, v) # kvs) b
      = bindO (mergeEntry lookup ins policy k v b) (run kvs)" "\<And>b. run [] b = Some (Inr b)"
  shows "case al_merges policy (map (\<lambda>(k, v). (cf k, k, v)) kvs) (absm b) of
      Inl e \<Rightarrow> run kvs b = Some (Inl e)
    | Inr xs \<Rightarrow> \<exists>b'. run kvs b = Some (Inr b') \<and> inv b' \<and> absm b' = xs"
  using assms(1-3)
proof (induction kvs arbitrary: b)
  case Nil
  then show ?case by (simp add: step)
next
  case (Cons kv kvs)
  obtain k v where kv: "kv = (k, v)" by (cases kv)
  have k: "canon k = Inr (cf k)" using Cons.prems(2) [of k v] kv by simp
  have sf: "safe (insert (cf k) (fst ` set (absm b)))"
    using Cons.prems(3) kv by (auto elim!: safe_mono)
  note st = merge_step [OF Cons.prems(1) k sf, of policy v]
  show ?case
  proof (cases "al_merge policy (cf k, k, v) (absm b)")
    case (Inl e)
    with st kv show ?thesis by (simp add: step)
  next
    case (Inr xs)
    with st obtain b' where b': "mergeEntry lookup ins policy k v b = Some (Inr b')" "inv b'" "absm b' = xs"
      by auto
    have "fst ` set (absm b') = insert (cf k) (fst ` set (absm b))"
      using al_merge_set_keys [OF Inr] b'(3) by simp
    then have "safe (fst ` set (absm b') \<union> cf ` fst ` set kvs)"
      using Cons.prems(3) kv by (auto elim!: safe_mono)
    moreover have "canon k' = Inr (cf k')" if "(k', v') \<in> set kvs" for k' v'
      using Cons.prems(2) [of k' v'] that by simp
    ultimately show ?thesis
      using Cons.IH [OF b'(2)] b' Inr kv by (auto simp: step split: sum.splits)
  qed
qed

end

end
