(* ===== verification/MapItem.thy ===== *)
theory MapItem
  imports Hamt OrderedMap
begin

text \<open>
  The XDM map of \<open>xdm/maparray.go\<close>: a trie, an entry count and the next sequence number.
  Iteration sorts the entries by sequence number, which is insertion order. The canonical
  form of a key (\<open>MapKeyOf\<close>, which may fail) and the seeded hash are parameters \<open>mk\<close> and
  \<open>H\<close> of the operations: everything here holds for any of either.

  The abstraction of a map is the association list \<open>mabs\<close> of its entries in insertion
  order, and the locale \<open>ordered_map\<close> is interpreted at the end on maps and on builders.
\<close>

subsection \<open>State and operations\<close>

record ('a, 'v) mapItem =
  root :: "('a, 'v) mapEntry hamtNode option"
  size_n :: int
  nextSeq :: nat

definition NewMap :: "('a, 'v) mapItem" where
  "NewMap = \<lparr>root = None, size_n = 0, nextSeq = 0\<rparr>"

definition put_with ::
  "nat option \<Rightarrow> (string \<Rightarrow> 64 word) \<Rightarrow> ('a \<Rightarrow> 'err + string) \<Rightarrow> ('a, 'v) mapItem \<Rightarrow> 'a \<Rightarrow> 'v
   \<Rightarrow> ('err + ('a, 'v) mapItem) option" where
  "put_with edit H mk m k v =
     (case mk k of
        Inl err \<Rightarrow> Some (Inl err)
      | Inr ck \<Rightarrow>
          let e = \<lparr>key = k, val = v, ckey = ck, hash = H ck, seq = nextSeq m\<rparr> in
          map_option
            (\<lambda>(r, added). Inr
               (if added then \<lparr>root = Some r, size_n = size_n m + 1, nextSeq = nextSeq m + 1\<rparr>
                else \<lparr>root = Some r, size_n = size_n m, nextSeq = nextSeq m\<rparr>))
            (hamt_put (root m) e edit))"

definition mapPut where "mapPut H mk m k v = put_with None H mk m k v"

definition mapGet ::
  "(string \<Rightarrow> 64 word) \<Rightarrow> ('a \<Rightarrow> 'err + string) \<Rightarrow> ('a, 'v) mapItem \<Rightarrow> 'a
   \<Rightarrow> ('err + 'v option) option" where
  "mapGet H mk m k =
     (case mk k of
        Inl err \<Rightarrow> Some (Inl err)
      | Inr ck \<Rightarrow> map_option (\<lambda>r. Inr (map_option val r)) (hamt_get (root m) (H ck) ck))"

text \<open>\<open>next.(*hamtNode)\<close> with the failure ignored: anything but a node becomes nil.\<close>

definition as_node :: "'e hamtSlot option \<Rightarrow> 'e hamtNode option" where
  "as_node s = (case s of Some (SNode n) \<Rightarrow> Some n | _ \<Rightarrow> None)"

fun remove_loop ::
  "(string \<Rightarrow> 64 word) \<Rightarrow> ('a \<Rightarrow> 'err + string) \<Rightarrow> ('a, 'v) mapEntry hamtNode option \<Rightarrow> int
   \<Rightarrow> 'a list \<Rightarrow> ('err + ('a, 'v) mapEntry hamtNode option \<times> int) option" where
  "remove_loop H mk r n [] = Some (Inr (r, n))"
| "remove_loop H mk r n (k # ks) =
     (case mk k of
        Inl err \<Rightarrow> Some (Inl err)
      | Inr ck \<Rightarrow>
          (case r of
             None \<Rightarrow> remove_loop H mk r n ks
           | Some nd \<Rightarrow>
               Option.bind (hremove nd (H ck) 0 ck)
                 (\<lambda>(nxt, removed).
                    if \<not> removed then remove_loop H mk r n ks
                    else remove_loop H mk (as_node nxt) (n - 1) ks)))"

definition RemoveAll ::
  "(string \<Rightarrow> 64 word) \<Rightarrow> ('a \<Rightarrow> 'err + string) \<Rightarrow> ('a, 'v) mapItem \<Rightarrow> 'a list
   \<Rightarrow> ('err + ('a, 'v) mapItem) option" where
  "RemoveAll H mk m ks =
     map_option
       (\<lambda>res. case res of
          Inl err \<Rightarrow> Inl err
        | Inr (r, n) \<Rightarrow>
            if n = size_n m then Inr m
            else Inr \<lparr>root = r, size_n = n, nextSeq = nextSeq m\<rparr>)
       (remove_loop H mk (root m) (size_n m) ks)"

definition Remove where "Remove H mk m k = RemoveAll H mk m [k]"

definition mapLen :: "('a, 'v) mapItem \<Rightarrow> int" where
  "mapLen m = size_n m"

definition entries :: "('a, 'v) mapItem \<Rightarrow> ('a, 'v) mapEntry list" where
  "entries m = (case root m of None \<Rightarrow> [] | Some n \<Rightarrow> hwalk n)"

definition ordered :: "('a, 'v) mapItem \<Rightarrow> ('a, 'v) mapEntry list" where
  "ordered m = sort_key seq (entries m)"

definition Keys :: "('a, 'v) mapItem \<Rightarrow> 'a list" where
  "Keys m = map key (ordered m)"

text \<open>\<open>Entries\<close> calls \<open>f\<close> on each entry in order and stops at its first error.\<close>

fun entries_loop ::
  "('a \<Rightarrow> 'v \<Rightarrow> 's \<Rightarrow> ('err + 's) option) \<Rightarrow> ('a, 'v) mapEntry list \<Rightarrow> 's \<Rightarrow> ('err + 's) option" where
  "entries_loop f [] s = Some (Inr s)"
| "entries_loop f (e # es) s = bindO (f (key e) (val e) s) (entries_loop f es)"

definition Entries where "Entries m f s = entries_loop f (ordered m) s"

text \<open>
  The builder. Its edit token is a fresh allocation, modelled by a number; \<open>Build\<close> hands the
  map out and the builder is not used afterwards.
\<close>

record ('a, 'v) mapBuilder =
  bmap :: "('a, 'v) mapItem"
  bedit :: nat

definition NewMapBuilder :: "nat \<Rightarrow> ('a, 'v) mapBuilder" where
  "NewMapBuilder tok = \<lparr>bmap = NewMap, bedit = tok\<rparr>"

definition NewMapBuilderFrom :: "nat \<Rightarrow> ('a, 'v) mapItem \<Rightarrow> ('a, 'v) mapBuilder" where
  "NewMapBuilderFrom tok m =
     \<lparr>bmap = \<lparr>root = root m, size_n = size_n m, nextSeq = nextSeq m\<rparr>, bedit = tok\<rparr>"

definition builderSet ::
  "(string \<Rightarrow> 64 word) \<Rightarrow> ('a \<Rightarrow> 'err + string) \<Rightarrow> ('a, 'v) mapBuilder \<Rightarrow> 'a \<Rightarrow> 'v
   \<Rightarrow> ('err + ('a, 'v) mapBuilder) option" where
  "builderSet H mk b k v =
     map_option (map_sum id (\<lambda>m. b\<lparr>bmap := m\<rparr>)) (put_with (Some (bedit b)) H mk (bmap b) k v)"

definition builderLookup where "builderLookup H mk b k = mapGet H mk (bmap b) k"

definition Build :: "('a, 'v) mapBuilder \<Rightarrow> ('a, 'v) mapItem" where
  "Build b = bmap b"


subsection \<open>The abstraction\<close>

definition ekv :: "('a, 'v) mapEntry \<Rightarrow> string \<times> 'a \<times> 'v" where
  "ekv e = (ckey e, key e, val e)"

definition mabs :: "('a, 'v) mapItem \<Rightarrow> (string \<times> 'a \<times> 'v) list" where
  "mabs m = map ekv (ordered m)"

subsection \<open>The invariant\<close>

definition map_inv :: "(string \<Rightarrow> 64 word) \<Rightarrow> ('a, 'v) mapItem \<Rightarrow> bool" where
  "map_inv H m \<longleftrightarrow>
     (case root m of None \<Rightarrow> True | Some n \<Rightarrow> wf_node H [] n) \<and>
     size_n m = int (length (entries m)) \<and>
     inj_on seq (set (entries m)) \<and> (\<forall>x \<in> set (entries m). seq x < nextSeq m)"

lemma map_inv_distinct:
  assumes "map_inv H m"
  shows "distinct (map ckey (entries m))"
  using assms wf_distinct(1) [of H "[]"] by (auto simp: map_inv_def entries_def split: option.splits)

lemma map_inv_hash: "map_inv H m \<Longrightarrow> x \<in> set (entries m) \<Longrightarrow> hash x = H (ckey x)"
  using wf_slot_walk(1) [of H "[]"]
  by (auto simp: map_inv_def entries_def entry_ok_def split: option.splits)

lemma set_ordered [simp]: "set (ordered m) = set (entries m)"
  by (simp add: ordered_def)

lemma distinct_ordered: "map_inv H m \<Longrightarrow> distinct (map ckey (ordered m))"
  using map_inv_distinct [of H m]
  by (simp add: ordered_def distinct_map)

lemma map_inv_New [simp]: "map_inv H NewMap" "mabs NewMap = []"
  by (simp_all add: map_inv_def NewMap_def entries_def mabs_def ordered_def)

lemma set_mabs: "fst ` set (mabs m) = ckey ` set (entries m)"
  by (simp add: mabs_def ekv_def image_image)

lemma map_of_mabs:
  assumes "map_inv H m" "e \<in> set (entries m)"
  shows "map_of (mabs m) (ckey e) = Some (key e, val e)"
proof -
  have "distinct (map fst (mabs m))"
    using distinct_ordered [OF assms(1)] by (simp add: mabs_def ekv_def comp_def)
  moreover have "(ckey e, key e, val e) \<in> set (mabs m)"
    using assms(2) by (auto simp: mabs_def ekv_def image_iff)
  ultimately show ?thesis by (rule map_of_is_SomeI)
qed

subsection \<open>Lookup\<close>

lemma hamt_get_map:
  assumes "map_inv H m"
  shows "\<exists>r. hamt_get (root m) (H ck) ck = Some r \<and> finds (set (entries m)) ck r"
proof (cases "root m")
  case None
  then show ?thesis by (simp add: finds_def entries_def)
next
  case (Some n)
  with assms have "wf_node H [] n" by (simp add: map_inv_def)
  from hget_finds [OF this] Some show ?thesis by (simp add: entries_def)
qed

lemma mapGet_abs:
  assumes "map_inv H m" "mk k = Inr ck"
  shows "mapGet H mk m k = Some (Inr (map_option snd (map_of (mabs m) ck)))"
proof -
  obtain r where r: "hamt_get (root m) (H ck) ck = Some r" "finds (set (entries m)) ck r"
    using hamt_get_map [OF assms(1)] by blast
  have "map_option val r = map_option snd (map_of (mabs m) ck)"
  proof (cases r)
    case None
    with r(2) have "ck \<notin> fst ` set (mabs m)" by (auto simp: finds_def set_mabs)
    with None show ?thesis by (simp add: map_of_eq_None_iff)
  next
    case (Some e)
    with r(2) map_of_mabs [OF assms(1), of e] show ?thesis by (simp add: finds_def)
  qed
  with r(1) assms(2) show ?thesis by (simp add: mapGet_def)
qed


subsection \<open>Insertion\<close>

lemma hamt_put_spec:
  assumes "map_inv H m" "hash e = H (ckey e)" "hash_compat (set (entries m)) (hash e)"
  shows "\<exists>n' added. hamt_put (root m) e ed = Some (n', added) \<and> wf_node H [] n' \<and>
           put_rel (set (entries m)) e (set (hwalk n')) added"
proof (cases "root m")
  case None
  have "entry_ok H [hamtDigit (hash e) 0] e"
    using assms(2) take_Suc_digits [of 0 "hash e"] by (simp add: entry_ok_def)
  then have "wf_node H [] (HNode (hamtBit (hash e) 0) [SEntry e] ed)"
    by (simp add: wf_node_iff hamtBit_eq bitsOf_single)
  with None show ?thesis by (auto simp: entries_def put_rel_def intro: exI [of _ True])
next
  case (Some n)
  then have "wf_node H [] n" using assms(1) by (simp add: map_inv_def)
  moreover have "entry_ok H [] e" using assms(2) by (simp add: entry_ok_def)
  ultimately show ?thesis
    using hput_spec(1) [of e H 0 "[]" n ed] assms(2,3) Some by (simp add: entries_def)
qed

lemma distinct_entries: "map_inv H m \<Longrightarrow> distinct (entries m)"
  using map_inv_distinct [of H m] by (simp add: distinct_map)

lemma sorted_ordered: "sorted (map seq (ordered m))"
  by (simp add: ordered_def)

lemma ordered_put_new:
  assumes "map_inv H m" "wf_node H [] n'" "set (hwalk n') = insert e (set (entries m))"
    and "\<forall>x \<in> set (entries m). ckey x \<noteq> ckey e" "seq e = nextSeq m"
  shows "sort_key seq (hwalk n') = ordered m @ [e]"
    and "inj_on seq (insert e (set (entries m)))"
proof -
  have lt: "\<forall>x \<in> set (entries m). seq x < seq e" and inj: "inj_on seq (set (entries m))"
    using assms(1,5) by (auto simp: map_inv_def)
  show inj': "inj_on seq (insert e (set (entries m)))"
    using lt inj by (auto simp: inj_on_def)
  show "sort_key seq (hwalk n') = ordered m @ [e]"
  proof (rule sort_key_unique)
    show "distinct (hwalk n')" using wf_distinct(1) [OF assms(2)] by (simp add: distinct_map)
    show "distinct (ordered m @ [e])"
      using distinct_entries [OF assms(1)] assms(4) by (auto simp: ordered_def)
    show "sorted (map seq (ordered m @ [e]))"
      using sorted_ordered [of m] lt by (auto simp: sorted_append less_imp_le)
  qed (use assms(3) inj' in auto)
qed

lemma ordered_put_old:
  assumes "map_inv H m" "wf_node H [] n'" "x \<in> set (entries m)" "ckey x = ckey e"
    and "set (hwalk n') = insert (e\<lparr>seq := seq x\<rparr>) {y \<in> set (entries m). ckey y \<noteq> ckey e}"
  defines "upd \<equiv> \<lambda>y. if ckey y = ckey e then e\<lparr>seq := seq y\<rparr> else y"
  shows "sort_key seq (hwalk n') = map upd (ordered m)" "inj_on seq (set (hwalk n'))"
proof -
  have inj: "inj_on seq (set (entries m))" and ick: "inj_on ckey (set (entries m))"
    using assms(1) map_inv_distinct [OF assms(1)] by (auto simp: map_inv_def distinct_map)
  have sq [simp]: "seq (upd y) = seq y" for y by (simp add: upd_def)
  have set: "set (hwalk n') = upd ` set (entries m)"
    unfolding assms(5) using assms(3,4) ick
    by (auto simp: upd_def image_iff inj_on_def)
  have injh: "inj_on seq (upd ` set (entries m))"
    using inj by (auto simp: inj_on_def)
  have sqc: "map seq (map upd (ordered m)) = map seq (ordered m)" by simp
  show "inj_on seq (set (hwalk n'))" using injh set by simp
  show "sort_key seq (hwalk n') = map upd (ordered m)"
  proof (rule sort_key_unique)
    show "distinct (hwalk n')" using wf_distinct(1) [OF assms(2)] by (simp add: distinct_map)
    have "distinct (map seq (ordered m))"
      using inj distinct_entries [OF assms(1)] by (simp add: distinct_map ordered_def)
    then show "distinct (map upd (ordered m))" using sqc by (metis distinct_map)
    show "sorted (map seq (map upd (ordered m)))" unfolding sqc by (rule sorted_ordered)
  qed (use set injh in auto)
qed

lemma put_abs:
  assumes inv: "map_inv H m" and mk: "mk k = Inr ck" and cmp: "hash_compat (set (entries m)) (H ck)"
  shows "\<exists>m'. put_with ed H mk m k v = Some (Inr m') \<and> map_inv H m' \<and>
           mabs m' = al_put ck (k, v) (mabs m)"
proof -
  let ?e = "\<lparr>key = k, val = v, ckey = ck, hash = H ck, seq = nextSeq m\<rparr>"
  obtain n' added where n': "hamt_put (root m) ?e ed = Some (n', added)" "wf_node H [] n'"
    "put_rel (set (entries m)) ?e (set (hwalk n')) added"
    using hamt_put_spec [OF inv, of ?e ed] cmp by auto
  have len: "length (sort_key seq (hwalk n')) = length (hwalk n')" by simp
  show ?thesis
  proof (cases added)
    case True
    let ?m = "\<lparr>root = Some n', size_n = size_n m + 1, nextSeq = nextSeq m + 1\<rparr>"
    from n'(3) True have W: "set (hwalk n') = insert ?e (set (entries m))"
      "\<forall>x \<in> set (entries m). ckey x \<noteq> ckey ?e" by (auto simp: put_rel_def)
    note o = ordered_put_new [OF inv n'(2) W] 
    have ord: "ordered ?m = ordered m @ [?e]" using o(1) by (simp add: ordered_def entries_def)
    have "map_inv H ?m"
      using inv n'(2) W(1) o len by (auto simp: map_inv_def entries_def ordered_def less_Suc_eq)
    moreover have "mabs ?m = al_put ck (k, v) (mabs m)"
      using W(2) set_mabs [of m] unfolding mabs_def ord
      by (subst al_put_new) (auto simp: mabs_def ekv_def)
    ultimately show ?thesis using n'(1) mk True by (simp add: put_with_def)
  next
    case False
    let ?m = "\<lparr>root = Some n', size_n = size_n m, nextSeq = nextSeq m\<rparr>"
    from n'(3) False obtain x where x: "x \<in> set (entries m)" "ckey x = ckey ?e"
      "set (hwalk n') = insert (?e\<lparr>seq := seq x\<rparr>) {y \<in> set (entries m). ckey y \<noteq> ckey ?e}"
      by (auto simp: put_rel_def)
    note o = ordered_put_old [OF inv n'(2) x]
    have "map_inv H ?m"
      using inv n'(2) x o len
      by (auto simp: map_inv_def entries_def ordered_def)
    moreover have "mabs ?m = al_put ck (k, v) (mabs m)"
      using x distinct_ordered [OF inv] o(1) set_mabs [of m]
      by (subst al_put_old) (auto simp: mabs_def ordered_def entries_def ekv_def comp_def image_iff)
    ultimately show ?thesis using n'(1) mk False by (simp add: put_with_def)
  qed
qed


subsection \<open>Removal\<close>

lemma length_mabs: "map_inv H m \<Longrightarrow> int (length (mabs m)) = size_n m"
  by (simp add: mabs_def ordered_def map_inv_def)

lemma remove_step:
  assumes inv: "map_inv H m" and root: "root m = Some nd"
  shows "\<exists>nxt removed. hremove nd (H ck) 0 ck = Some (nxt, removed) \<and>
           (if removed then
              map_inv H \<lparr>root = as_node nxt, size_n = size_n m - 1, nextSeq = nextSeq m\<rparr> \<and>
              mabs \<lparr>root = as_node nxt, size_n = size_n m - 1, nextSeq = nextSeq m\<rparr>
                = al_remove {ck} (mabs m)
            else al_remove {ck} (mabs m) = mabs m)"
proof -
  have wf: "wf_node H [] nd" and ent: "entries m = hwalk nd"
    using inv root by (simp_all add: map_inv_def entries_def)
  have spec: "slot_rem_ok H [] (set (entries m)) ck (hremove nd (H ck) 0 ck) \<and>
     (\<forall>res ok. hremove nd (H ck) 0 ck = Some (res, ok) \<longrightarrow>
        (ok \<and> ([]::nat list) = [] \<longrightarrow> res = None \<or> (\<exists>m. res = Some (SNode m))))"
    using hremove_spec(1) [of "H ck" H ck 0 "[]" nd] wf ent by simp
  note ok = conjunct1 [OF spec]
  have nodes: "hremove nd (H ck) 0 ck = Some (res, True) \<Longrightarrow>
                 res = None \<or> (\<exists>n. res = Some (SNode n))" for res
    using conjunct2 [OF spec] by blast
  from ok obtain nxt removed where r: "hremove nd (H ck) 0 ck = Some (nxt, removed)"
    "removed \<longleftrightarrow> (\<exists>x \<in> set (entries m). ckey x = ck)"
    "removed \<Longrightarrow> (case nxt of None \<Rightarrow> \<forall>x \<in> set (entries m). ckey x = ck
       | Some s \<Rightarrow> wf_slot H [] s \<and> set (hwalk_slot s) = {x \<in> set (entries m). ckey x \<noteq> ck})"
    by (auto simp: slot_rem_ok_def)
  show ?thesis
  proof (cases removed)
    case False
    with r(2) have "al_remove {ck} (mabs m) = mabs m"
      by (auto simp: al_remove_def mabs_def ekv_def intro!: filter_True)
    with r(1) False show ?thesis by (intro exI [of _ nxt] exI [of _ False]) simp
  next
    case True
    let ?m = "\<lparr>root = as_node nxt, size_n = size_n m - 1, nextSeq = nextSeq m\<rparr>"
    have "set (entries ?m) = {x \<in> set (entries m). ckey x \<noteq> ck} \<and>
          (case root ?m of None \<Rightarrow> True | Some n \<Rightarrow> wf_node H [] n)"
    proof (cases nxt)
      case None
      with r(3) [OF True] show ?thesis by (simp add: entries_def as_node_def) blast
    next
      case (Some s)
      then obtain n where "s = SNode n" using nodes [of nxt] r(1) True by auto
      with r(3) [OF True] Some show ?thesis by (simp add: entries_def as_node_def)
    qed
    then have W: "set (entries ?m) = {x \<in> set (entries m). ckey x \<noteq> ck}"
      and wf': "case root ?m of None \<Rightarrow> True | Some n \<Rightarrow> wf_node H [] n" by simp_all
    have dist: "distinct (entries ?m)"
      using wf' wf_distinct(1) [of H "[]"]
      by (auto simp: entries_def distinct_map split: option.splits)
    have inj: "inj_on seq (set (entries m))" using inv by (simp add: map_inv_def)
    have ord: "ordered ?m = filter (\<lambda>e. ckey e \<noteq> ck) (ordered m)"
      unfolding ordered_def [of ?m]
    proof (rule sort_key_unique)
      show "distinct (filter (\<lambda>e. ckey e \<noteq> ck) (ordered m))"
        using distinct_entries [OF inv] by (simp add: ordered_def)
      show "sorted (map seq (filter (\<lambda>e. ckey e \<noteq> ck) (ordered m)))"
        using sorted_ordered by (rule sorted_filter)
    qed (use dist W inj in \<open>auto intro: inj_on_subset\<close>)
    have lens: "length (entries ?m) = length (ordered ?m)" "length (entries m) = length (ordered m)"
      by (simp_all add: ordered_def)
    have "ck \<in> ckey ` set (ordered m)" using r(2) True by (auto simp: image_iff)
    from length_filter_key [OF distinct_ordered [OF inv] this]
    have "Suc (length (entries ?m)) = length (entries m)" unfolding lens ord .
    then have "map_inv H ?m"
      using inv wf' W inj_on_subset [OF inj, of "set (entries ?m)"]
      by (auto simp: map_inv_def)
    moreover have "mabs ?m = al_remove {ck} (mabs m)"
      by (simp add: mabs_def ord al_remove_def filter_map comp_def ekv_def)
    ultimately show ?thesis using r(1) True by (intro exI [of _ nxt] exI [of _ True]) simp
  qed
qed

lemma remove_loop_abs:
  assumes "map_inv H m" "\<And>k. k \<in> set ks \<Longrightarrow> mk k = Inr (ck k)"
  shows "\<exists>r n. remove_loop H mk (root m) (size_n m) ks = Some (Inr (r, n)) \<and>
           map_inv H \<lparr>root = r, size_n = n, nextSeq = nextSeq m\<rparr> \<and>
           mabs \<lparr>root = r, size_n = n, nextSeq = nextSeq m\<rparr> = al_remove (ck ` set ks) (mabs m)"
  using assms
proof (induction ks arbitrary: m)
  case Nil
  then show ?case by (cases m) simp
next
  case (Cons k ks)
  have mk: "mk k = Inr (ck k)" and mks: "\<And>k. k \<in> set ks \<Longrightarrow> mk k = Inr (ck k)"
    using Cons.prems(2) by auto
  show ?case
  proof (cases "root m")
    case None
    then have "al_remove {ck k} (mabs m) = mabs m"
      by (simp add: mabs_def ordered_def entries_def al_remove_def)
    with Cons.IH [of m, OF Cons.prems(1) mks] None mk show ?thesis
      by (simp add: al_remove_insert [of "ck k" "ck ` set ks"])
  next
    case (Some nd)
    obtain nxt removed where st: "hremove nd (H (ck k)) 0 (ck k) = Some (nxt, removed)"
      "if removed then
         map_inv H \<lparr>root = as_node nxt, size_n = size_n m - 1, nextSeq = nextSeq m\<rparr> \<and>
         mabs \<lparr>root = as_node nxt, size_n = size_n m - 1, nextSeq = nextSeq m\<rparr>
           = al_remove {ck k} (mabs m)
       else al_remove {ck k} (mabs m) = mabs m"
      using remove_step [OF Cons.prems(1) Some] by blast
    show ?thesis
    proof (cases removed)
      case False
      with st Cons.IH [of m, OF Cons.prems(1) mks] Some mk show ?thesis
        by (simp add: al_remove_insert [of "ck k" "ck ` set ks"])
    next
      case True
      let ?m = "\<lparr>root = as_node nxt, size_n = size_n m - 1, nextSeq = nextSeq m\<rparr>"
      have "map_inv H ?m" and ab: "mabs ?m = al_remove {ck k} (mabs m)"
        using st(2) True by simp_all
      from Cons.IH [OF this(1) mks]
      obtain r n where "remove_loop H mk (as_node nxt) (size_n m - 1) ks = Some (Inr (r, n))"
        "map_inv H \<lparr>root = r, size_n = n, nextSeq = nextSeq m\<rparr>"
        "mabs \<lparr>root = r, size_n = n, nextSeq = nextSeq m\<rparr> = al_remove (ck ` set ks) (mabs ?m)"
        by auto
      then show ?thesis unfolding ab
        by (intro exI [of _ r] exI [of _ n])
          (simp add: Some mk st(1) True al_remove_insert [of "ck k" "ck ` set ks"])
    qed
  qed
qed

lemma RemoveAll_abs:
  assumes "map_inv H m" "\<And>k. k \<in> set ks \<Longrightarrow> mk k = Inr (ck k)"
  shows "\<exists>m'. RemoveAll H mk m ks = Some (Inr m') \<and> map_inv H m' \<and>
           mabs m' = al_remove (ck ` set ks) (mabs m)"
proof -
  obtain r n where rn: "remove_loop H mk (root m) (size_n m) ks = Some (Inr (r, n))"
    "map_inv H \<lparr>root = r, size_n = n, nextSeq = nextSeq m\<rparr>"
    "mabs \<lparr>root = r, size_n = n, nextSeq = nextSeq m\<rparr> = al_remove (ck ` set ks) (mabs m)"
    using remove_loop_abs [of H m ks mk ck] assms by blast
  show ?thesis
  proof (cases "n = size_n m")
    case True
    have "length (al_remove (ck ` set ks) (mabs m)) = length (mabs m)"
      using length_mabs [OF assms(1)] length_mabs [OF rn(2)] rn(3) True by simp
    then have "al_remove (ck ` set ks) (mabs m) = mabs m"
      unfolding al_remove_def by (rule filter_same_length)
    with rn True assms(1) show ?thesis by (auto simp: RemoveAll_def)
  next
    case False
    with rn show ?thesis by (auto simp: RemoveAll_def)
  qed
qed


subsection \<open>The contract, provided\<close>

text \<open>
  Two keys of one set may share their twelve trie digits only if they share the whole
  hash. The trie reads 60 of the 64 bits, and its collision nodes rely on this.
\<close>

definition hash_ok :: "(string \<Rightarrow> 64 word) \<Rightarrow> string set \<Rightarrow> bool" where
  "hash_ok H K \<longleftrightarrow> (\<forall>c \<in> K. \<forall>c' \<in> K. digits (H c) = digits (H c') \<longrightarrow> H c = H c')"

lemma hash_ok_compat:
  assumes "map_inv H m" "hash_ok H (insert c (fst ` set (mabs m)))"
  shows "hash_compat (set (entries m)) (H c)"
  using assms map_inv_hash [OF assms(1)]
  by (auto simp: hash_compat_def hash_ok_def set_mabs)

lemma hash_ok_mono: "hash_ok H K \<Longrightarrow> K' \<subseteq> K \<Longrightarrow> hash_ok H K'"
  by (auto simp: hash_ok_def)

interpretation pm: ordered_map "mapGet H mk" "mapPut H mk" "map_inv H" mabs mk "hash_ok H"
  for H mk
proof unfold_locales
  fix m :: "('a, 'b list) mapItem" and k c and v :: "'b list"
  assume "map_inv H m" "mk k = Inr c"
  then show "mapGet H mk m k = Some (Inr (map_option snd (map_of (mabs m) c)))"
    by (rule mapGet_abs)
  assume "hash_ok H (insert c (fst ` set (mabs m)))"
  then show "\<exists>b'. mapPut H mk m k v = Some (Inr b') \<and> map_inv H b' \<and> mabs b' = al_put c (k, v) (mabs m)"
    unfolding mapPut_def
    using put_abs [where H = H and m = m and mk = mk and k = k and ck = c and v = v]
      hash_ok_compat [of H m c] \<open>map_inv H m\<close> \<open>mk k = Inr c\<close> by simp
qed (rule hash_ok_mono)

interpretation bm: ordered_map "builderLookup H mk" "builderSet H mk" "\<lambda>b. map_inv H (bmap b)"
    "\<lambda>b. mabs (bmap b)" mk "hash_ok H" for H mk
proof unfold_locales
  fix b :: "('a, 'b list) mapBuilder" and k c and v :: "'b list"
  assume "map_inv H (bmap b)" "mk k = Inr c"
  then show "builderLookup H mk b k = Some (Inr (map_option snd (map_of (mabs (bmap b)) c)))"
    unfolding builderLookup_def by (rule mapGet_abs)
  assume "hash_ok H (insert c (fst ` set (mabs (bmap b))))"
  then show "\<exists>b'. builderSet H mk b k v = Some (Inr b') \<and> map_inv H (bmap b') \<and>
      mabs (bmap b') = al_put c (k, v) (mabs (bmap b))"
    using put_abs [where H = H and m = "bmap b" and mk = mk and k = k and ck = c and v = v
        and ed = "Some (bedit b)"] hash_ok_compat [of H "bmap b" c]
      \<open>map_inv H (bmap b)\<close> \<open>mk k = Inr c\<close>
    by (auto simp: builderSet_def)
qed (rule hash_ok_mono)

subsection \<open>What callers rely on\<close>

text \<open>C1: \<open>Put\<close> never panics on a well-formed map and refines the ordered association list: the
  new map is well formed, a replaced key keeps its place and a new one goes to the end, and
  \<open>Get\<close> on the new map answers the new value for every spelling of the key and what the old map
  answered for every other key.\<close>

theorem mapPut_refines:
  assumes "map_inv H m" "mk k = Inr c" "hash_ok H (insert c (fst ` set (mabs m)))"
  shows "\<exists>m'. mapPut H mk m k v = Some (Inr m') \<and> map_inv H m' \<and>
      mabs m' = al_put c (k, v) (mabs m) \<and>
      (\<forall>k' c'. mk k' = Inr c' \<longrightarrow>
         mapGet H mk m' k' = (if c' = c then Some (Inr (Some v)) else mapGet H mk m k'))"
proof -
  obtain m' where m': "mapPut H mk m k v = Some (Inr m')" "map_inv H m'"
    "mabs m' = al_put c (k, v) (mabs m)"
    using put_abs [where H = H and m = m and mk = mk and k = k and ck = c and v = v and ed = None]
      hash_ok_compat [OF assms(1,3)] assms(1,2) by (auto simp: mapPut_def)
  moreover have "mapGet H mk m' k' = (if c' = c then Some (Inr (Some v)) else mapGet H mk m k')"
    if "mk k' = Inr c'" for k' c'
    using mapGet_abs [where H = H and m = m' and mk = mk, OF m'(2) that]
      mapGet_abs [where H = H and m = m and mk = mk, OF assms(1) that]
    by (simp add: m'(3) map_of_al_put)
  ultimately show ?thesis by blast
qed

text \<open>A map of two keys that share every digit and the whole hash, so they sit in a collision
  node at the bottom of the trie.\<close>

definition twoKeys :: "(string, nat list) mapItem" where
  "twoKeys = (case mapPut (\<lambda>_. 7) (\<lambda>k. Inr k :: string + string) NewMap ''a'' [10] of
     Some (Inr m) \<Rightarrow> (case mapPut (\<lambda>_. 7) (\<lambda>k. Inr k :: string + string) m ''b'' [20] of
        Some (Inr m') \<Rightarrow> m' | _ \<Rightarrow> m) | _ \<Rightarrow> NewMap)"

lemma twoKeys_inv: "map_inv (\<lambda>_. 7) twoKeys \<and> mabs twoKeys = [(''a'', ''a'', [10]), (''b'', ''b'', [20])]"
proof -
  let ?H = "\<lambda>_. 7 :: 64 word" and ?mk = "\<lambda>k. Inr k :: string + string"
  have ok: "hash_ok ?H K" for K by (simp add: hash_ok_def)
  obtain m1 where m1: "mapPut ?H ?mk NewMap ''a'' [10] = Some (Inr m1)" "map_inv ?H m1"
      "mabs m1 = [(''a'', ''a'', [10::nat])]"
    using pm.ins_abs [of ?H "NewMap" ?mk "''a''" "''a''" "[10::nat]"] ok by auto
  obtain m2 where m2: "mapPut ?H ?mk m1 ''b'' [20] = Some (Inr m2)" "map_inv ?H m2"
      "mabs m2 = [(''a'', ''a'', [10]), (''b'', ''b'', [20])]"
    using pm.ins_abs [of ?H m1 ?mk "''b''" "''b''" "[20::nat]"] ok m1 by auto
  show ?thesis using m1(1) m2 by (simp add: twoKeys_def)
qed

theorem mapPut_refines_witness:
  "\<exists>m'. mapPut (\<lambda>_. 7) (\<lambda>k. Inr k :: string + string) twoKeys ''a'' [30] = Some (Inr m') \<and>
     mabs m' = [(''a'', ''a'', [30]), (''b'', ''b'', [20])] \<and>
     mapGet (\<lambda>_. 7) (\<lambda>k. Inr k :: string + string) m' ''a'' = Some (Inr (Some [30]))"
  using mapPut_refines [of "\<lambda>_. 7" twoKeys "\<lambda>k. Inr k :: string + string" "''a''" "''a''" "[30]"]
    twoKeys_inv by (auto simp: hash_ok_def)

text \<open>C2: \<open>RemoveAll\<close> never panics on a well-formed map; it removes exactly the named keys, keeps
  the order and the values of the others, ignores absent keys, and its result is well formed.\<close>

theorem RemoveAll_refines:
  assumes "map_inv H m" "\<forall>k \<in> set ks. mk k = Inr (cf k)"
  shows "\<exists>m'. RemoveAll H mk m ks = Some (Inr m') \<and> map_inv H m' \<and>
      mabs m' = al_remove (cf ` set ks) (mabs m) \<and>
      mapLen m' = int (length (al_remove (cf ` set ks) (mabs m))) \<and>
      (\<forall>k' c'. mk k' = Inr c' \<longrightarrow> mapGet H mk m' k' =
         (if c' \<in> cf ` set ks then Some (Inr None) else mapGet H mk m k'))"
proof -
  obtain m' where m': "RemoveAll H mk m ks = Some (Inr m')" "map_inv H m'"
    "mabs m' = al_remove (cf ` set ks) (mabs m)"
    using RemoveAll_abs [where H = H and m = m and mk = mk and ks = ks and ck = cf] assms by blast
  moreover have "mapGet H mk m' k' =
      (if c' \<in> cf ` set ks then Some (Inr None) else mapGet H mk m k')" if "mk k' = Inr c'" for k' c'
    using mapGet_abs [where H = H and m = m' and mk = mk, OF m'(2) that]
      mapGet_abs [where H = H and m = m and mk = mk, OF assms(1) that]
    by (simp add: m'(3) map_of_al_remove)
  moreover have "mapLen m' = int (length (mabs m'))"
    using length_mabs [OF m'(2)] by (simp add: mapLen_def)
  ultimately show ?thesis by auto
qed

theorem RemoveAll_refines_witness:
  "\<exists>m'. RemoveAll (\<lambda>_. 7) (\<lambda>k. Inr k :: string + string) twoKeys [''a'', ''zz''] = Some (Inr m') \<and>
     mabs m' = [(''b'', ''b'', [20])] \<and> mapLen m' = 1"
  using RemoveAll_refines [of "\<lambda>_. 7" twoKeys "[''a'', ''zz'']" "\<lambda>k. Inr k :: string + string" id]
    twoKeys_inv by (auto simp: al_remove_def)

subsection \<open>A key stored twice\<close>




end
