(* ===== verification/MapFuncs.thy ===== *)
theory MapFuncs
  imports MapItem
begin

text \<open>
  The map functions of \<open>xpath/fn_map.go\<close>: argument checking, \<open>map:get\<close>, \<open>map:contains\<close>,
  \<open>map:size\<close>, \<open>map:keys\<close>, \<open>map:put\<close>, \<open>map:entry\<close> and \<open>map:merge\<close> with its duplicates policies.
  An item is abstract, and \<open>viewof\<close> is the code's type switch on it; atomization
  (\<open>xdm.AtomizeChecked\<close>) and the coercion to a string (\<open>argString\<close>) are parameters, since
  they belong to the rest of the data model. An error is its code.
\<close>

subsection \<open>Items and arguments\<close>

datatype ('a, 'i) itemView =
    VMap "('a, 'i list) mapItem"
  | VAtomic 'a
  | VOther

definition argMap :: "('i \<Rightarrow> ('a, 'i) itemView) \<Rightarrow> 'i list list \<Rightarrow> nat \<Rightarrow> string + ('a, 'i list) mapItem" where
  "argMap viewof args i =
     (if i \<ge> length args \<or> length (args ! i) \<noteq> 1 then Inl ''XPTY0004''
      else case viewof (args ! i ! 0) of
             VMap m \<Rightarrow> Inr m
           | _ \<Rightarrow> Inl ''XPTY0004'')"

definition argMapKey ::
  "('i \<Rightarrow> ('a, 'i) itemView) \<Rightarrow> ('i list \<Rightarrow> string + 'i list) \<Rightarrow> 'i list list \<Rightarrow> nat \<Rightarrow> string + 'a" where
  "argMapKey viewof atomize args i =
     (if i \<ge> length args then Inl ''XPTY0004''
      else bindE (atomize (args ! i)) (\<lambda>atoms.
        if length atoms \<noteq> 1 then Inl ''XPTY0004''
        else case viewof (atoms ! 0) of
               VAtomic a \<Rightarrow> Inr a
             | _ \<Rightarrow> Inl ''XPTY0004''))"

subsection \<open>The simple functions\<close>

definition fnGet where
  "fnGet H mk viewof atomize args =
     bindO (Some (argMap viewof args 0)) (\<lambda>m.
     bindO (Some (argMapKey viewof atomize args 1)) (\<lambda>key.
     bindO (mapGet H mk m key) (\<lambda>r. Some (Inr (case r of None \<Rightarrow> [] | Some v \<Rightarrow> v)))))"

definition fnContains where
  "fnContains H mk viewof atomize args =
     bindO (Some (argMap viewof args 0)) (\<lambda>m.
     bindO (Some (argMapKey viewof atomize args 1)) (\<lambda>key.
     bindO (mapGet H mk m key) (\<lambda>r. Some (Inr (r \<noteq> None)))))"

definition fnSize :: "('i \<Rightarrow> ('a, 'i) itemView) \<Rightarrow> 'i list list \<Rightarrow> string + int" where
  "fnSize viewof args = bindE (argMap viewof args 0) (\<lambda>m. Inr (mapLen m))"

definition fnKeys :: "('i \<Rightarrow> ('a, 'i) itemView) \<Rightarrow> 'i list list \<Rightarrow> string + 'a list" where
  "fnKeys viewof args = bindE (argMap viewof args 0) (\<lambda>m. Inr (Keys m))"

definition fnPut where
  "fnPut H mk viewof atomize args =
     bindO (Some (argMap viewof args 0)) (\<lambda>m.
     bindO (Some (argMapKey viewof atomize args 1)) (\<lambda>key.
     mapPut H mk m key (args ! 2)))"

definition fnEntry where
  "fnEntry H mk viewof atomize args =
     bindO (Some (argMapKey viewof atomize args 0)) (\<lambda>key.
     mapPut H mk NewMap key (args ! 1))"

subsection \<open>map:merge\<close>

definition policyOf :: "string \<Rightarrow> string + mergePolicy" where
  "policyOf s =
     (if s = ''use-first'' then Inr UseFirst
      else if s = ''use-last'' then Inr UseLast
      else if s = ''use-any'' then Inr UseAny
      else if s = ''combine'' then Inr Combine
      else if s = ''reject'' then Inr Reject
      else Inl ''FOJS0005'')"

definition mergePolicyArg where
  "mergePolicyArg H mk viewof argString dup args =
     (if length args > 1 then
        bindO (Some (argMap viewof args 1)) (\<lambda>opts.
        bindO (mapGet H mk opts dup) (\<lambda>r.
          case r of
            None \<Rightarrow> Some (Inr UseFirst)
          | Some v \<Rightarrow> Some (bindE (argString v) policyOf)))
      else Some (Inr UseFirst))"

fun mergeMaps ::
  "(string \<Rightarrow> 64 word) \<Rightarrow> ('a \<Rightarrow> string + string) \<Rightarrow> ('i \<Rightarrow> ('a, 'i) itemView) \<Rightarrow> mergePolicy
   \<Rightarrow> 'i list \<Rightarrow> ('a, 'i list) mapBuilder \<Rightarrow> (string + ('a, 'i list) mapBuilder) option" where
  "mergeMaps H mk viewof policy [] b = Some (Inr b)"
| "mergeMaps H mk viewof policy (it # its) b =
     (case viewof it of
        VMap m \<Rightarrow>
          bindO (Entries m (mergeEntry (builderLookup H mk) (builderSet H mk) policy) b)
            (mergeMaps H mk viewof policy its)
      | _ \<Rightarrow> Some (Inl ''XPTY0004''))"

text \<open>\<open>dup\<close> is the key \<open>xdm.NewString("duplicates")\<close> and \<open>tok\<close> the builder's fresh token.\<close>

definition mapMerge where
  "mapMerge H mk viewof argString dup tok args =
     bindO (mergePolicyArg H mk viewof argString dup args) (\<lambda>policy.
     bindO (mergeMaps H mk viewof policy (args ! 0) (NewMapBuilder tok)) (\<lambda>b.
     Some (Inr (Build b))))"

subsection \<open>The merge as one run over all entries\<close>

fun merge_run where
  "merge_run H mk policy [] b = Some (Inr b)"
| "merge_run H mk policy ((k, v) # kvs) b =
     bindO (mergeEntry (builderLookup H mk) (builderSet H mk) policy k v b) (merge_run H mk policy kvs)"

lemma merge_run_append:
  "merge_run H mk policy (xs @ ys) b = bindO (merge_run H mk policy xs b) (merge_run H mk policy ys)"
  by (induction H mk policy xs b rule: merge_run.induct) (simp_all add: bindO_assoc cong: bindO_cong)

lemma entries_loop_run:
  "entries_loop (mergeEntry (builderLookup H mk) (builderSet H mk) policy) es b
   = merge_run H mk policy (map (\<lambda>e. (key e, val e)) es) b"
proof (induction es arbitrary: b)
  case (Cons e es)
  then have "entries_loop (mergeEntry (builderLookup H mk) (builderSet H mk) policy) es
    = merge_run H mk policy (map (\<lambda>e. (key e, val e)) es)" by blast
  then show ?case by simp
qed simp

lemma map_snd_mabs: "map snd (mabs m) = map (\<lambda>e. (key e, val e)) (ordered m)"
  by (simp add: mabs_def ekv_def comp_def)

lemma mergeMaps_run:
  assumes "\<forall>it \<in> set its. viewof it = VMap (mapof it)"
  shows "mergeMaps H mk viewof policy its b
    = merge_run H mk policy (concat (map (\<lambda>it. map snd (mabs (mapof it))) its)) b"
  using assms
proof (induction its arbitrary: b)
  case (Cons it its)
  then have "mergeMaps H mk viewof policy its
    = merge_run H mk policy (concat (map (\<lambda>it. map snd (mabs (mapof it))) its))" by auto
  with Cons.prems show ?case
    by (simp add: merge_run_append Entries_def entries_loop_run map_snd_mabs cong: bindO_cong)
qed simp

text \<open>An input map whose entries carry the canonical form of their own keys.\<close>

definition keyed :: "('a \<Rightarrow> string + string) \<Rightarrow> ('a, 'v) mapItem \<Rightarrow> bool" where
  "keyed mk m \<longleftrightarrow> (\<forall>(c, k, v) \<in> set (mabs m). mk k = Inr c)"

definition all_entries :: "('i \<Rightarrow> ('a, 'i list) mapItem) \<Rightarrow> 'i list \<Rightarrow> (string \<times> 'a \<times> 'i list) list" where
  "all_entries mapof its = concat (map (\<lambda>it. mabs (mapof it)) its)"

lemma all_entries_canon:
  assumes "\<forall>it \<in> set its. keyed mk (mapof it)"
  shows "map (\<lambda>(k, v). (projr (mk k), k, v)) (map snd (all_entries mapof its)) = all_entries mapof its"
  unfolding all_entries_def using assms
proof (induction its)
  case (Cons it its)
  then have "map (\<lambda>(k, v). (projr (mk k), k, v)) (map snd (mabs (mapof it))) = mabs (mapof it)"
    by (auto simp: keyed_def intro!: map_idI)
  with Cons show ?case by simp
qed simp

lemma mergeMaps_abs:
  assumes "\<forall>it \<in> set its. viewof it = VMap (mapof it) \<and> keyed mk (mapof it)"
    and "hash_ok H (fst ` set (all_entries mapof its))"
  shows "case al_merges policy (all_entries mapof its) [] of
      Inl e \<Rightarrow> mergeMaps H mk viewof policy its (NewMapBuilder tok) = Some (Inl e)
    | Inr xs \<Rightarrow> \<exists>b. mergeMaps H mk viewof policy its (NewMapBuilder tok) = Some (Inr b) \<and>
        map_inv H (bmap b) \<and> mabs (bmap b) = xs"
proof -
  let ?kvs = "map snd (all_entries mapof its)" and ?b = "NewMapBuilder tok"
  have can: "mk k = Inr (projr (mk k))" if "(k, v) \<in> set ?kvs" for k v
    using assms(1) that by (auto simp: all_entries_def keyed_def) fastforce
  have keys: "(\<lambda>k. projr (mk k)) ` fst ` set ?kvs = fst ` set (all_entries mapof its)"
    using arg_cong [OF all_entries_canon [of its mk mapof], of "\<lambda>xs. fst ` set xs"] assms(1)
    by (auto simp: image_image case_prod_beta)
  have nb: "map_inv H (bmap ?b)" "mabs (bmap ?b) = []" by (simp_all add: NewMapBuilder_def)
  have "hash_ok H (fst ` set (mabs (bmap ?b)) \<union> (\<lambda>k. projr (mk k)) ` fst ` set ?kvs)"
    unfolding keys nb(2) using assms(2) by simp
  note run = bm.merge_run [where run = "merge_run H mk policy" and b = ?b and kvs = ?kvs
      and cf = "\<lambda>k. projr (mk k)" and policy = policy and H = H and mk = mk,
      OF nb(1) can this merge_run.simps(2) merge_run.simps(1)]
  have c1: "mergeMaps H mk viewof policy its ?b = merge_run H mk policy ?kvs ?b"
    using mergeMaps_run [of its viewof mapof H mk policy ?b] assms(1)
    by (simp add: all_entries_def map_concat comp_def)
  have c2: "map (\<lambda>(k, v). (projr (mk k), k, v)) ?kvs = all_entries mapof its"
    using assms(1) by (intro all_entries_canon) auto
  show ?thesis using run by (simp only: c1 c2 nb(2))
qed

subsection \<open>What map:merge computes\<close>

lemma mapMerge_abs:
  assumes "mergePolicyArg H mk viewof argString dup args = Some (Inr policy)"
    and "\<forall>it \<in> set (args ! 0). viewof it = VMap (mapof it) \<and> keyed mk (mapof it)"
    and "hash_ok H (fst ` set (all_entries mapof (args ! 0)))"
  shows "case al_merges policy (all_entries mapof (args ! 0)) [] of
      Inl e \<Rightarrow> mapMerge H mk viewof argString dup tok args = Some (Inl e)
    | Inr xs \<Rightarrow> \<exists>m. mapMerge H mk viewof argString dup tok args = Some (Inr m) \<and>
        map_inv H m \<and> mabs m = xs"
  using mergeMaps_abs [OF assms(2,3), of policy tok] assms(1)
  by (auto simp: mapMerge_def Build_def split: sum.splits)

text \<open>C3: \<open>map:merge\<close> under \<open>use-first\<close>, \<open>use-any\<close> and \<open>use-last\<close> always succeeds; its answer holds
  each key once, in the order of the keys' first occurrence, with the value of the first
  (\<open>use-first\<close>, \<open>use-any\<close>) or the last (\<open>use-last\<close>) input entry for it.\<close>

theorem mapMerge_use:
  assumes "mergePolicyArg H mk viewof argString dup args = Some (Inr policy)"
    and "policy \<in> {UseFirst, UseAny, UseLast}"
    and "\<forall>it \<in> set (args ! 0). viewof it = VMap (mapof it) \<and> keyed mk (mapof it)"
    and "hash_ok H (fst ` set (all_entries mapof (args ! 0)))"
  shows "\<exists>m. mapMerge H mk viewof argString dup tok args = Some (Inr m) \<and> map_inv H m \<and>
      map fst (mabs m) = add_keys [] (map fst (all_entries mapof (args ! 0))) \<and>
      (\<forall>c. map_of (mabs m) c =
         (if policy = UseLast then map_of (rev (all_entries mapof (args ! 0))) c
          else map_of (all_entries mapof (args ! 0)) c))"
proof -
  obtain xs where xs: "al_merges policy (all_entries mapof (args ! 0)) [] = Inr xs"
    using al_merges_total [of policy "all_entries mapof (args ! 0)" "[]"] assms(2) by auto
  obtain m where m: "mapMerge H mk viewof argString dup tok args = Some (Inr m)"
      "map_inv H m" "mabs m = xs"
    using mapMerge_abs [OF assms(1,3,4), of tok] xs by auto
  have "map_of xs c = (if policy = UseLast then map_of (rev (all_entries mapof (args ! 0))) c
          else map_of (all_entries mapof (args ! 0)) c)" for c
    using al_merges_last [of _ "[]" xs c] al_merges_first [of policy _ "[]" xs c] xs assms(2) by auto
  moreover have "map fst xs = add_keys [] (map fst (all_entries mapof (args ! 0)))"
    using al_merges_keys [OF xs] by simp
  ultimately show ?thesis using m by blast
qed

text \<open>C4: \<open>map:merge\<close> under \<open>combine\<close> always succeeds and maps each key to the concatenation, in input
  order, of every value the inputs hold under it; under \<open>reject\<close> it succeeds exactly when no
  key occurs twice, and then the answer is the inputs' entries in order, and it fails with
  FOJS0003 otherwise.\<close>

theorem mapMerge_combine_reject:
  assumes "mergePolicyArg H mk viewof argString dup args = Some (Inr policy)"
    and "policy \<in> {Combine, Reject}"
    and "\<forall>it \<in> set (args ! 0). viewof it = VMap (mapof it) \<and> keyed mk (mapof it)"
    and "hash_ok H (fst ` set (all_entries mapof (args ! 0)))"
  shows "if policy = Reject \<and> \<not> distinct (map fst (all_entries mapof (args ! 0)))
    then mapMerge H mk viewof argString dup tok args = Some (Inl ''FOJS0003'')
    else \<exists>m. mapMerge H mk viewof argString dup tok args = Some (Inr m) \<and> map_inv H m \<and>
        map fst (mabs m) = add_keys [] (map fst (all_entries mapof (args ! 0))) \<and>
        (if policy = Reject then mabs m = all_entries mapof (args ! 0)
         else \<forall>c \<in> fst ` set (all_entries mapof (args ! 0)).
           map_option snd (map_of (mabs m) c) = Some (vals_of c (all_entries mapof (args ! 0))))"
proof (cases "policy = Combine")
  case True
  obtain xs where xs: "al_merges Combine (all_entries mapof (args ! 0)) [] = Inr xs"
    using al_merges_total [of Combine "all_entries mapof (args ! 0)" "[]"] by auto
  obtain m where m: "mapMerge H mk viewof argString dup tok args = Some (Inr m)"
      "map_inv H m" "mabs m = xs"
    using mapMerge_abs [OF assms(1,3,4), of tok] xs True by auto
  have "map_option snd (map_of xs c) = Some (vals_of c (all_entries mapof (args ! 0)))"
    if "c \<in> fst ` set (all_entries mapof (args ! 0))" for c
    using that by (subst al_merges_combine [OF xs]) simp
  with m al_merges_keys [OF xs] True show ?thesis by auto
next
  case False
  with assms(2) have p: "policy = Reject" by simp
  note ab = mapMerge_abs [OF assms(1,3,4), of tok, unfolded p al_merges_reject]
  show ?thesis
  proof (cases "distinct (map fst (all_entries mapof (args ! 0)))")
    case True
    then have "al_merges Reject (all_entries mapof (args ! 0)) [] = Inr (all_entries mapof (args ! 0))"
      by (simp add: al_merges_reject)
    from al_merges_keys [OF this] ab True show ?thesis by (auto simp: p)
  next
    case False
    with ab show ?thesis by (simp add: p)
  qed
qed

subsection \<open>Witnesses\<close>

text \<open>Items are numbers; 3 and 4 stand for two maps.\<close>

definition wview :: "nat \<Rightarrow> (string, nat) itemView" where
  "wview i = (if i = 3 then VMap twoKeys else if i = 4 then VMap (twoKeys\<lparr>nextSeq := 5\<rparr>) else VOther)"

definition wmap :: "nat \<Rightarrow> (string, nat list) mapItem" where
  "wmap i = (if i = 3 then twoKeys else twoKeys\<lparr>nextSeq := 5\<rparr>)"

lemma wmap_mabs: "mabs (twoKeys\<lparr>nextSeq := 5\<rparr>) = mabs twoKeys"
  by (simp add: mabs_def ordered_def entries_def)

lemma wmap_entries:
  "all_entries wmap [3, 4] = [(''a'', ''a'', [10]), (''b'', ''b'', [20]), (''a'', ''a'', [10]), (''b'', ''b'', [20])]"
  using twoKeys_inv wmap_mabs by (simp add: all_entries_def wmap_def)

lemma wmap_ok:
  "\<forall>it \<in> {3, 4}. wview it = VMap (wmap it) \<and> keyed (\<lambda>k. Inr k :: string + string) (wmap it)"
  using twoKeys_inv wmap_mabs by (simp add: wview_def wmap_def keyed_def)

theorem mapMerge_use_witness:
  "\<exists>m. mapMerge (\<lambda>_. 7) (\<lambda>k. Inr k :: string + string) wview (\<lambda>_. Inr []) ''duplicates'' 1 [[3, 4]]
       = Some (Inr m) \<and> map fst (mabs m) = [''a'', ''b''] \<and> map_of (mabs m) ''b'' = Some (''b'', [20])"
proof -
  have "\<exists>m. mapMerge (\<lambda>_. 7) (\<lambda>k. Inr k :: string + string) wview (\<lambda>_. Inr []) ''duplicates'' 1 [[3, 4]]
       = Some (Inr m) \<and> map_inv (\<lambda>_. 7) m \<and>
      map fst (mabs m) = add_keys [] (map fst (all_entries wmap ([[3, 4]] ! 0))) \<and>
      (\<forall>c. map_of (mabs m) c =
         (if UseFirst = UseLast then map_of (rev (all_entries wmap ([[3, 4]] ! 0))) c
          else map_of (all_entries wmap ([[3, 4]] ! 0)) c))"
    by (rule mapMerge_use) (use wmap_ok in \<open>simp_all add: mergePolicyArg_def hash_ok_def\<close>)
  then obtain m where m: "mapMerge (\<lambda>_. 7) (\<lambda>k. Inr k :: string + string) wview (\<lambda>_. Inr []) ''duplicates'' 1 [[3, 4]]
       = Some (Inr m)" "map fst (mabs m) = [''a'', ''b'']"
       "\<forall>c. map_of (mabs m) c = map_of (all_entries wmap [3, 4]) c"
    by (auto simp: wmap_entries)
  then have "map_of (mabs m) ''b'' = Some (''b'', [20])" by (simp add: wmap_entries)
  with m show ?thesis by (intro exI [of _ m]) simp
qed

lemma twoKeys_get: "mapGet (\<lambda>_. 7) (\<lambda>k. Inr k :: string + string) twoKeys ''a'' = Some (Inr (Some [10]))"
  using pm.lookup_abs [of "\<lambda>_. 7" twoKeys "\<lambda>k. Inr k" "''a''" "''a''"] twoKeys_inv by simp

theorem mapMerge_combine_reject_witness:
  "\<exists>m. mapMerge (\<lambda>_. 7) (\<lambda>k. Inr k :: string + string) wview (\<lambda>_. Inr ''combine'') ''a'' 1 [[3, 4], [3]]
       = Some (Inr m) \<and> map_option snd (map_of (mabs m) ''b'') = Some [20, 20]"
  using mapMerge_combine_reject [of "\<lambda>_. 7" "\<lambda>k. Inr k :: string + string" wview "\<lambda>_. Inr ''combine''" "''a''"
      "[[3, 4], [3]]" Combine wmap 1] wmap_ok twoKeys_get
  by (auto simp: mergePolicyArg_def hash_ok_def wmap_entries argMap_def wview_def policyOf_def)

end
