(* ===== verification/RngPattern.thy ===== *)
theory RngPattern
  imports Prelude
begin

text \<open>
  RELAX NG patterns (\<open>relaxng/pattern.go\<close>) and the simplifying constructors of
  \<open>relaxng/derive.go\<close>. A datatype is the pair of operations the code asks of it, plus its
  \<open>contextualType\<close> side where it has one; the namespace context it reads is the type \<open>'c\<close>.

  A definition reference is \<open>Ref r\<close>, looked up in a grammar, and a memo wrapper put around
  schema structure by \<open>memo.go\<close> is \<open>Static\<close> with what the wrapper records. In the code a
  compound node stores its size, which \<open>patternSize\<close> recomputes here. A grammar is a map
  from references to definitions with no cycle that avoids an element, which is what the
  compiler accepts; \<open>None\<close> is a definition whose expansion failed.
\<close>

subsection \<open>Names and name classes\<close>

datatype qname = QName (qprefix: string) (quri: string) (qlocal: string)

datatype nameClass =
    AnyName "nameClass option"
  | NsName string "nameClass option"
  | QNameC qname
  | NameChoice nameClass nameClass

fun contains :: "nameClass \<Rightarrow> qname \<Rightarrow> bool" where
  "contains (AnyName None) n = True"
| "contains (AnyName (Some ex)) n = (\<not> contains ex n)"
| "contains (NsName ns None) n = (quri n = ns)"
| "contains (NsName ns (Some ex)) n = (if quri n \<noteq> ns then False else \<not> contains ex n)"
| "contains (QNameC m) n = (n = m)"
| "contains (NameChoice l r) n = (contains l n \<or> contains r n)"

subsection \<open>Patterns\<close>

type_synonym param = "string \<times> string"

record 'c ctxType =
  equalIn :: "string \<Rightarrow> 'c \<Rightarrow> string \<Rightarrow> 'c \<Rightarrow> bool"
  checkIn :: "string \<Rightarrow> param list \<Rightarrow> 'c \<Rightarrow> bool"

record 'c dataType =
  dtCheck :: "string \<Rightarrow> param list \<Rightarrow> bool"
  dtEqual :: "string \<Rightarrow> string \<Rightarrow> bool"
  dtCtx :: "'c ctxType option"

record statInfo =
  sSize :: int
  sNull :: bool
  sDataFree :: bool
  sSelfEq :: bool
  sAttrFree :: bool

datatype 'c pattern =
    NotAllowed
  | Empty
  | Text
  | Choice "'c pattern" "'c pattern"
  | Interleave "'c pattern" "'c pattern"
  | Group "'c pattern" "'c pattern"
  | OneOrMore "'c pattern"
  | Element nameClass "'c pattern"
  | Attribute nameClass "'c pattern"
  | Value "'c dataType" string 'c
  | Data "'c dataType" "param list" "'c pattern option"
  | ListP "'c pattern"
  | After "'c pattern" "'c pattern"
  | Ref nat
  | Static statInfo "'c pattern"

text \<open>The references a derivative may expand without passing an element.\<close>

primrec urefs :: "'c pattern \<Rightarrow> nat set" where
  "urefs NotAllowed = {}"
| "urefs Empty = {}"
| "urefs Text = {}"
| "urefs (Choice l r) = urefs l \<union> urefs r"
| "urefs (Interleave l r) = urefs l \<union> urefs r"
| "urefs (Group l r) = urefs l \<union> urefs r"
| "urefs (OneOrMore p) = urefs p"
| "urefs (Element nc p) = {}"
| "urefs (Attribute nc p) = urefs p"
| "urefs (Value dt v c) = {}"
| "urefs (Data dt ps ex) = \<Union> (set_option (map_option urefs ex))"
| "urefs (ListP p) = urefs p"
| "urefs (After l r) = urefs l \<union> urefs r"
| "urefs (Ref r) = {r}"
| "urefs (Static i p) = urefs p"

lemma finite_urefs [simp]: "finite (urefs p)"
proof (induction p)
  case (Data dt ps ex)
  then show ?case by (cases ex) auto
qed auto

subsection \<open>Grammars\<close>

typedef 'c grammar =
  "{g :: nat \<Rightarrow> 'c pattern option. \<exists>rk :: nat \<Rightarrow> nat. \<forall>r q. g r = Some q \<longrightarrow> (\<forall>s \<in> urefs q. rk s < rk r)}"
  by (rule exI [of _ "\<lambda>_. None"]) simp

definition defn :: "'c grammar \<Rightarrow> nat \<Rightarrow> 'c pattern option" where
  "defn g = Rep_grammar g"

text \<open>The rank that bounds the expansions of a pattern; only termination proofs use it.\<close>

definition refRank :: "'c grammar \<Rightarrow> nat \<Rightarrow> nat" where
  "refRank g = (SOME rk. \<forall>r q. defn g r = Some q \<longrightarrow> (\<forall>s \<in> urefs q. rk s < rk r))"

definition rank :: "'c grammar \<Rightarrow> 'c pattern \<Rightarrow> nat" where
  "rank g p = Max (insert 0 ((\<lambda>r. Suc (refRank g r)) ` urefs p))"

lemma refRank_less: "defn g r = Some q \<Longrightarrow> s \<in> urefs q \<Longrightarrow> refRank g s < refRank g r"
proof -
  have "\<exists>rk :: nat \<Rightarrow> nat. \<forall>r q. defn g r = Some q \<longrightarrow> (\<forall>s \<in> urefs q. rk s < rk r)"
    using Rep_grammar [of g] by (simp add: defn_def)
  then have "\<forall>r q. defn g r = Some q \<longrightarrow> (\<forall>s \<in> urefs q. refRank g s < refRank g r)"
    unfolding refRank_def by (rule someI_ex)
  then show "defn g r = Some q \<Longrightarrow> s \<in> urefs q \<Longrightarrow> refRank g s < refRank g r" by blast
qed

lemma rank_mono: "urefs q \<subseteq> urefs p \<Longrightarrow> rank g q \<le> rank g p"
  unfolding rank_def by (intro Max_mono) auto

lemma rank_defn: "defn g r = Some q \<Longrightarrow> rank g q < rank g (Ref r)"
  using refRank_less [of g r q] by (auto simp: rank_def less_Suc_eq_le Suc_le_eq)

lemma rank_Static [simp]: "rank g (Static i q) = rank g q"
  by (simp add: rank_def)

text \<open>
  The order every function on patterns descends in: either the rank drops, or it does not
  grow and the pattern shrinks.
\<close>

lemma rank_le [simp]:
  "rank g l \<le> rank g (Choice l r)" "rank g r \<le> rank g (Choice l r)"
  "rank g l \<le> rank g (Interleave l r)" "rank g r \<le> rank g (Interleave l r)"
  "rank g l \<le> rank g (Group l r)" "rank g r \<le> rank g (Group l r)"
  "rank g l \<le> rank g (After l r)" "rank g r \<le> rank g (After l r)"
  "rank g p \<le> rank g (OneOrMore p)" "rank g p \<le> rank g (ListP p)"
  "rank g p \<le> rank g (Attribute nc p)" "rank g q \<le> rank g (Data dt ps (Some q))"
  by (auto intro!: rank_mono)

lemmas rank_descent = rank_defn le_neq_implies_less

subsection \<open>Expansion of references\<close>

text \<open>\<open>expand\<close> follows references and wrappers to the first proper pattern.\<close>

function expand :: "'c grammar \<Rightarrow> 'c pattern \<Rightarrow> 'c pattern" where
  "expand g (Ref r) = (case defn g r of None \<Rightarrow> NotAllowed | Some q \<Rightarrow> expand g q)"
| "expand g (Static i q) = expand g q"
| "expand g NotAllowed = NotAllowed"
| "expand g Empty = Empty"
| "expand g Text = Text"
| "expand g (Choice l r) = Choice l r"
| "expand g (Interleave l r) = Interleave l r"
| "expand g (Group l r) = Group l r"
| "expand g (OneOrMore p) = OneOrMore p"
| "expand g (Element nc p) = Element nc p"
| "expand g (Attribute nc p) = Attribute nc p"
| "expand g (Value dt v c) = Value dt v c"
| "expand g (Data dt ps ex) = Data dt ps ex"
| "expand g (ListP p) = ListP p"
| "expand g (After l r) = After l r"
  by pat_completeness auto
termination
  by (relation "measures [\<lambda>(g, p). rank g p, \<lambda>(g, p). size p]")
    (auto intro: rank_descent)

lemma rank_expand: "rank g (expand g p) \<le> rank g p"
proof (induction g p rule: expand.induct)
  case (1 g r)
  show ?case
  proof (cases "defn g r")
    case (Some q)
    with 1 rank_defn [OF Some] show ?thesis by fastforce
  qed (simp add: rank_def)
next
  case (2 g i q)
  then show ?case by simp
qed auto

lemma rank_expand_Ref: "rank g (expand g (Ref r)) < rank g (Ref r)"
proof (cases "defn g r")
  case None
  then show ?thesis by (simp add: rank_def)
next
  case (Some q)
  have "rank g (expand g q) \<le> rank g q" by (rule rank_expand)
  with rank_defn [OF Some] Some show ?thesis by simp
qed

definition isRef :: "'c pattern \<Rightarrow> bool" where
  "isRef p = (case p of Ref _ \<Rightarrow> True | Static _ _ \<Rightarrow> True | _ \<Rightarrow> False)"

lemma isRef_expand [simp]: "\<not> isRef (expand g p)"
  by (induction g p rule: expand.induct) (auto simp: isRef_def split: option.split)

lemma size_expand_Static: "size (expand g (Static i q)) < size (Static i q) \<or> rank g (expand g q) < rank g q"
proof -
  have "size (expand g q) \<le> size q \<or> rank g (expand g q) < rank g q"
  proof (induction g q rule: expand.induct)
    case (1 g r)
    then show ?case using rank_expand_Ref [of g r] by simp
  next
    case (2 g i q)
    then show ?case by auto
  qed auto
  then show ?thesis by auto
qed

lemma rank_size_expand_Static:
  "rank g (expand g q) < rank g (Static i q) \<or>
   rank g (expand g q) = rank g (Static i q) \<and> size (expand g q) < Suc (size q)"
  using size_expand_Static [of g i q] rank_expand [of g q] by auto

subsection \<open>Nullability\<close>

function nullable :: "'c grammar \<Rightarrow> 'c pattern \<Rightarrow> bool" where
  "nullable g NotAllowed = False"
| "nullable g Empty = True"
| "nullable g Text = True"
| "nullable g (Choice l r) = (nullable g l \<or> nullable g r)"
| "nullable g (Interleave l r) = (nullable g l \<and> nullable g r)"
| "nullable g (Group l r) = (nullable g l \<and> nullable g r)"
| "nullable g (OneOrMore p) = nullable g p"
| "nullable g (Element nc p) = False"
| "nullable g (Attribute nc p) = False"
| "nullable g (Value dt v c) = False"
| "nullable g (Data dt ps ex) = False"
| "nullable g (ListP p) = False"
| "nullable g (After l r) = False"
| "nullable g (Ref r) = (case defn g r of None \<Rightarrow> False | Some q \<Rightarrow> nullable g q)"
| "nullable g (Static i q) = sNull i"
  by pat_completeness auto
termination
  by (relation "measures [\<lambda>(g, p). rank g p, \<lambda>(g, p). size p]")
    (auto intro: rank_descent)

subsection \<open>Sizes\<close>

definition MaxInt :: int where "MaxInt = 2 ^ 63 - 1"

definition addSize :: "int \<Rightarrow> int \<Rightarrow> int" where
  "addSize a b = (if a > MaxInt - b then MaxInt else a + b)"

fun patternSize :: "'c pattern \<Rightarrow> int" where
  "patternSize (Choice l r) = addSize 1 (addSize (patternSize l) (patternSize r))"
| "patternSize (Group l r) = addSize 1 (addSize (patternSize l) (patternSize r))"
| "patternSize (Interleave l r) = addSize 1 (addSize (patternSize l) (patternSize r))"
| "patternSize (After l r) = addSize 1 (addSize (patternSize l) (patternSize r))"
| "patternSize (OneOrMore p) = addSize 1 (patternSize p)"
| "patternSize (ListP p) = addSize 1 (patternSize p)"
| "patternSize (Static i q) = sSize i"
| "patternSize _ = 1"

subsection \<open>Structural equality\<close>

fun unstatic :: "'c pattern \<Rightarrow> 'c pattern" where
  "unstatic (Static i q) = unstatic q"
| "unstatic p = p"

lemma size_unstatic: "size (unstatic p) \<le> size p"
  by (induction p rule: unstatic.induct) auto

lemma size_unstatic_pair: "(x, y) = (unstatic a, unstatic b) \<Longrightarrow> size x \<le> size a"
  using size_unstatic [of a] by simp

text \<open>
  Values and data never compare equal, and a reference only to itself. The code answers a
  wrapper compared with itself from its \<open>selfEq\<close> field; the invariant on wrappers
  (\<open>statOk\<close> below) says that field is this comparison.
\<close>

function patEq :: "'c pattern \<Rightarrow> 'c pattern \<Rightarrow> bool" where
  "patEq a b =
     (case (unstatic a, unstatic b) of
        (Choice l r, Choice l' r') \<Rightarrow> patEq l l' \<and> patEq r r'
      | (Group l r, Group l' r') \<Rightarrow> patEq l l' \<and> patEq r r'
      | (Interleave l r, Interleave l' r') \<Rightarrow> patEq l l' \<and> patEq r r'
      | (After l r, After l' r') \<Rightarrow> patEq l l' \<and> patEq r r'
      | (OneOrMore p, OneOrMore p') \<Rightarrow> patEq p p'
      | (ListP p, ListP p') \<Rightarrow> patEq p p'
      | (Element nc p, Element nc' p') \<Rightarrow> nc = nc' \<and> patEq p p'
      | (Attribute nc p, Attribute nc' p') \<Rightarrow> nc = nc' \<and> patEq p p'
      | (NotAllowed, NotAllowed) \<Rightarrow> True
      | (Empty, Empty) \<Rightarrow> True
      | (Text, Text) \<Rightarrow> True
      | (Ref r, Ref r') \<Rightarrow> r = r'
      | _ \<Rightarrow> False)"
  by pat_completeness auto
termination
proof (relation "measure (\<lambda>(a, b). size a)", goal_cases)
  case 1
  then show ?case by simp
qed (drule size_unstatic_pair, simp)+

declare patEq.simps [simp del]

subsection \<open>Simplifying constructors\<close>

fun altCount :: "'c pattern \<Rightarrow> nat" where
  "altCount (Choice l r) = altCount l + altCount r"
| "altCount (Static i q) = altCount q"
| "altCount p = 1"

function inChoice :: "'c pattern \<Rightarrow> 'c pattern \<Rightarrow> bool" where
  "inChoice a b =
     (case unstatic a of
        Choice l r \<Rightarrow> if patternSize r = patternSize b \<and> patEq r b then True else inChoice l b
      | _ \<Rightarrow> patternSize a = patternSize b \<and> patEq a b)"
  by pat_completeness auto
termination
proof (relation "measure (\<lambda>(a, b). size a)", goal_cases)
  case 1
  then show ?case by simp
next
  case (2 a b l r)
  then show ?case using size_unstatic [of a] by simp
qed

declare inChoice.simps [simp del]

definition maxMergePairs :: nat where "maxMergePairs = 1024"

function choice :: "'c pattern \<Rightarrow> 'c pattern \<Rightarrow> 'c pattern" where
  "choice a b =
     (if a = NotAllowed then b
      else if b = NotAllowed then a
      else if patEq a b \<or> inChoice a b then a
      else
        (case b of
           Choice l r \<Rightarrow>
             if altCount a * altCount b \<le> maxMergePairs then choice (choice a l) r
             else Choice a b
         | _ \<Rightarrow> Choice a b))"
  by pat_completeness auto
termination
  by (relation "measure (\<lambda>(a, b). size b)") auto

declare choice.simps [simp del]

definition group :: "'c pattern \<Rightarrow> 'c pattern \<Rightarrow> 'c pattern" where
  "group a b =
     (if a = NotAllowed then NotAllowed
      else if b = NotAllowed then NotAllowed
      else if a = Empty then b
      else if b = Empty then a
      else Group a b)"

definition interleave :: "'c pattern \<Rightarrow> 'c pattern \<Rightarrow> 'c pattern" where
  "interleave a b =
     (if a = NotAllowed then NotAllowed
      else if b = NotAllowed then NotAllowed
      else if a = Empty then b
      else if b = Empty then a
      else Interleave a b)"

definition after :: "'c pattern \<Rightarrow> 'c pattern \<Rightarrow> 'c pattern" where
  "after a b =
     (if a = NotAllowed then NotAllowed
      else if b = NotAllowed then NotAllowed
      else After a b)"

definition oneOrMore :: "'c pattern \<Rightarrow> 'c pattern" where
  "oneOrMore p = (if p = NotAllowed then NotAllowed else OneOrMore p)"

definition isNotAllowed :: "'c pattern \<Rightarrow> bool" where
  "isNotAllowed p = (case p of NotAllowed \<Rightarrow> True | _ \<Rightarrow> False)"

end
