(* ===== verification/RngDeriv.thy ===== *)
theory RngDeriv
  imports RngPattern
begin

text \<open>
  The derivatives of \<open>relaxng/derive.go\<close>, without the builder and memo tables that only
  remember earlier answers. \<open>startTagOpenDeriv\<close> opens an element, \<open>attDeriv\<close> consumes an
  attribute, \<open>startTagCloseDeriv\<close> gives up on the attributes not supplied, \<open>textDeriv\<close>
  consumes character data and \<open>endTagDeriv\<close> closes the element.
\<close>

subsection \<open>White space and tokens\<close>

definition isWs :: "char \<Rightarrow> bool" where
  "isWs r \<longleftrightarrow> r = CHR '' '' \<or> r = CHR 0x09 \<or> r = CHR 0x0A \<or> r = CHR 0x0D"

definition whitespaceOnly :: "string \<Rightarrow> bool" where
  "whitespaceOnly s = list_all isWs s"

text \<open>The scan of \<open>splitTokens\<close>: \<open>cur\<close> is the token since \<open>start\<close>, when one is open.\<close>

fun splitScan :: "string option \<Rightarrow> string \<Rightarrow> string list" where
  "splitScan None [] = []"
| "splitScan (Some cur) [] = [cur]"
| "splitScan cur (r # s) =
     (if isWs r then
        (case cur of None \<Rightarrow> splitScan None s | Some t \<Rightarrow> t # splitScan None s)
      else
        (case cur of None \<Rightarrow> splitScan (Some [r]) s | Some t \<Rightarrow> splitScan (Some (t @ [r])) s))"

definition splitTokens :: "string \<Rightarrow> string list" where
  "splitTokens s = splitScan None s"

subsection \<open>Opening an element\<close>

function applyAfter :: "'c grammar \<Rightarrow> ('c pattern \<Rightarrow> 'c pattern) \<Rightarrow> 'c pattern \<Rightarrow> 'c pattern" where
  "applyAfter g f (After l r) = after l (f r)"
| "applyAfter g f (Choice l r) = choice (applyAfter g f l) (applyAfter g f r)"
| "applyAfter g f (Ref r) = applyAfter g f (expand g (Ref r))"
| "applyAfter g f (Static i q) = applyAfter g f (expand g q)"
| "applyAfter g f NotAllowed = NotAllowed"
| "applyAfter g f Empty = NotAllowed"
| "applyAfter g f Text = NotAllowed"
| "applyAfter g f (Interleave l r) = NotAllowed"
| "applyAfter g f (Group l r) = NotAllowed"
| "applyAfter g f (OneOrMore p) = NotAllowed"
| "applyAfter g f (Element nc p) = NotAllowed"
| "applyAfter g f (Attribute nc p) = NotAllowed"
| "applyAfter g f (Value dt v c) = NotAllowed"
| "applyAfter g f (Data dt ps ex) = NotAllowed"
| "applyAfter g f (ListP p) = NotAllowed"
  by pat_completeness auto
termination
  using rank_size_expand_Static
  by (relation "measures [\<lambda>(g, f, p). rank g p, \<lambda>(g, f, p). size p]")
    (auto intro: rank_descent rank_expand_Ref simp del: expand.simps)

function startTagOpenDeriv :: "'c grammar \<Rightarrow> 'c pattern \<Rightarrow> qname \<Rightarrow> 'c pattern" where
  "startTagOpenDeriv g (Ref r) name = startTagOpenDeriv g (expand g (Ref r)) name"
| "startTagOpenDeriv g (Static i q) name = startTagOpenDeriv g (expand g q) name"
| "startTagOpenDeriv g (Choice l r) name =
     choice (startTagOpenDeriv g l name) (startTagOpenDeriv g r name)"
| "startTagOpenDeriv g (Element nc p) name =
     (if \<not> contains nc name then NotAllowed else after p Empty)"
| "startTagOpenDeriv g (Interleave l r) name =
     choice (applyAfter g (\<lambda>x. interleave x r) (startTagOpenDeriv g l name))
            (applyAfter g (\<lambda>x. interleave l x) (startTagOpenDeriv g r name))"
| "startTagOpenDeriv g (OneOrMore p) name =
     applyAfter g (\<lambda>x. group x (choice (oneOrMore p) Empty)) (startTagOpenDeriv g p name)"
| "startTagOpenDeriv g (Group l r) name =
     (let d = applyAfter g (\<lambda>x. group x r) (startTagOpenDeriv g l name) in
      if nullable g l then choice d (startTagOpenDeriv g r name) else d)"
| "startTagOpenDeriv g (After l r) name =
     applyAfter g (\<lambda>x. after x r) (startTagOpenDeriv g l name)"
| "startTagOpenDeriv g NotAllowed name = NotAllowed"
| "startTagOpenDeriv g Empty name = NotAllowed"
| "startTagOpenDeriv g Text name = NotAllowed"
| "startTagOpenDeriv g (Attribute nc p) name = NotAllowed"
| "startTagOpenDeriv g (Value dt v c) name = NotAllowed"
| "startTagOpenDeriv g (Data dt ps ex) name = NotAllowed"
| "startTagOpenDeriv g (ListP p) name = NotAllowed"
  by pat_completeness auto
termination
  using rank_size_expand_Static
  by (relation "measures [\<lambda>(g, p, n). rank g p, \<lambda>(g, p, n). size p]")
    (auto intro: rank_descent rank_expand_Ref simp del: expand.simps)

subsection \<open>Character data\<close>

text \<open>How deep lists nest; it bounds the recursion through \<open>listDeriv\<close>.\<close>

function listDepth :: "'c grammar \<Rightarrow> 'c pattern \<Rightarrow> nat" where
  "listDepth g NotAllowed = 0"
| "listDepth g Empty = 0"
| "listDepth g Text = 0"
| "listDepth g (Choice l r) = max (listDepth g l) (listDepth g r)"
| "listDepth g (Interleave l r) = max (listDepth g l) (listDepth g r)"
| "listDepth g (Group l r) = max (listDepth g l) (listDepth g r)"
| "listDepth g (OneOrMore p) = listDepth g p"
| "listDepth g (Element nc p) = 0"
| "listDepth g (Attribute nc p) = 0"
| "listDepth g (Value dt v c) = 0"
| "listDepth g (Data dt ps ex) = (case ex of None \<Rightarrow> 0 | Some q \<Rightarrow> listDepth g q)"
| "listDepth g (ListP p) = Suc (listDepth g p)"
| "listDepth g (After l r) = max (listDepth g l) (listDepth g r)"
| "listDepth g (Ref r) = (case defn g r of None \<Rightarrow> 0 | Some q \<Rightarrow> listDepth g q)"
| "listDepth g (Static i q) = listDepth g q"
  by pat_completeness auto
termination
  by (relation "measures [\<lambda>(g, p). rank g p, \<lambda>(g, p). size p]")
    (auto intro: rank_descent)

lemma listDepth_expand [simp]: "listDepth g (expand g p) = listDepth g p"
  by (induction g p rule: expand.induct) (auto split: option.split)

lemma listDepth_choice: "listDepth g (choice a b) \<le> max (listDepth g a) (listDepth g b)"
proof (induction a b rule: choice.induct)
  case (1 a b)
  then show ?case
    by (subst choice.simps) (force split: pattern.splits)
qed

lemma listDepth_group: "listDepth g (group a b) \<le> max (listDepth g a) (listDepth g b)"
  by (auto simp: group_def)

lemma listDepth_interleave: "listDepth g (interleave a b) \<le> max (listDepth g a) (listDepth g b)"
  by (auto simp: interleave_def)

lemma listDepth_after: "listDepth g (after a b) \<le> max (listDepth g a) (listDepth g b)"
  by (auto simp: after_def)

lemma listDepth_oneOrMore: "listDepth g (oneOrMore a) \<le> listDepth g a"
  by (auto simp: oneOrMore_def)

function textDeriv :: "'c grammar \<Rightarrow> 'c pattern \<Rightarrow> string \<Rightarrow> 'c \<Rightarrow> 'c pattern"
and listDeriv :: "'c grammar \<Rightarrow> 'c pattern \<Rightarrow> string list \<Rightarrow> 'c \<Rightarrow> 'c pattern" where
  "textDeriv g (Choice l r) s ctx = choice (textDeriv g l s ctx) (textDeriv g r s ctx)"
| "textDeriv g (Interleave l r) s ctx =
     choice (interleave (textDeriv g l s ctx) r) (interleave l (textDeriv g r s ctx))"
| "textDeriv g (Group l r) s ctx =
     (let d = group (textDeriv g l s ctx) r in
      if nullable g l then choice d (textDeriv g r s ctx) else d)"
| "textDeriv g (After l r) s ctx = after (textDeriv g l s ctx) r"
| "textDeriv g (OneOrMore p) s ctx =
     group (textDeriv g p s ctx) (choice (oneOrMore p) Empty)"
| "textDeriv g Text s ctx = Text"
| "textDeriv g (Value dt v c) s ctx =
     (case dtCtx dt of
        Some ct \<Rightarrow> if equalIn ct v c s ctx then Empty else NotAllowed
      | None \<Rightarrow> if dtEqual dt v s then Empty else NotAllowed)"
| "textDeriv g (Data dt ps ex) s ctx =
     (if \<not> (case dtCtx dt of Some ct \<Rightarrow> checkIn ct s ps ctx | None \<Rightarrow> dtCheck dt s ps) then NotAllowed
      else
        (case ex of
           None \<Rightarrow> Empty
         | Some q \<Rightarrow>
             if nullable g q \<and> whitespaceOnly s \<or> textDeriv g q s ctx \<noteq> NotAllowed then NotAllowed
             else Empty))"
| "textDeriv g (ListP p) s ctx = listDeriv g p (splitTokens s) ctx"
| "textDeriv g (Ref r) s ctx = textDeriv g (expand g (Ref r)) s ctx"
| "textDeriv g (Static i q) s ctx = textDeriv g q s ctx"
| "textDeriv g NotAllowed s ctx = NotAllowed"
| "textDeriv g Empty s ctx = NotAllowed"
| "textDeriv g (Element nc p) s ctx = NotAllowed"
| "textDeriv g (Attribute nc p) s ctx = NotAllowed"
| "listDeriv g p [] ctx = (if nullable g p then Empty else NotAllowed)"
| "listDeriv g p (tok # toks) ctx = listDeriv g (textDeriv g p tok ctx) toks ctx"
  by pat_completeness auto

lemma listDepth_textDeriv_dom:
  "textDeriv_listDeriv_dom (Inl (g, p, s, ctx)) \<Longrightarrow> listDepth g (textDeriv g p s ctx) \<le> listDepth g p"
  "textDeriv_listDeriv_dom (Inr (g, p, toks, ctx)) \<Longrightarrow> listDepth g (listDeriv g p toks ctx) = 0"
proof (induction g p s ctx and g p toks ctx rule: textDeriv_listDeriv.pinduct)
  case (1 g l r s ctx)
  then show ?case
    using listDepth_choice [of g "textDeriv g l s ctx" "textDeriv g r s ctx"]
    by (simp add: textDeriv.psimps)
next
  case (2 g l r s ctx)
  then show ?case
    using listDepth_choice [of g "interleave (textDeriv g l s ctx) r" "interleave l (textDeriv g r s ctx)"]
      listDepth_interleave [of g "textDeriv g l s ctx" r] listDepth_interleave [of g l "textDeriv g r s ctx"]
    by (simp add: textDeriv.psimps)
next
  case (3 g l r s ctx)
  then show ?case
    using listDepth_choice [of g "group (textDeriv g l s ctx) r" "textDeriv g r s ctx"]
      listDepth_group [of g "textDeriv g l s ctx" r]
    by (auto simp: textDeriv.psimps Let_def)
next
  case (4 g l r s ctx)
  then show ?case
    using listDepth_after [of g "textDeriv g l s ctx" r] by (simp add: textDeriv.psimps)
next
  case (5 g p s ctx)
  then show ?case
    using listDepth_group [of g "textDeriv g p s ctx" "choice (oneOrMore p) Empty"]
      listDepth_choice [of g "oneOrMore p" Empty] listDepth_oneOrMore [of g p]
    by (simp add: textDeriv.psimps)
next
  case (10 g r s ctx)
  then show ?case using listDepth_expand [of g "Ref r"] by (simp add: textDeriv.psimps)
qed (auto simp: textDeriv.psimps listDeriv.psimps split: option.splits)

termination textDeriv
proof (relation "measures
    [case_sum (\<lambda>(g, p, s, c). listDepth g p) (\<lambda>(g, p, ts, c). listDepth g p),
     case_sum (\<lambda>_. 0) (\<lambda>_. 1),
     case_sum (\<lambda>(g, p, s, c). rank g p) (\<lambda>(g, p, ts, c). length ts),
     case_sum (\<lambda>(g, p, s, c). size p) (\<lambda>_. 0)]", goal_cases)
  case 1
  then show ?case by simp
qed (auto intro: rank_descent rank_expand_Ref simp: less_max_iff_disj le_less [symmetric]
       simp del: expand.simps listDepth.simps(14) dest!: listDepth_textDeriv_dom(1))

definition valueMatch :: "'c grammar \<Rightarrow> 'c pattern \<Rightarrow> string \<Rightarrow> 'c \<Rightarrow> bool" where
  "valueMatch g p s ctx =
     (if nullable g p \<and> whitespaceOnly s then True
      else \<not> isNotAllowed (textDeriv g p s ctx))"

subsection \<open>Attributes\<close>

function attDeriv :: "'c grammar \<Rightarrow> 'c pattern \<Rightarrow> qname \<times> string \<Rightarrow> 'c \<Rightarrow> 'c pattern" where
  "attDeriv g (Ref r) a ctx = attDeriv g (expand g (Ref r)) a ctx"
| "attDeriv g (Static i q) a ctx = (if sAttrFree i then NotAllowed else attDeriv g q a ctx)"
| "attDeriv g (After l r) a ctx = after (attDeriv g l a ctx) r"
| "attDeriv g (Choice l r) a ctx = choice (attDeriv g l a ctx) (attDeriv g r a ctx)"
| "attDeriv g (Group l r) a ctx =
     choice (group (attDeriv g l a ctx) r) (group l (attDeriv g r a ctx))"
| "attDeriv g (Interleave l r) a ctx =
     choice (interleave (attDeriv g l a ctx) r) (interleave l (attDeriv g r a ctx))"
| "attDeriv g (OneOrMore p) a ctx =
     group (attDeriv g p a ctx) (choice (oneOrMore p) Empty)"
| "attDeriv g (Attribute nc p) a ctx =
     (if \<not> contains nc (fst a) \<or> \<not> valueMatch g p (snd a) ctx then NotAllowed else Empty)"
| "attDeriv g NotAllowed a ctx = NotAllowed"
| "attDeriv g Empty a ctx = NotAllowed"
| "attDeriv g Text a ctx = NotAllowed"
| "attDeriv g (Element nc p) a ctx = NotAllowed"
| "attDeriv g (Value dt v c) a ctx = NotAllowed"
| "attDeriv g (Data dt ps ex) a ctx = NotAllowed"
| "attDeriv g (ListP p) a ctx = NotAllowed"
  by pat_completeness auto
termination
  by (relation "measures [\<lambda>(g, p, a, c). rank g p, \<lambda>(g, p, a, c). size p]")
    (auto intro: rank_descent rank_expand_Ref simp del: expand.simps)

text \<open>The result and whether anything changed; an unchanged subtree comes back as it was.\<close>

function startTagCloseDerivCh :: "'c grammar \<Rightarrow> 'c pattern \<Rightarrow> 'c pattern \<times> bool" where
  "startTagCloseDerivCh g (Ref r) =
     (let (q, ch) = startTagCloseDerivCh g (expand g (Ref r)) in
      if \<not> ch then (Ref r, False) else (q, True))"
| "startTagCloseDerivCh g (Static i p) =
     (if sAttrFree i then (Static i p, False)
      else
        (let (q, ch) = startTagCloseDerivCh g p in
         if \<not> ch then (Static i p, False) else (q, ch)))"
| "startTagCloseDerivCh g (After l r) =
     (let (l', ch) = startTagCloseDerivCh g l in
      if \<not> ch then (After l r, False) else (after l' r, True))"
| "startTagCloseDerivCh g (Choice l r) =
     (let (l', chl) = startTagCloseDerivCh g l; (r', chr) = startTagCloseDerivCh g r in
      if \<not> chl \<and> \<not> chr then (Choice l r, False) else (choice l' r', True))"
| "startTagCloseDerivCh g (Group l r) =
     (let (l', chl) = startTagCloseDerivCh g l; (r', chr) = startTagCloseDerivCh g r in
      if \<not> chl \<and> \<not> chr then (Group l r, False) else (group l' r', True))"
| "startTagCloseDerivCh g (Interleave l r) =
     (let (l', chl) = startTagCloseDerivCh g l; (r', chr) = startTagCloseDerivCh g r in
      if \<not> chl \<and> \<not> chr then (Interleave l r, False) else (interleave l' r', True))"
| "startTagCloseDerivCh g (OneOrMore p) =
     (let (q, ch) = startTagCloseDerivCh g p in
      if \<not> ch then (OneOrMore p, False) else (oneOrMore q, True))"
| "startTagCloseDerivCh g (Attribute nc p) = (NotAllowed, True)"
| "startTagCloseDerivCh g NotAllowed = (NotAllowed, False)"
| "startTagCloseDerivCh g Empty = (Empty, False)"
| "startTagCloseDerivCh g Text = (Text, False)"
| "startTagCloseDerivCh g (Element nc p) = (Element nc p, False)"
| "startTagCloseDerivCh g (Value dt v c) = (Value dt v c, False)"
| "startTagCloseDerivCh g (Data dt ps ex) = (Data dt ps ex, False)"
| "startTagCloseDerivCh g (ListP p) = (ListP p, False)"
  by pat_completeness auto
termination
  by (relation "measures [\<lambda>(g, p). rank g p, \<lambda>(g, p). size p]")
    (auto intro: rank_descent rank_expand_Ref simp del: expand.simps)

definition startTagCloseDeriv :: "'c grammar \<Rightarrow> 'c pattern \<Rightarrow> 'c pattern" where
  "startTagCloseDeriv g p = fst (startTagCloseDerivCh g p)"

subsection \<open>Closing an element\<close>

function endTagDeriv :: "'c grammar \<Rightarrow> 'c pattern \<Rightarrow> 'c pattern" where
  "endTagDeriv g (Choice l r) = choice (endTagDeriv g l) (endTagDeriv g r)"
| "endTagDeriv g (After l r) = (if nullable g l then r else NotAllowed)"
| "endTagDeriv g (Ref r) = endTagDeriv g (expand g (Ref r))"
| "endTagDeriv g (Static i q) = endTagDeriv g (expand g q)"
| "endTagDeriv g NotAllowed = NotAllowed"
| "endTagDeriv g Empty = NotAllowed"
| "endTagDeriv g Text = NotAllowed"
| "endTagDeriv g (Interleave l r) = NotAllowed"
| "endTagDeriv g (Group l r) = NotAllowed"
| "endTagDeriv g (OneOrMore p) = NotAllowed"
| "endTagDeriv g (Element nc p) = NotAllowed"
| "endTagDeriv g (Attribute nc p) = NotAllowed"
| "endTagDeriv g (Value dt v c) = NotAllowed"
| "endTagDeriv g (Data dt ps ex) = NotAllowed"
| "endTagDeriv g (ListP p) = NotAllowed"
  by pat_completeness auto
termination
  using rank_size_expand_Static
  by (relation "measures [\<lambda>(g, p). rank g p, \<lambda>(g, p). size p]")
    (auto intro: rank_descent rank_expand_Ref simp del: expand.simps)

declare expand.simps(1) [simp del]

end
