(* ===== verification/RngSem.thy ===== *)
theory RngSem
  imports RngDeriv
begin

text \<open>
  What a RELAX NG pattern means, independently of derivatives: \<open>pm g p A k\<close> says that the
  pattern matches the attributes \<open>A\<close> and the content \<open>k\<close>. A pattern that arises while a
  document is validated carries the continuations of the open elements in \<open>After\<close>; \<open>sm\<close>
  reads such a pattern against the remaining content of every open element, innermost first.
  The conditions under which the derivatives compute this meaning (\<open>wf\<close>) are those of the
  specification's section 7, which the schema compiler checks, together with the truth of
  what the memo wrappers record.
\<close>

subsection \<open>Documents\<close>

datatype 'c node =
    TextN string
  | ElemN qname 'c "(qname \<times> string) list" "'c node list"
  | OtherN

datatype 'c item = TI string 'c | EI "'c node"

type_synonym 'c atts = "(qname \<times> string \<times> 'c) multiset"

definition bare :: "qname \<Rightarrow> qname" where
  "bare n = QName [] (quri n) (qlocal n)"

definition NSXMLNS :: string where "NSXMLNS = ''http://www.w3.org/2000/xmlns/''"

text \<open>Namespace declarations are not attributes.\<close>

definition elementAttrs :: "(qname \<times> string) list \<Rightarrow> (qname \<times> string) list" where
  "elementAttrs as =
     map (\<lambda>(n, v). (bare n, v)) (filter (\<lambda>(n, v). \<not> (quri n = NSXMLNS \<or> qlocal n = ''xmlns'')) as)"

definition contentChildren :: "'c node list \<Rightarrow> 'c node list" where
  "contentChildren ks = filter (\<lambda>k. k \<noteq> OtherN) ks"

definition isElem :: "'c node \<Rightarrow> bool" where
  "isElem k = (case k of ElemN _ _ _ _ \<Rightarrow> True | _ \<Rightarrow> False)"

text \<open>Adjacent text nodes are one string.\<close>

fun mergeRuns :: "'c node list \<Rightarrow> 'c node list" where
  "mergeRuns (TextN s # TextN t # ks) = mergeRuns (TextN (s @ t) # ks)"
| "mergeRuns (k # ks) = k # mergeRuns ks"
| "mergeRuns [] = []"

fun itemOf :: "'c \<Rightarrow> 'c node \<Rightarrow> 'c item" where
  "itemOf c (TextN s) = TI s c"
| "itemOf c k = EI k"

fun wsText :: "'c node \<Rightarrow> bool" where
  "wsText (TextN s) = whitespaceOnly s"
| "wsText _ = False"

text \<open>
  The contents an element's children may be read as: white space between elements is
  dropped, and an element with only white space may be empty or hold that string.
\<close>

definition contents :: "'c \<Rightarrow> 'c node list \<Rightarrow> 'c item list set" where
  "contents c kids =
     (let ks = mergeRuns (contentChildren kids) in
      if list_ex isElem ks then {map (itemOf c) (filter (\<lambda>k. \<not> wsText k) ks)}
      else
        (case ks of
           [] \<Rightarrow> {[], [TI [] c]}
         | k # _ \<Rightarrow> if wsText k then {[], [itemOf c k]} else {[itemOf c k]}))"

definition attItems :: "'c \<Rightarrow> (qname \<times> string) list \<Rightarrow> 'c atts" where
  "attItems c as = mset (map (\<lambda>(n, v). (n, v, c)) (elementAttrs as))"

subsection \<open>The meaning of a pattern\<close>

text \<open>An exception excludes strings; it is built from values, data and choices.\<close>

definition valueOk :: "'c dataType \<Rightarrow> string \<Rightarrow> 'c \<Rightarrow> string \<Rightarrow> 'c \<Rightarrow> bool" where
  "valueOk dt v c s ctx =
     (case dtCtx dt of Some ct \<Rightarrow> equalIn ct v c s ctx | None \<Rightarrow> dtEqual dt v s)"

definition dataOk :: "'c dataType \<Rightarrow> param list \<Rightarrow> string \<Rightarrow> 'c \<Rightarrow> bool" where
  "dataOk dt ps s ctx =
     (case dtCtx dt of Some ct \<Rightarrow> checkIn ct s ps ctx | None \<Rightarrow> dtCheck dt s ps)"

function excMatch :: "'c grammar \<Rightarrow> 'c pattern \<Rightarrow> string \<Rightarrow> 'c \<Rightarrow> bool" where
  "excMatch g (Choice l r) s ctx = (excMatch g l s ctx \<or> excMatch g r s ctx)"
| "excMatch g (Value dt v c) s ctx = valueOk dt v c s ctx"
| "excMatch g (Data dt ps ex) s ctx =
     (dataOk dt ps s ctx \<and> (case ex of None \<Rightarrow> True | Some q \<Rightarrow> \<not> excMatch g q s ctx))"
| "excMatch g (Ref r) s ctx = (case defn g r of None \<Rightarrow> False | Some q \<Rightarrow> excMatch g q s ctx)"
| "excMatch g (Static i q) s ctx = excMatch g q s ctx"
| "excMatch g NotAllowed s ctx = False"
| "excMatch g Empty s ctx = False"
| "excMatch g Text s ctx = False"
| "excMatch g (Interleave l r) s ctx = False"
| "excMatch g (Group l r) s ctx = False"
| "excMatch g (OneOrMore p) s ctx = False"
| "excMatch g (Element nc p) s ctx = False"
| "excMatch g (Attribute nc p) s ctx = False"
| "excMatch g (ListP p) s ctx = False"
| "excMatch g (After l r) s ctx = False"
  by pat_completeness auto
termination
  by (relation "measures [\<lambda>(g, p, s, c). rank g p, \<lambda>(g, p, s, c). size p]")
    (auto intro: rank_descent)

inductive pm :: "'c grammar \<Rightarrow> 'c pattern \<Rightarrow> 'c atts \<Rightarrow> 'c item list \<Rightarrow> bool" for g where
  Empty: "pm g Empty {#} []"
| Text: "\<forall>x \<in> set k. \<exists>s c. x = TI s c \<Longrightarrow> pm g Text {#} k"
| ChoiceL: "pm g l A k \<Longrightarrow> pm g (Choice l r) A k"
| ChoiceR: "pm g r A k \<Longrightarrow> pm g (Choice l r) A k"
| Group: "pm g l A j \<Longrightarrow> pm g r B k \<Longrightarrow> pm g (Group l r) (A + B) (j @ k)"
| Interleave: "pm g l A i \<Longrightarrow> pm g r B j \<Longrightarrow> k \<in> shuffles i j \<Longrightarrow> pm g (Interleave l r) (A + B) k"
| One: "pm g p A k \<Longrightarrow> pm g (OneOrMore p) A k"
| More: "pm g p A j \<Longrightarrow> pm g (OneOrMore p) B k \<Longrightarrow> pm g (OneOrMore p) (A + B) (j @ k)"
| Element: "contains nc (bare n) \<Longrightarrow> k \<in> contents c kids \<Longrightarrow> pm g p (attItems c as) k \<Longrightarrow>
    pm g (Element nc p) {#} [EI (ElemN n c as kids)]"
| Attribute: "contains nc n \<Longrightarrow> pm g p {#} [TI v c] \<Longrightarrow> pm g (Attribute nc p) {#(n, v, c)#} []"
| AttributeWs: "contains nc n \<Longrightarrow> whitespaceOnly v \<Longrightarrow> pm g p {#} [] \<Longrightarrow>
    pm g (Attribute nc p) {#(n, v, c)#} []"
| Value: "valueOk dt v c s ctx \<Longrightarrow> pm g (Value dt v c) {#} [TI s ctx]"
| Data: "dataOk dt ps s ctx \<Longrightarrow> (case ex of None \<Rightarrow> True | Some q \<Rightarrow> \<not> excMatch g q s ctx) \<Longrightarrow>
    pm g (Data dt ps ex) {#} [TI s ctx]"
| ListP: "pm g p {#} (map (\<lambda>t. TI t ctx) (splitTokens s)) \<Longrightarrow> pm g (ListP p) {#} [TI s ctx]"
| Ref: "defn g r = Some q \<Longrightarrow> pm g q A k \<Longrightarrow> pm g (Ref r) A k"
| Static: "pm g q A k \<Longrightarrow> pm g (Static i q) A k"

inductive_simps pm_simps [simp]:
  "pm g NotAllowed A k" "pm g Empty A k" "pm g Text A k" "pm g (Choice l r) A k"
  "pm g (Ref r) A k" "pm g (Static i q) A k" "pm g (After l r) A k"
  "pm g (Value dt v c) A k" "pm g (Data dt ps ex) A k" "pm g (ListP p) A k"
  "pm g (Element nc p) A k" "pm g (Attribute nc p) A k"

inductive_simps pm_group: "pm g (Group l r) A k"
inductive_simps pm_inter: "pm g (Interleave l r) A k"

lemma pm_expand [simp]: "pm g (expand g p) A k = pm g p A k"
  by (induction g p rule: expand.induct) (auto simp: expand.simps(1) split: option.split)

subsection \<open>Repetition\<close>

lemma pm_one_segments:
  "pm g (OneOrMore p) A k \<longleftrightarrow>
   (\<exists>ss. ss \<noteq> [] \<and> (\<forall>(B, j) \<in> set ss. pm g p B j) \<and> A = sum_list (map fst ss) \<and> k = concat (map snd ss))"
proof
  assume "pm g (OneOrMore p) A k"
  then show "\<exists>ss. ss \<noteq> [] \<and> (\<forall>(B, j) \<in> set ss. pm g p B j) \<and>
      A = sum_list (map fst ss) \<and> k = concat (map snd ss)"
  proof (induction "OneOrMore p" A k rule: pm.induct)
    case (One A k)
    then show ?case by (intro exI [of _ "[(A, k)]"]) simp
  next
    case (More A j B k)
    then obtain ss where "ss \<noteq> []" "\<forall>(B, j) \<in> set ss. pm g p B j" "B = sum_list (map fst ss)"
      "k = concat (map snd ss)" by blast
    with More(1) show ?case by (intro exI [of _ "(A, j) # ss"]) simp
  qed
next
  assume "\<exists>ss. ss \<noteq> [] \<and> (\<forall>(B, j) \<in> set ss. pm g p B j) \<and>
      A = sum_list (map fst ss) \<and> k = concat (map snd ss)"
  then obtain ss where ss: "ss \<noteq> []" "\<forall>(B, j) \<in> set ss. pm g p B j" "A = sum_list (map fst ss)"
      "k = concat (map snd ss)" by blast
  have "pm g (OneOrMore p) (sum_list (map fst ss)) (concat (map snd ss))"
    using ss(1,2)
  proof (induction ss)
    case (Cons s ss)
    show ?case
    proof (cases "ss = []")
      case True
      with Cons.prems show ?thesis by (cases s) (auto intro: pm.One)
    next
      case False
      with Cons show ?thesis by (cases s) (auto intro: pm.More)
    qed
  qed simp
  with ss(3,4) show "pm g (OneOrMore p) A k" by simp
qed

lemma pm_one_cong: "(\<And>A k. pm g p A k = pm g q A k) \<Longrightarrow> pm g (OneOrMore p) A k = pm g (OneOrMore q) A k"
  by (simp add: pm_one_segments)

text \<open>What follows one iteration: nothing, or more iterations.\<close>

definition moreOf :: "'c grammar \<Rightarrow> 'c pattern \<Rightarrow> 'c atts \<Rightarrow> 'c item list \<Rightarrow> bool" where
  "moreOf g p B k \<longleftrightarrow> pm g (OneOrMore p) B k \<or> B = {#} \<and> k = []"

lemma pm_one_unfold:
  "pm g (OneOrMore p) A k \<longleftrightarrow>
   (\<exists>A1 A2 k1 k2. A = A1 + A2 \<and> k = k1 @ k2 \<and> pm g p A1 k1 \<and> moreOf g p A2 k2)"
proof
  assume "pm g (OneOrMore p) A k"
  then show "\<exists>A1 A2 k1 k2. A = A1 + A2 \<and> k = k1 @ k2 \<and> pm g p A1 k1 \<and> moreOf g p A2 k2"
  proof cases
    case One
    then show ?thesis
      by (intro exI [of _ A] exI [of _ "{#}"] exI [of _ k] exI [of _ "[]"]) (simp add: moreOf_def)
  next
    case (More B j C m)
    then show ?thesis
      by (intro exI [of _ B] exI [of _ C] exI [of _ j] exI [of _ m]) (simp add: moreOf_def)
  qed
qed (auto simp: moreOf_def intro: pm.intros)

lemma moreOf_segments:
  "moreOf g p A k \<longleftrightarrow>
   (\<exists>ss. (\<forall>(B, j) \<in> set ss. pm g p B j) \<and> A = sum_list (map fst ss) \<and> k = concat (map snd ss))"
  unfolding moreOf_def pm_one_segments by (metis (no_types, lifting) concat.simps(1) empty_iff
    list.map(1) list.set(1) sum_list.Nil)

lemma moreOf_append: "moreOf g p A j \<Longrightarrow> moreOf g p B k \<Longrightarrow> moreOf g p (A + B) (j @ k)"
proof -
  assume "moreOf g p A j" "moreOf g p B k"
  then obtain ss ts where "\<forall>(B, j) \<in> set ss. pm g p B j" "A = sum_list (map fst ss)" "j = concat (map snd ss)"
    "\<forall>(B, j) \<in> set ts. pm g p B j" "B = sum_list (map fst ts)" "k = concat (map snd ts)"
    unfolding moreOf_segments by blast
  then show "moreOf g p (A + B) (j @ k)"
    unfolding moreOf_segments by (intro exI [of _ "ss @ ts"]) auto
qed

lemma pm_one_nil: "pm g (OneOrMore p) {#} [] \<longleftrightarrow> pm g p {#} []"
proof
  assume "pm g (OneOrMore p) {#} []"
  then show "pm g p {#} []" by cases auto
qed (rule pm.One)

text \<open>The first item of a repetition belongs to an iteration that begins with it.\<close>

lemma pm_one_first:
  "pm g (OneOrMore p) {#} (x # k) \<longleftrightarrow>
   (\<exists>k1 k2. k = k1 @ k2 \<and> pm g p {#} (x # k1) \<and> moreOf g p {#} k2)"
proof
  assume "pm g (OneOrMore p) {#} (x # k)"
  then show "\<exists>k1 k2. k = k1 @ k2 \<and> pm g p {#} (x # k1) \<and> moreOf g p {#} k2"
  proof (induction "OneOrMore p" "{#} :: 'a atts" "x # k" rule: pm.induct)
    case One
    then show ?case by (intro exI [of _ k] exI [of _ "[]"]) (simp add: moreOf_def)
  next
    case (More A j B m)
    then show ?case
    proof (cases j)
      case (Cons y j')
      with More show ?thesis by (intro exI [of _ j'] exI [of _ m]) (simp add: moreOf_def)
    qed auto
  qed
next
  assume "\<exists>k1 k2. k = k1 @ k2 \<and> pm g p {#} (x # k1) \<and> moreOf g p {#} k2"
  then obtain k1 k2 where "k = k1 @ k2" "pm g p {#} (x # k1)" "moreOf g p {#} k2" by blast
  then show "pm g (OneOrMore p) {#} (x # k)"
    unfolding pm_one_unfold by (intro exI [of _ "{#}"] exI [of _ "x # k1"] exI [of _ k2]) simp
qed

end
