(* ===== verification/RngCorrect.thy ===== *)
theory RngCorrect
  imports RngSem
begin

text \<open>
  The derivatives compute the meaning of patterns. The conditions \<open>wfPat\<close> on a schema pattern
  are restrictions of section 7 of the specification in the form the derivatives need them:
  an attribute below a repetition stands under choices and repetitions only (7.1.2), an
  attribute's content is a string pattern (7.2), an exception is built from values and data
  (7.1.4); and what a memo wrapper records is true of the subtree it wraps.
\<close>

subsection \<open>Conditions on a schema\<close>

function noAttr :: "'c grammar \<Rightarrow> 'c pattern \<Rightarrow> bool" where
  "noAttr g (Choice l r) = (noAttr g l \<and> noAttr g r)"
| "noAttr g (Interleave l r) = (noAttr g l \<and> noAttr g r)"
| "noAttr g (Group l r) = (noAttr g l \<and> noAttr g r)"
| "noAttr g (After l r) = (noAttr g l \<and> noAttr g r)"
| "noAttr g (OneOrMore p) = noAttr g p"
| "noAttr g (Attribute nc p) = False"
| "noAttr g (Ref r) = (case defn g r of None \<Rightarrow> True | Some q \<Rightarrow> noAttr g q)"
| "noAttr g (Static i q) = noAttr g q"
| "noAttr g NotAllowed = True"
| "noAttr g Empty = True"
| "noAttr g Text = True"
| "noAttr g (Element nc p) = True"
| "noAttr g (Value dt v c) = True"
| "noAttr g (Data dt ps ex) = True"
| "noAttr g (ListP p) = True"
  by pat_completeness auto
termination
  by (relation "measures [\<lambda>(g, p). rank g p, \<lambda>(g, p). size p]") (auto intro: rank_descent)

function aSimple :: "'c grammar \<Rightarrow> 'c pattern \<Rightarrow> bool" where
  "aSimple g (Choice l r) = (aSimple g l \<and> aSimple g r)"
| "aSimple g (OneOrMore p) = aSimple g p"
| "aSimple g (Interleave l r) = (noAttr g l \<and> noAttr g r)"
| "aSimple g (Group l r) = (noAttr g l \<and> noAttr g r)"
| "aSimple g (After l r) = (noAttr g l \<and> noAttr g r)"
| "aSimple g (Ref r) = (case defn g r of None \<Rightarrow> True | Some q \<Rightarrow> aSimple g q)"
| "aSimple g (Static i q) = aSimple g q"
| "aSimple g (Attribute nc p) = True"
| "aSimple g NotAllowed = True"
| "aSimple g Empty = True"
| "aSimple g Text = True"
| "aSimple g (Element nc p) = True"
| "aSimple g (Value dt v c) = True"
| "aSimple g (Data dt ps ex) = True"
| "aSimple g (ListP p) = True"
  by pat_completeness auto
termination
  by (relation "measures [\<lambda>(g, p). rank g p, \<lambda>(g, p). size p]") (auto intro: rank_descent)

function excOk :: "'c grammar \<Rightarrow> 'c pattern \<Rightarrow> bool" where
  "excOk g (Choice l r) = (excOk g l \<and> excOk g r)"
| "excOk g (Value dt v c) = True"
| "excOk g (Data dt ps ex) = (case ex of None \<Rightarrow> True | Some q \<Rightarrow> excOk g q)"
| "excOk g (Ref r) = (case defn g r of None \<Rightarrow> True | Some q \<Rightarrow> excOk g q)"
| "excOk g (Static i q) = (\<not> sNull i \<and> excOk g q)"
| "excOk g NotAllowed = True"
| "excOk g Empty = False"
| "excOk g Text = False"
| "excOk g (Interleave l r) = False"
| "excOk g (Group l r) = False"
| "excOk g (After l r) = False"
| "excOk g (OneOrMore p) = False"
| "excOk g (Element nc p) = False"
| "excOk g (Attribute nc p) = False"
| "excOk g (ListP p) = False"
  by pat_completeness auto
termination
  by (relation "measures [\<lambda>(g, p). rank g p, \<lambda>(g, p). size p]") (auto intro: rank_descent)

text \<open>A string pattern: what one string leaves of it is nothing, or can end there.\<close>

function strOk :: "'c grammar \<Rightarrow> 'c pattern \<Rightarrow> bool" where
  "strOk g (Choice l r) = (strOk g l \<and> strOk g r)"
| "strOk g (Group l r) = (strOk g l \<and> strOk g r \<and> nullable g r)"
| "strOk g (Interleave l r) = (strOk g l \<and> strOk g r \<and> nullable g l \<and> nullable g r)"
| "strOk g (OneOrMore p) = strOk g p"
| "strOk g (After l r) = False"
| "strOk g (Ref r) = (case defn g r of None \<Rightarrow> True | Some q \<Rightarrow> strOk g q)"
| "strOk g (Static i q) = strOk g q"
| "strOk g (Attribute nc p) = True"
| "strOk g NotAllowed = True"
| "strOk g Empty = True"
| "strOk g Text = True"
| "strOk g (Element nc p) = True"
| "strOk g (Value dt v c) = True"
| "strOk g (Data dt ps ex) = True"
| "strOk g (ListP p) = True"
  by pat_completeness auto
termination
  by (relation "measures [\<lambda>(g, p). rank g p, \<lambda>(g, p). size p]") (auto intro: rank_descent)

text \<open>No \<open>After\<close> anywhere: a pattern of the schema.\<close>

primrec plain :: "'c pattern \<Rightarrow> bool" where
  "plain NotAllowed = True"
| "plain Empty = True"
| "plain Text = True"
| "plain (Choice l r) = (plain l \<and> plain r)"
| "plain (Interleave l r) = (plain l \<and> plain r)"
| "plain (Group l r) = (plain l \<and> plain r)"
| "plain (OneOrMore p) = plain p"
| "plain (Element nc p) = plain p"
| "plain (Attribute nc p) = plain p"
| "plain (Value dt v c) = True"
| "plain (Data dt ps ex) = True"
| "plain (ListP p) = plain p"
| "plain (After l r) = False"
| "plain (Ref r) = True"
| "plain (Static i p) = plain p"

primrec wfPat :: "'c grammar \<Rightarrow> 'c pattern \<Rightarrow> bool" where
  "wfPat g NotAllowed = True"
| "wfPat g Empty = True"
| "wfPat g Text = True"
| "wfPat g (Choice l r) = (wfPat g l \<and> wfPat g r)"
| "wfPat g (Interleave l r) = (wfPat g l \<and> wfPat g r)"
| "wfPat g (Group l r) = (wfPat g l \<and> wfPat g r)"
| "wfPat g (OneOrMore p) = (wfPat g p \<and> aSimple g p)"
| "wfPat g (Element nc p) = wfPat g p"
| "wfPat g (Attribute nc p) = (wfPat g p \<and> strOk g p)"
| "wfPat g (Value dt v c) = True"
| "wfPat g (Data dt ps ex) = (case ex of None \<Rightarrow> True | Some q \<Rightarrow> excOk g q)"
| "wfPat g (ListP p) = wfPat g p"
| "wfPat g (After l r) = (wfPat g l \<and> wfPat g r)"
| "wfPat g (Ref r) = True"
| "wfPat g (Static i p) = (wfPat g p \<and> sNull i = nullable g p \<and> (sAttrFree i \<longrightarrow> noAttr g p))"

definition wfg :: "'c grammar \<Rightarrow> bool" where
  "wfg g \<longleftrightarrow> (\<forall>r q. defn g r = Some q \<longrightarrow> wfPat g q \<and> plain q)"

lemma wf_expand: "wfg g \<Longrightarrow> wfPat g p \<Longrightarrow> wfPat g (expand g p)"
  by (induction g p rule: expand.induct) (auto simp: wfg_def expand.simps(1) split: option.split)

lemma plain_expand: "wfg g \<Longrightarrow> plain p \<Longrightarrow> plain (expand g p)"
  by (induction g p rule: expand.induct) (auto simp: wfg_def expand.simps(1) split: option.split)

lemma noAttr_expand [simp]: "noAttr g (expand g p) = noAttr g p"
  by (induction g p rule: expand.induct) (auto simp: expand.simps(1) split: option.split)

lemma aSimple_expand [simp]: "aSimple g (expand g p) = aSimple g p"
  by (induction g p rule: expand.induct) (auto simp: expand.simps(1) split: option.split)

lemma strOk_expand [simp]: "strOk g (expand g p) = strOk g p"
  by (induction g p rule: expand.induct) (auto simp: expand.simps(1) split: option.split)

lemma excOk_expand [simp]: "excOk g p \<Longrightarrow> excOk g (expand g p)"
  by (induction g p rule: expand.induct) (auto simp: expand.simps(1) split: option.splits)

subsection \<open>Nullability\<close>

lemma nullable_pm: "wfg g \<Longrightarrow> wfPat g p \<Longrightarrow> nullable g p = pm g p {#} []"
proof (induction g p rule: noAttr.induct)
  case (7 g r)
  then show ?case by (auto simp: wfg_def split: option.split)
qed (auto simp: pm_group pm_inter pm_one_nil)

lemma nullable_expand: "wfg g \<Longrightarrow> wfPat g p \<Longrightarrow> nullable g (expand g p) = nullable g p"
  using nullable_pm wf_expand pm_expand by metis

subsection \<open>The simplifying constructors\<close>

lemma pm_unstatic: "pm g (unstatic p) A k = pm g p A k"
  by (induction p rule: unstatic.induct) auto

lemma unstatic_idem [simp]: "unstatic (unstatic p) = unstatic p"
  by (induction p rule: unstatic.induct) auto

lemma patEq_unfold:
  "unstatic a = Choice l r \<Longrightarrow> patEq a b \<longleftrightarrow> (\<exists>l' r'. unstatic b = Choice l' r' \<and> patEq l l' \<and> patEq r r')"
  "unstatic a = Group l r \<Longrightarrow> patEq a b \<longleftrightarrow> (\<exists>l' r'. unstatic b = Group l' r' \<and> patEq l l' \<and> patEq r r')"
  "unstatic a = Interleave l r \<Longrightarrow> patEq a b \<longleftrightarrow> (\<exists>l' r'. unstatic b = Interleave l' r' \<and> patEq l l' \<and> patEq r r')"
  "unstatic a = After l r \<Longrightarrow> patEq a b \<longleftrightarrow> (\<exists>l' r'. unstatic b = After l' r' \<and> patEq l l' \<and> patEq r r')"
  "unstatic a = OneOrMore p \<Longrightarrow> patEq a b \<longleftrightarrow> (\<exists>p'. unstatic b = OneOrMore p' \<and> patEq p p')"
  "unstatic a = ListP p \<Longrightarrow> patEq a b \<longleftrightarrow> (\<exists>p'. unstatic b = ListP p' \<and> patEq p p')"
  "unstatic a = Element nc p \<Longrightarrow> patEq a b \<longleftrightarrow> (\<exists>p'. unstatic b = Element nc p' \<and> patEq p p')"
  "unstatic a = Attribute nc p \<Longrightarrow> patEq a b \<longleftrightarrow> (\<exists>p'. unstatic b = Attribute nc p' \<and> patEq p p')"
  "unstatic a = NotAllowed \<Longrightarrow> patEq a b \<longleftrightarrow> unstatic b = NotAllowed"
  "unstatic a = Empty \<Longrightarrow> patEq a b \<longleftrightarrow> unstatic b = Empty"
  "unstatic a = Text \<Longrightarrow> patEq a b \<longleftrightarrow> unstatic b = Text"
  "unstatic a = Ref r1 \<Longrightarrow> patEq a b \<longleftrightarrow> unstatic b = Ref r1"
  "unstatic a = Value dt v c \<Longrightarrow> patEq a b \<longleftrightarrow> False"
  "unstatic a = Data dt ps ex \<Longrightarrow> patEq a b \<longleftrightarrow> False"
  by (subst patEq.simps; auto split: pattern.split)+

lemma unstatic_not_Static: "unstatic a \<noteq> Static i q"
  by (induction a rule: unstatic.induct) auto

lemma patEq_pm: "patEq a b \<Longrightarrow> pm g a A k = pm g b A k"
proof (induction a arbitrary: b A k rule: measure_induct_rule [of size])
  case (less a)
  note IH = less.IH [OF less_le_trans [OF _ size_unstatic [of a]]]
  have "pm g (unstatic a) A k = pm g (unstatic b) A k"
  proof (cases "unstatic a")
    case (Choice l r)
    with less.prems obtain l' r' where b: "unstatic b = Choice l' r'" "patEq l l'" "patEq r r'"
      by (auto simp: patEq_unfold)
    have "pm g l = pm g l'" "pm g r = pm g r'" using b(2,3) Choice by (auto intro!: ext IH)
    with Choice b(1) show ?thesis by (simp add: pm_group pm_inter)
  next
    case (Interleave l r)
    with less.prems obtain l' r' where b: "unstatic b = Interleave l' r'" "patEq l l'" "patEq r r'"
      by (auto simp: patEq_unfold)
    have "pm g l = pm g l'" "pm g r = pm g r'" using b(2,3) Interleave by (auto intro!: ext IH)
    with Interleave b(1) show ?thesis by (simp add: pm_group pm_inter)
  next
    case (Group l r)
    with less.prems obtain l' r' where b: "unstatic b = Group l' r'" "patEq l l'" "patEq r r'"
      by (auto simp: patEq_unfold)
    have "pm g l = pm g l'" "pm g r = pm g r'" using b(2,3) Group by (auto intro!: ext IH)
    with Group b(1) show ?thesis by (simp add: pm_group pm_inter)
  next
    case (After l r)
    with less.prems obtain l' r' where b: "unstatic b = After l' r'" "patEq l l'" "patEq r r'"
      by (auto simp: patEq_unfold)
    have "pm g l = pm g l'" "pm g r = pm g r'" using b(2,3) After by (auto intro!: ext IH)
    with After b(1) show ?thesis by (simp add: pm_group pm_inter)
  next
    case (OneOrMore p)
    with less.prems obtain p' where b: "unstatic b = OneOrMore p'" "patEq p p'"
      by (auto simp: patEq_unfold)
    have "pm g p = pm g p'" using b(2) OneOrMore by (auto intro!: ext IH)
    with OneOrMore b(1) show ?thesis by (simp add: pm_one_segments)
  next
    case (ListP p)
    with less.prems obtain p' where b: "unstatic b = ListP p'" "patEq p p'"
      by (auto simp: patEq_unfold)
    have "pm g p = pm g p'" using b(2) ListP by (auto intro!: ext IH)
    with ListP b(1) show ?thesis by (simp add: pm_one_segments)
  next
    case (Element nc p)
    with less.prems obtain p' where b: "unstatic b = Element nc p'" "patEq p p'"
      by (auto simp: patEq_unfold)
    have "pm g p = pm g p'" using b(2) Element by (auto intro!: ext IH)
    with Element b(1) show ?thesis by (simp add: pm_one_segments)
  next
    case (Attribute nc p)
    with less.prems obtain p' where b: "unstatic b = Attribute nc p'" "patEq p p'"
      by (auto simp: patEq_unfold)
    have "pm g p = pm g p'" using b(2) Attribute by (auto intro!: ext IH)
    with Attribute b(1) show ?thesis by (simp add: pm_one_segments)
  qed (use less.prems unstatic_not_Static [of a] in \<open>auto simp: patEq_unfold\<close>)
  then show ?case by (simp add: pm_unstatic)
qed

subsection \<open>The meaning against the open elements\<close>

fun sm :: "'c grammar \<Rightarrow> 'c pattern \<Rightarrow> 'c atts \<Rightarrow> 'c item list list \<Rightarrow> bool" where
  "sm g (Choice l r) A ks = (sm g l A ks \<or> sm g r A ks)"
| "sm g (Static i q) A ks = sm g q A ks"
| "sm g (After l r) A ks =
     (case ks of k # k' # ks' \<Rightarrow> pm g l A k \<and> sm g r {#} (k' # ks') | _ \<Rightarrow> False)"
| "sm g p A ks = (\<exists>k. ks = [k] \<and> pm g p A k)"

lemma sm_plain: "plain p \<Longrightarrow> sm g p A ks = (\<exists>k. ks = [k] \<and> pm g p A k)"
  by (induction g p A ks rule: sm.induct) auto

lemma sm_unstatic: "sm g (unstatic p) A ks = sm g p A ks"
  by (induction p rule: unstatic.induct) auto

lemma patEq_sm: "patEq a b \<Longrightarrow> sm g a A ks = sm g b A ks"
proof (induction a arbitrary: b A ks rule: measure_induct_rule [of size])
  case (less a)
  note IH = less.IH [OF less_le_trans [OF _ size_unstatic [of a]]]
  have pm: "pm g (unstatic a) = pm g (unstatic b)"
    using patEq_pm [OF less.prems] by (intro ext) (simp add: pm_unstatic)
  have "sm g (unstatic a) A ks = sm g (unstatic b) A ks"
  proof (cases "unstatic a")
    case (Choice l r)
    with less.prems obtain l' r' where b: "unstatic b = Choice l' r'" "patEq l l'" "patEq r r'"
      by (auto simp: patEq_unfold)
    have "sm g l = sm g l'" "sm g r = sm g r'" using b(2,3) Choice by (auto intro!: ext IH)
    with Choice b(1) show ?thesis by simp
  next
    case (After l r)
    with less.prems obtain l' r' where b: "unstatic b = After l' r'" "patEq l l'" "patEq r r'"
      by (auto simp: patEq_unfold)
    have "pm g l = pm g l'" using b(2) by (auto intro!: ext patEq_pm)
    moreover have "sm g r = sm g r'" using b(3) After by (auto intro!: ext IH)
    ultimately show ?thesis using After b(1) by (simp split: list.split)
  qed (use less.prems pm unstatic_not_Static [of a] in \<open>auto simp: patEq_unfold\<close>)
  then show ?case by (simp add: sm_unstatic)
qed

text \<open>
  What a reading of patterns must satisfy for \<open>choice\<close> to be a union: choices are unions,
  a wrapper is what it wraps, and patterns that compare equal read the same.
\<close>

locale reading =
  fixes M :: "'c pattern \<Rightarrow> bool"
  assumes M_NotAllowed: "\<not> M NotAllowed"
    and M_Choice: "M (Choice l r) = (M l \<or> M r)"
    and M_Static: "M (Static i q) = M q"
    and M_patEq: "patEq a b \<Longrightarrow> M a = M b"
begin

lemma M_unstatic: "M (unstatic p) = M p"
  by (induction p rule: unstatic.induct) (auto simp: M_Static)

lemma inChoice_M: "inChoice a b \<Longrightarrow> M b \<Longrightarrow> M a"
proof (induction a b rule: inChoice.induct)
  case (1 a b)
  show ?case
  proof (cases "\<exists>l r. unstatic a = Choice l r")
    case True
    then obtain l r where a: "unstatic a = Choice l r" by blast
    have "M l \<or> M r"
      using "1.prems" a "1.IH" [OF a] M_patEq [of r b]
      by (subst (asm) inChoice.simps) (auto split: if_splits)
    then have "M (unstatic a)" using a by (simp add: M_Choice)
    then show ?thesis by (simp add: M_unstatic)
  next
    case False
    then have "patEq a b" using "1.prems"(1)
      by (subst (asm) inChoice.simps) (auto split: pattern.splits)
    then show ?thesis using "1.prems"(2) M_patEq by blast
  qed
qed

lemma choice_M: "M (choice a b) = (M a \<or> M b)"
proof (induction a b rule: choice.induct)
  case (1 a b)
  show ?case
  proof (cases "a = NotAllowed \<or> b = NotAllowed \<or> patEq a b \<or> inChoice a b")
    case True
    then show ?thesis
      using M_NotAllowed M_patEq inChoice_M by (subst choice.simps) auto
  next
    case False
    then show ?thesis
      using "1.IH" M_Choice by (subst choice.simps) (auto split: pattern.split)
  qed
qed

end

interpretation pmr: reading "\<lambda>p. pm g p A k" for g A k
  by unfold_locales (auto simp: patEq_pm)

interpretation smr: reading "\<lambda>p. sm g p A ks" for g A ks
  by unfold_locales (auto simp: patEq_sm)

lemmas choice_pm [simp] = pmr.choice_M
lemmas choice_sm [simp] = smr.choice_M

lemma choice_closed:
  assumes "\<And>l r. P (Choice l r) = (P l \<and> P r)"
  shows "P a \<Longrightarrow> P b \<Longrightarrow> P (choice a b)"
proof (induction a b rule: choice.induct)
  case (1 a b)
  then show ?case using assms by (subst choice.simps) (auto split: pattern.split)
qed

lemma choice_NotAllowed_iff: "choice a b = NotAllowed \<longleftrightarrow> a = NotAllowed \<and> b = NotAllowed"
proof (induction a b rule: choice.induct)
  case (1 a b)
  show ?case
    by (subst choice.simps) (use 1 in \<open>auto split: pattern.split\<close>)
qed

text \<open>The other constructors.\<close>

lemma pm_unit [simp]:
  "pm g (Group Empty b) A k = pm g b A k" "pm g (Group a Empty) A k = pm g a A k"
  "pm g (Interleave Empty b) A k = pm g b A k" "pm g (Interleave a Empty) A k = pm g a A k"
  by (force simp: pm_group pm_inter)+

lemma pm_zero [simp]:
  "\<not> pm g (Group NotAllowed b) A k" "\<not> pm g (Group a NotAllowed) A k"
  "\<not> pm g (Interleave NotAllowed b) A k" "\<not> pm g (Interleave a NotAllowed) A k"
  by (simp_all add: pm_group pm_inter)

lemma group_pm [simp]: "pm g (group a b) A k = pm g (Group a b) A k"
  by (simp add: group_def)

lemma interleave_pm [simp]: "pm g (interleave a b) A k = pm g (Interleave a b) A k"
  by (simp add: interleave_def)

lemma oneOrMore_pm [simp]: "pm g (oneOrMore p) A k = pm g (OneOrMore p) A k"
  by (auto simp: oneOrMore_def pm_one_unfold)

lemma after_pm [simp]: "\<not> pm g (after a b) A k"
  by (auto simp: after_def)

lemma after_sm [simp]: "sm g (after l r) A ks = sm g (After l r) A ks"
proof -
  have "\<not> sm g NotAllowed B ls" for B ls by simp
  then show ?thesis by (auto simp: after_def split: list.split)
qed

lemma plain_group: "plain a \<Longrightarrow> plain b \<Longrightarrow> plain (group a b)" by (auto simp: group_def)
lemma plain_inter: "plain a \<Longrightarrow> plain b \<Longrightarrow> plain (interleave a b)" by (auto simp: interleave_def)
lemma plain_oneOrMore: "plain a \<Longrightarrow> plain (oneOrMore a)" by (auto simp: oneOrMore_def)
lemma plain_choice: "plain a \<Longrightarrow> plain b \<Longrightarrow> plain (choice a b)" by (rule choice_closed) auto

lemmas plain_cons [simp] = plain_group plain_inter plain_oneOrMore plain_choice

lemma wf_group: "wfPat g a \<Longrightarrow> wfPat g b \<Longrightarrow> wfPat g (group a b)" by (auto simp: group_def)
lemma wf_inter: "wfPat g a \<Longrightarrow> wfPat g b \<Longrightarrow> wfPat g (interleave a b)" by (auto simp: interleave_def)
lemma wf_oneOrMore: "wfPat g a \<Longrightarrow> aSimple g a \<Longrightarrow> wfPat g (oneOrMore a)" by (auto simp: oneOrMore_def)
lemma wf_choice: "wfPat g a \<Longrightarrow> wfPat g b \<Longrightarrow> wfPat g (choice a b)" by (rule choice_closed) auto
lemma wf_after: "wfPat g a \<Longrightarrow> wfPat g b \<Longrightarrow> wfPat g (after a b)" by (auto simp: after_def)

lemmas wf_cons [simp] = wf_group wf_inter wf_oneOrMore wf_choice wf_after

lemma choice_moreOf [simp]: "pm g (choice (oneOrMore p) Empty) A k = moreOf g p A k"
  by (auto simp: moreOf_def)

subsection \<open>Shape of the patterns that arise\<close>

text \<open>
  The derivative of an element is a choice of \<open>After\<close> patterns. A state of the validator is a
  pattern of the schema, or such a choice whose continuations are states again.
\<close>

fun aft :: "('c pattern \<Rightarrow> bool) \<Rightarrow> 'c pattern \<Rightarrow> bool" where
  "aft R NotAllowed = True"
| "aft R (After l r) = (plain l \<and> R r)"
| "aft R (Choice l r) = (aft R l \<and> aft R r)"
| "aft R _ = False"

fun st :: "'c pattern \<Rightarrow> bool" where
  "st (After l r) = (plain l \<and> st r)"
| "st (Choice l r) = (st l \<and> st r)"
| "st p = plain p"

lemma plain_st: "plain p \<Longrightarrow> st p"
  by (induction p) auto

lemma aft_st: "aft R p \<Longrightarrow> (\<And>x. R x \<Longrightarrow> st x) \<Longrightarrow> st p"
  by (induction R p rule: aft.induct) auto

lemma aft_choice: "aft R a \<Longrightarrow> aft R b \<Longrightarrow> aft R (choice a b)"
  by (rule choice_closed) auto

lemma st_choice: "st a \<Longrightarrow> st b \<Longrightarrow> st (choice a b)"
  by (rule choice_closed) auto

lemma st_after: "plain a \<Longrightarrow> st b \<Longrightarrow> st (after a b)"
  by (auto simp: after_def)

lemma aft_applyAfter: "aft R d \<Longrightarrow> (\<And>x. R x \<Longrightarrow> Q (f x)) \<Longrightarrow> aft Q (applyAfter g f d)"
  by (induction R d rule: aft.induct) (auto simp: after_def intro: aft_choice)

lemma wf_applyAfter:
  "aft R d \<Longrightarrow> wfPat g d \<Longrightarrow> (\<And>x. R x \<Longrightarrow> wfPat g x \<Longrightarrow> wfPat g (f x)) \<Longrightarrow> wfPat g (applyAfter g f d)"
  by (induction R d rule: aft.induct) auto

lemma applyAfter_sm:
  assumes "aft R d" "\<And>x. R x \<Longrightarrow> sm g (f x) {#} (k2 # ks) = (\<exists>s \<in> S. sm g x {#} s)" "[] \<notin> S"
  shows "sm g (applyAfter g f d) A (k # k2 # ks) = (\<exists>s \<in> S. sm g d A (k # s))"
  using assms
proof (induction R d rule: aft.induct)
  case (2 R l r)
  then have "sm g (f r) {#} (k2 # ks) = (\<exists>s \<in> S. sm g r {#} s)" by simp
  moreover have "sm g (After l r) A (k # s) = (pm g l A k \<and> sm g r {#} s)" if "s \<in> S" for s
    using that 2(3) by (cases s) auto
  ultimately show ?case by auto
qed auto

subsection \<open>Opening an element\<close>

lemma pm_group_Cons:
  "pm g (Group l r) {#} (x # k) \<longleftrightarrow>
   (\<exists>k1 k2. k = k1 @ k2 \<and> pm g l {#} (x # k1) \<and> pm g r {#} k2) \<or> pm g l {#} [] \<and> pm g r {#} (x # k)"
  by (auto simp: pm_group Cons_eq_append_conv)

lemma pm_inter_Cons:
  "pm g (Interleave l r) {#} (x # k) \<longleftrightarrow>
   (\<exists>i j. k \<in> shuffles i j \<and> pm g l {#} (x # i) \<and> pm g r {#} j) \<or>
   (\<exists>i j. k \<in> shuffles i j \<and> pm g l {#} i \<and> pm g r {#} (x # j))"
  by (auto simp: pm_inter Cons_in_shuffles_iff neq_Nil_conv) (metis list.sel(1,3))+

lemma open_aft: "wfg g \<Longrightarrow> plain p \<Longrightarrow> aft plain (startTagOpenDeriv g p n)"
proof (induction g p n rule: startTagOpenDeriv.induct)
  case (1 g r name)
  then show ?case using plain_expand [of g "Ref r"] by simp
next
  case (2 g i q name)
  then show ?case using plain_expand [of g q] by simp
next
  case (5 g l r name)
  then show ?case by (auto intro!: aft_choice aft_applyAfter [where R = plain])
next
  case (6 g p name)
  then show ?case by (auto intro!: aft_applyAfter [where R = plain])
next
  case (7 g l r name)
  then show ?case by (auto simp: Let_def intro!: aft_choice aft_applyAfter [where R = plain])
qed (auto intro: aft_choice simp: after_def)

lemma aft_mono: "aft R p \<Longrightarrow> (\<And>x. R x \<Longrightarrow> Q x) \<Longrightarrow> aft Q p"
  by (induction R p rule: aft.induct) auto

lemma plain_aft_st: "wfg g \<Longrightarrow> plain p \<Longrightarrow> aft st (startTagOpenDeriv g p n)"
  by (rule aft_mono [OF open_aft plain_st])

lemma open_st: "wfg g \<Longrightarrow> st p \<Longrightarrow> aft st (startTagOpenDeriv g p n)"
proof (induction p rule: st.induct)
  case (1 l r)
  then show ?case
    using open_aft [of g l n]
    by (auto intro!: aft_applyAfter [where R = plain] st_after)
next
  case (2 l r)
  then show ?case by (auto intro: aft_choice)
qed (simp_all add: plain_aft_st del: startTagOpenDeriv.simps)

lemma open_wf: "wfg g \<Longrightarrow> plain p \<Longrightarrow> wfPat g p \<Longrightarrow> wfPat g (startTagOpenDeriv g p n)"
proof (induction g p n rule: startTagOpenDeriv.induct)
  case (1 g r name)
  then show ?case using plain_expand [of g "Ref r"] wf_expand [of g "Ref r"] by simp
next
  case (2 g i q name)
  then show ?case using plain_expand [of g q] wf_expand [of g q] by simp
next
  case (5 g l r name)
  then show ?case by (auto intro!: wf_choice wf_applyAfter [where R = plain] open_aft)
next
  case (6 g p name)
  then show ?case by (auto intro!: wf_applyAfter [where R = plain] open_aft)
next
  case (7 g l r name)
  then show ?case by (auto simp: Let_def intro!: wf_choice wf_applyAfter [where R = plain] open_aft)
qed auto

lemma open_wf_st: "wfg g \<Longrightarrow> st p \<Longrightarrow> wfPat g p \<Longrightarrow> wfPat g (startTagOpenDeriv g p n)"
proof (induction p rule: st.induct)
  case (1 l r)
  then show ?case
    using open_wf [of g l n] open_aft [of g l n]
    by (auto intro!: wf_applyAfter [where R = plain])
next
  case (2 l r)
  then show ?case by simp
qed (simp_all add: open_wf del: startTagOpenDeriv.simps)

text \<open>
  \<open>opened\<close> reads the derivative against an element: its attributes and one of its contents
  go to the innermost level.
\<close>

definition opened ::
  "'c grammar \<Rightarrow> 'c pattern \<Rightarrow> 'c \<Rightarrow> (qname \<times> string) list \<Rightarrow> 'c node list \<Rightarrow> 'c item list list \<Rightarrow> bool" where
  "opened g d c as kids ks \<longleftrightarrow> (\<exists>k \<in> contents c kids. sm g d (attItems c as) (k # ks))"

lemma opened_choice [simp]:
  "opened g (choice a b) c as kids ks = (opened g a c as kids ks \<or> opened g b c as kids ks)"
  by (auto simp: opened_def)

lemma opened_applyAfter:
  assumes "aft R d" "\<And>x. R x \<Longrightarrow> sm g (f x) {#} (k2 # ks) = (\<exists>s \<in> S. sm g x {#} s)" "[] \<notin> S"
  shows "opened g (applyAfter g f d) c as kids (k2 # ks) = (\<exists>s \<in> S. opened g d c as kids s)"
proof -
  have "sm g (applyAfter g f d) A (k # k2 # ks) = (\<exists>s \<in> S. sm g d A (k # s))" for A k
    using applyAfter_sm [OF assms] .
  then show ?thesis by (auto simp: opened_def)
qed

lemma sm_plain_one: "plain p \<Longrightarrow> sm g p A [k] = pm g p A k"
  by (simp add: sm_plain)

lemma open_pm:
  assumes "wfg g"
  shows "plain p \<Longrightarrow> wfPat g p \<Longrightarrow>
    opened g (startTagOpenDeriv g p (bare n)) c as kids [k] = pm g p {#} (EI (ElemN n c as kids) # k)"
  using assms
proof (induction g p "bare n" arbitrary: k rule: startTagOpenDeriv.induct)
  case (1 g r)
  then show ?case
    using plain_expand [of g "Ref r"] wf_expand [of g "Ref r"] pm_expand [of g "Ref r"] by (simp del: pm_simps)
next
  case (2 g i q)
  then show ?case using plain_expand [of g q] wf_expand [of g q] by simp
next
  case (3 g l r)
  then show ?case by simp
next
  case (4 g nc p)
  then show ?case by (auto simp: opened_def)
next
  case (5 g l r)
  let ?o = "\<lambda>d. opened g d c as kids" and ?e = "EI (ElemN n c as kids)"
  have pl: "plain l" "plain r" and IH:
    "?o (startTagOpenDeriv g l (bare n)) [j] = pm g l {#} (?e # j)"
    "?o (startTagOpenDeriv g r (bare n)) [j] = pm g r {#} (?e # j)" for j
    using 5 by auto
  have "?o (applyAfter g (\<lambda>x. interleave x r) (startTagOpenDeriv g l (bare n))) [k]
      = (\<exists>s \<in> (\<lambda>i. [i]) ` {i. \<exists>j. pm g r {#} j \<and> k \<in> shuffles i j}. ?o (startTagOpenDeriv g l (bare n)) s)"
    using pl by (intro opened_applyAfter [where R = plain] open_aft 5) (auto simp: sm_plain pm_inter)
  moreover have "?o (applyAfter g (\<lambda>x. interleave l x) (startTagOpenDeriv g r (bare n))) [k]
      = (\<exists>s \<in> (\<lambda>j. [j]) ` {j. \<exists>i. pm g l {#} i \<and> k \<in> shuffles i j}. ?o (startTagOpenDeriv g r (bare n)) s)"
    using pl by (intro opened_applyAfter [where R = plain] open_aft 5) (auto simp: sm_plain pm_inter)
  ultimately show ?case by (auto simp: pm_inter_Cons IH)
next
  case (6 g p)
  let ?o = "\<lambda>d. opened g d c as kids" and ?e = "EI (ElemN n c as kids)"
  have pl: "plain p" and IH: "?o (startTagOpenDeriv g p (bare n)) [j] = pm g p {#} (?e # j)" for j
    using 6 by auto
  have "?o (applyAfter g (\<lambda>x. group x (choice (oneOrMore p) Empty)) (startTagOpenDeriv g p (bare n))) [k]
      = (\<exists>s \<in> (\<lambda>i. [i]) ` {i. \<exists>j. k = i @ j \<and> moreOf g p {#} j}. ?o (startTagOpenDeriv g p (bare n)) s)"
    using pl by (intro opened_applyAfter [where R = plain] open_aft 6)
      (auto simp: sm_plain pm_group simp del: choice_pm)
  then show ?case by (auto simp: pm_one_first IH)
next
  case (7 g l r)
  let ?o = "\<lambda>d. opened g d c as kids" and ?e = "EI (ElemN n c as kids)"
  have pl: "plain l" "plain r" and IH: "?o (startTagOpenDeriv g l (bare n)) [j] = pm g l {#} (?e # j)" for j
    using 7 by auto
  have "?o (applyAfter g (\<lambda>x. group x r) (startTagOpenDeriv g l (bare n))) [k]
      = (\<exists>s \<in> (\<lambda>i. [i]) ` {i. \<exists>j. k = i @ j \<and> pm g r {#} j}. ?o (startTagOpenDeriv g l (bare n)) s)"
    using pl by (intro opened_applyAfter [where R = plain] open_aft 7) (auto simp: sm_plain pm_group)
  moreover have "nullable g l = pm g l {#} []" using 7 by (intro nullable_pm) auto
  ultimately show ?case using 7 by (auto simp: pm_group_Cons IH Let_def)
qed (auto simp: opened_def)

lemma aft_plain_short: "aft plain d \<Longrightarrow> \<not> sm g d A (k # k' # k'' # ks)"
  by (induction "plain :: 'a pattern \<Rightarrow> bool" d rule: aft.induct) (auto simp: sm_plain)

lemma open_plain_sm:
  assumes "wfg g" "plain p" "wfPat g p"
  shows "opened g (startTagOpenDeriv g p (bare n)) c as kids (k # ks) = sm g p {#} ((EI (ElemN n c as kids) # k) # ks)"
proof (cases ks)
  case Nil
  then show ?thesis using open_pm [OF assms] assms(2) by (simp add: sm_plain)
next
  case (Cons k' ks')
  then show ?thesis
    using aft_plain_short [OF open_aft [OF assms(1,2)]] assms(2) by (simp add: opened_def sm_plain)
qed

lemma open_sm:
  assumes "wfg g"
  shows "st p \<Longrightarrow> wfPat g p \<Longrightarrow>
    opened g (startTagOpenDeriv g p (bare n)) c as kids (k # ks) = sm g p {#} ((EI (ElemN n c as kids) # k) # ks)"
proof (induction p arbitrary: k ks rule: st.induct)
  case (1 l r)
  let ?S = "(\<lambda>j. [j]) ` {j. j = k \<and> ks \<noteq> [] \<and> sm g r {#} ks}"
  have "opened g (applyAfter g (\<lambda>x. after x r) (startTagOpenDeriv g l (bare n))) c as kids (k # ks)
     = (\<exists>s \<in> ?S. opened g (startTagOpenDeriv g l (bare n)) c as kids s)"
    using 1 by (intro opened_applyAfter [where R = plain] open_aft assms)
      (auto simp: sm_plain split: list.splits)
  then show ?case using open_pm [OF assms, of l n c as kids k] 1 by (auto split: list.splits)
next
  case (2 l r)
  then show ?case by simp
qed (simp_all add: open_plain_sm assms del: startTagOpenDeriv.simps sm.simps(3))

end
