(* ===== verification/RngText.thy ===== *)
theory RngText
  imports RngCorrect
begin

text \<open>
  The derivatives for character data, attributes, the end of a start tag and the end tag
  compute the meaning of patterns.
\<close>

subsection \<open>Character data\<close>

lemma text_plain: "wfg g \<Longrightarrow> plain p \<Longrightarrow> plain (textDeriv g p s c)"
  "plain (listDeriv g p toks c)"
proof (induction g p s c and g p toks c rule: textDeriv_listDeriv.induct)
  case (10 g r s ctx)
  then show ?case using plain_expand [of g "Ref r"] by simp
qed (auto simp: Let_def split: option.splits)

lemma text_wf: "wfg g \<Longrightarrow> wfPat g p \<Longrightarrow> wfPat g (textDeriv g p s c)"
  "wfPat g (listDeriv g p toks c)"
proof (induction g p s c and g p toks c rule: textDeriv_listDeriv.induct)
  case (10 g r s ctx)
  then show ?case using wf_expand [of g "Ref r"] by simp
qed (auto simp: Let_def split: option.splits)

lemma text_expand: "textDeriv g (expand g p) s c = textDeriv g p s c"
proof (induction g p rule: expand.induct)
  case (1 g r)
  show ?case by (rule textDeriv.simps(10) [symmetric])
qed auto

lemma exc_text:
  "excOk g q \<Longrightarrow> \<not> nullable g q \<and> (textDeriv g q s c \<noteq> NotAllowed \<longleftrightarrow> excMatch g q s c)"
proof (induction g q rule: excOk.induct)
  case (4 g r)
  then show ?case by (auto simp: expand.simps(1) text_expand split: option.splits)
qed (auto simp: choice_NotAllowed_iff valueOk_def dataOk_def split: option.splits)

lemma text_pm:
  "wfg g \<Longrightarrow> wfPat g p \<Longrightarrow> pm g (textDeriv g p s c) {#} k = pm g p {#} (TI s c # k)"
  "wfg g \<Longrightarrow> wfPat g p \<Longrightarrow>
   pm g (listDeriv g p toks c) {#} k = (k = [] \<and> pm g p {#} (map (\<lambda>t. TI t c) toks))"
proof (induction g p s c and g p toks c arbitrary: k and k rule: textDeriv_listDeriv.induct)
  case (2 g l r s ctx)
  then show ?case by (simp add: pm_inter_Cons) (auto simp: pm_inter)
next
  case (3 g l r s ctx)
  then show ?case by (simp add: pm_group_Cons Let_def nullable_pm) (auto simp: pm_group)
next
  case (5 g p s ctx)
  then show ?case by (auto simp: pm_one_first pm_group simp del: choice_pm)
next
  case (7 g dt v c s ctx)
  then show ?case by (auto simp: valueOk_def split: option.splits)
next
  case (8 g dt ps ex s ctx)
  then show ?case by (auto simp: dataOk_def dest: exc_text [of g _ s ctx] split: option.splits)
next
  case (9 g p s ctx)
  then show ?case by simp
next
  case (10 g r s ctx)
  then show ?case using wf_expand [of g "Ref r"] pm_expand [of g "Ref r"] by (simp del: pm_simps)
next
  case (16 g p ctx)
  then show ?case by (auto simp: nullable_pm)
next
  case (17 g p tok toks ctx)
  then show ?case by (simp add: text_wf)
qed auto

lemma text_st: "wfg g \<Longrightarrow> st p \<Longrightarrow> st (textDeriv g p s c)"
proof (induction p rule: st.induct)
  case (1 l r)
  then show ?case by (auto intro!: st_after text_plain)
next
  case (2 l r)
  then show ?case by (auto intro: st_choice)
qed (simp_all add: plain_st text_plain del: textDeriv.simps)

lemma text_sm:
  assumes "wfg g"
  shows "st p \<Longrightarrow> wfPat g p \<Longrightarrow> sm g (textDeriv g p s c) {#} (k # ks) = sm g p {#} ((TI s c # k) # ks)"
proof (induction p rule: st.induct)
  case (1 l r)
  then show ?case using text_pm(1) [OF assms, of l s c k] by (auto split: list.splits)
next
  case (2 l r)
  then show ?case by simp
qed (simp_all add: sm_plain text_plain text_pm assms del: textDeriv.simps sm.simps)

text \<open>On a string pattern, what a string leaves is nothing or nullable.\<close>

lemma list_result: "listDeriv g p toks c = Empty \<or> listDeriv g p toks c = NotAllowed"
  by (induction toks arbitrary: p) auto

lemma strOk_text:
  "wfg g \<Longrightarrow> wfPat g p \<Longrightarrow> strOk g p \<Longrightarrow>
    textDeriv g p s c = NotAllowed \<or> pm g (textDeriv g p s c) {#} []"
proof (induction g p rule: strOk.induct)
  case (1 g l r)
  then show ?case by (auto simp: choice_NotAllowed_iff)
next
  case (2 g l r)
  then show ?case
    by (auto simp: Let_def pm_group nullable_pm choice_NotAllowed_iff group_def)
next
  case (3 g l r)
  then show ?case
    by (auto simp: pm_inter nullable_pm choice_NotAllowed_iff interleave_def)
next
  case (4 g p)
  then show ?case by (auto simp: pm_group moreOf_def group_def simp del: choice_pm)
next
  case (6 g r)
  then show ?case by (auto simp: expand.simps(1) text_expand wfg_def split: option.splits)
next
  case (15 g p)
  then show ?case using list_result [of g p "splitTokens s" c] by auto
qed (auto split: option.splits)

lemma valueMatch_pm:
  assumes "wfg g" "wfPat g p" "strOk g p"
  shows "valueMatch g p s c \<longleftrightarrow> pm g p {#} [TI s c] \<or> whitespaceOnly s \<and> pm g p {#} []"
proof -
  have "textDeriv g p s c \<noteq> NotAllowed \<longleftrightarrow> pm g p {#} [TI s c]"
    using strOk_text [OF assms, of s c] text_pm(1) [OF assms(1,2), of s c "[]"] by auto
  then show ?thesis
    by (auto simp: valueMatch_def isNotAllowed_def nullable_pm assms split: pattern.splits)
qed

subsection \<open>Attributes\<close>

lemma noAttr_pm: "noAttr g p \<Longrightarrow> pm g p A k \<Longrightarrow> A = {#}"
proof (induction g p arbitrary: A k rule: noAttr.induct)
  case (5 g p)
  then obtain ss where "\<forall>(B, j) \<in> set ss. pm g p B j" "A = sum_list (map fst ss)"
    unfolding pm_one_segments by blast
  with 5 have "\<forall>B \<in> set (map fst ss). B = {#}" by fastforce
  then have "sum_list (map fst ss) = {#}" by (induction ss) auto
  with \<open>A = _\<close> show ?case by simp
next
  case (7 g r)
  then show ?case by auto
qed (fastforce simp: pm_group pm_inter)+

text \<open>
  An attribute that a repetition matches can be matched by its first iteration, which then
  matches nothing else; this is what the restriction on repeated attributes buys.
\<close>

lemma add_mset_union_cases:
  assumes "add_mset a A = B + C"
  obtains B' where "B = add_mset a B'" "A = B' + C" | C' where "C = add_mset a C'" "A = B + C'"
proof -
  have "a \<in># B + C" using assms [symmetric] by simp
  then consider "a \<in># B" | "a \<in># C" by auto
  then show thesis
  proof cases
    case 1
    then obtain B' where "B = add_mset a B'" by (metis mset_add)
    with assms that(1) show ?thesis by simp
  next
    case 2
    then obtain C' where "C = add_mset a C'" by (metis mset_add)
    with assms that(2) show ?thesis by simp
  qed
qed

lemma one_first:
  assumes first: "\<And>A k. pm g p (add_mset a A) k \<Longrightarrow>
      \<exists>A1 A2. A = A1 + A2 \<and> pm g p (add_mset a A1) [] \<and> moreOf g p A2 k"
  shows "pm g (OneOrMore p) (add_mset a A) k \<Longrightarrow>
      \<exists>A1 A2. A = A1 + A2 \<and> pm g p (add_mset a A1) [] \<and> moreOf g p A2 k"
proof (induction "OneOrMore p" "add_mset a A" k arbitrary: A rule: pm.induct)
  case (One k)
  show ?case by (rule first) (rule One(1))
next
  case (More X j Y k)
  from More(5) [symmetric] show ?case
  proof (cases rule: add_mset_union_cases)
    case (1 X')
    then obtain A1 A2 where "X' = A1 + A2" "pm g p (add_mset a A1) []" "moreOf g p A2 j"
      using first More(1) by blast
    moreover have "moreOf g p Y k" using More(3) by (simp add: moreOf_def)
    ultimately show ?thesis
      using 1 by (intro exI [of _ A1] exI [of _ "A2 + Y"]) (simp add: moreOf_append)
  next
    case (2 Y')
    then obtain A1 A2 where "Y' = A1 + A2" "pm g p (add_mset a A1) []" "moreOf g p A2 k"
      using More(4) [of Y'] by auto
    moreover have "moreOf g p X j" using More(1) by (auto simp: moreOf_def intro: pm.One)
    ultimately show ?thesis
      using 2 by (intro exI [of _ A1] exI [of _ "X + A2"]) (simp add: moreOf_append)
  qed
qed

lemma aSimple_first:
  "aSimple g p \<Longrightarrow> pm g p (add_mset a A) k \<Longrightarrow>
   \<exists>A1 A2. A = A1 + A2 \<and> pm g p (add_mset a A1) [] \<and> moreOf g p A2 k"
proof (induction g p arbitrary: A k rule: aSimple.induct)
  case (1 g l r)
  have l: "moreOf g l B j \<Longrightarrow> moreOf g (Choice l r) B j" for B j
    unfolding moreOf_segments by (auto simp: split_beta)
  have r: "moreOf g r B j \<Longrightarrow> moreOf g (Choice l r) B j" for B j
    unfolding moreOf_segments by (auto simp: split_beta)
  from 1 show ?case using l r by simp blast
next
  case (2 g p)
  have lift: "moreOf g (OneOrMore p) B j" if "moreOf g p B j" for B j
    using that by (auto simp: moreOf_def intro: pm.One)
  obtain A1 A2 where "A = A1 + A2" "pm g p (add_mset a A1) []" "moreOf g p A2 k"
    using one_first [of g p a A k] "2.IH" "2.prems" by auto
  then show ?case
    using lift by (intro exI [of _ A1] exI [of _ A2]) (auto intro: pm.One)
next
  case (3 g l r)
  then show ?case using noAttr_pm [of g "Interleave l r" "add_mset a A" k] by simp
next
  case (4 g l r)
  then show ?case using noAttr_pm [of g "Group l r" "add_mset a A" k] by simp
next
  case (6 g r)
  then obtain q where q: "defn g r = Some q" by auto
  have "moreOf g (Ref r) = moreOf g q"
    using q by (intro ext) (simp add: moreOf_def pm_one_cong [of g "Ref r" q])
  with 6 q show ?case by simp
next
  case (7 g i q)
  have "moreOf g (Static i q) = moreOf g q"
    by (intro ext) (simp add: moreOf_def pm_one_cong [of g "Static i q" q])
  with 7 show ?case by simp
qed (auto simp: moreOf_def)

lemma pm_group_add:
  "pm g (Group l r) (add_mset a A) k \<longleftrightarrow>
   (\<exists>B C i j. A = B + C \<and> k = i @ j \<and> pm g l (add_mset a B) i \<and> pm g r C j) \<or>
   (\<exists>B C i j. A = B + C \<and> k = i @ j \<and> pm g l B i \<and> pm g r (add_mset a C) j)"
  (is "?L \<longleftrightarrow> ?R")
proof
  assume ?L
  then obtain X i Y j where "add_mset a A = X + Y" "k = i @ j" "pm g l X i" "pm g r Y j"
    by (auto simp: pm_group)
  then show ?R by (elim add_mset_union_cases) blast+
next
  assume ?R
  then show ?L
  proof (elim disjE exE conjE)
    fix B C i j assume "A = B + C" "k = i @ j" "pm g l (add_mset a B) i" "pm g r C j"
    then show ?L using pm.Group [of g l "add_mset a B" i r C j] by simp
  next
    fix B C i j assume "A = B + C" "k = i @ j" "pm g l B i" "pm g r (add_mset a C) j"
    then show ?L using pm.Group [of g l B i r "add_mset a C" j] by simp
  qed
qed

lemma pm_inter_add:
  "pm g (Interleave l r) (add_mset a A) k \<longleftrightarrow>
   (\<exists>B C i j. A = B + C \<and> k \<in> shuffles i j \<and> pm g l (add_mset a B) i \<and> pm g r C j) \<or>
   (\<exists>B C i j. A = B + C \<and> k \<in> shuffles i j \<and> pm g l B i \<and> pm g r (add_mset a C) j)"
  (is "?L \<longleftrightarrow> ?R")
proof
  assume ?L
  then obtain X i Y j where "add_mset a A = X + Y" "k \<in> shuffles i j" "pm g l X i" "pm g r Y j"
    by (auto simp: pm_inter)
  then show ?R by (elim add_mset_union_cases) blast+
next
  assume ?R
  then show ?L
  proof (elim disjE exE conjE)
    fix B C i j assume "A = B + C" "k \<in> shuffles i j" "pm g l (add_mset a B) i" "pm g r C j"
    then show ?L using pm.Interleave [of g l "add_mset a B" i r C j k] by simp
  next
    fix B C i j assume "A = B + C" "k \<in> shuffles i j" "pm g l B i" "pm g r (add_mset a C) j"
    then show ?L using pm.Interleave [of g l B i r "add_mset a C" j k] by simp
  qed
qed

lemma pm_one_add:
  assumes "aSimple g p"
  shows "pm g (OneOrMore p) (add_mset a A) k \<longleftrightarrow>
    (\<exists>B C i j. A = B + C \<and> k = i @ j \<and> pm g p (add_mset a B) i \<and> moreOf g p C j)" (is "?L \<longleftrightarrow> ?R")
proof
  assume ?L
  then obtain A1 A2 where "A = A1 + A2" "pm g p (add_mset a A1) []" "moreOf g p A2 k"
    using one_first [of g p a A k] aSimple_first [OF assms, of a] by blast
  then show ?R by (intro exI [of _ A1] exI [of _ A2] exI [of _ "[]"] exI [of _ k]) simp
next
  assume ?R
  then obtain B C i j where "A = B + C" "k = i @ j" "pm g p (add_mset a B) i" "moreOf g p C j" by blast
  then show ?L
    unfolding pm_one_unfold
    by (intro exI [of _ "add_mset a B"] exI [of _ C] exI [of _ i] exI [of _ j]) simp
qed

lemma att_plain: "wfg g \<Longrightarrow> plain p \<Longrightarrow> plain (attDeriv g p a c)"
proof (induction g p a c rule: attDeriv.induct)
  case (1 g r a ctx)
  then show ?case using plain_expand [of g "Ref r"] by simp
qed auto

lemma att_wf: "wfg g \<Longrightarrow> wfPat g p \<Longrightarrow> wfPat g (attDeriv g p a c)"
proof (induction g p a c rule: attDeriv.induct)
  case (1 g r a ctx)
  then show ?case using wf_expand [of g "Ref r"] by simp
qed auto

lemma att_pm:
  "wfg g \<Longrightarrow> wfPat g p \<Longrightarrow> pm g (attDeriv g p (n, v) c) A k = pm g p (add_mset (n, v, c) A) k"
proof (induction g p "(n, v)" c arbitrary: A k rule: attDeriv.induct)
  case (1 g r c)
  then show ?case using wf_expand [of g "Ref r"] pm_expand [of g "Ref r"] by (simp del: pm_simps)
next
  case (2 g i q c)
  then show ?case using noAttr_pm [of g q "add_mset (n, v, c) A" k] by auto
next
  case (5 g l r c)
  then show ?case by (simp add: pm_group_add) (auto simp: pm_group)
next
  case (6 g l r c)
  then show ?case by (simp add: pm_inter_add) (auto simp: pm_inter)
next
  case (7 g p c)
  then show ?case by (simp add: pm_one_add del: choice_pm) (auto simp: pm_group simp del: choice_pm)
next
  case (8 g nc p c)
  then show ?case by (auto simp: valueMatch_pm)
qed auto

lemma att_st: "wfg g \<Longrightarrow> st p \<Longrightarrow> st (attDeriv g p a c)"
proof (induction p rule: st.induct)
  case (1 l r)
  then show ?case by (auto intro!: st_after att_plain)
next
  case (2 l r)
  then show ?case by (auto intro: st_choice)
qed (simp_all add: plain_st att_plain del: attDeriv.simps)

lemma att_sm:
  assumes "wfg g"
  shows "st p \<Longrightarrow> wfPat g p \<Longrightarrow> sm g (attDeriv g p (n, v) c) A ks = sm g p (add_mset (n, v, c) A) ks"
proof (induction p rule: st.induct)
  case (1 l r)
  then show ?case using att_pm [OF assms, of l n v c A] by (auto split: list.splits)
next
  case (2 l r)
  then show ?case by simp
qed (simp_all add: sm_plain att_plain att_pm assms del: attDeriv.simps sm.simps)

subsection \<open>The end of the start tag\<close>

lemma close_same: "\<not> snd (startTagCloseDerivCh g p) \<Longrightarrow> fst (startTagCloseDerivCh g p) = p"
  by (induction g p rule: startTagCloseDerivCh.induct) (auto split: prod.splits if_splits)

lemma noAttr_aSimple: "noAttr g p \<Longrightarrow> aSimple g p"
  by (induction g p rule: noAttr.induct) (auto split: option.splits)

lemma close_noAttr_unchanged:
  "wfg g \<Longrightarrow> wfPat g p \<Longrightarrow> plain p \<Longrightarrow> \<not> snd (startTagCloseDerivCh g p) \<Longrightarrow> noAttr g p"
proof (induction g p rule: startTagCloseDerivCh.induct)
  case (1 g r)
  then show ?case
    using plain_expand [of g "Ref r"] wf_expand [of g "Ref r"] noAttr_expand [of g "Ref r"]
    by (simp split: prod.splits if_splits del: noAttr.simps)
qed (auto split: prod.splits if_splits)

text \<open>Everything the closing derivative keeps of a schema pattern, in one induction.\<close>

definition closed_ok :: "'c grammar \<Rightarrow> 'c pattern \<Rightarrow> 'c pattern \<Rightarrow> bool" where
  "closed_ok g p q \<longleftrightarrow> plain q \<and> wfPat g q \<and> noAttr g q \<and> (\<forall>k. pm g q {#} k = pm g p {#} k)"

lemma closed_ok_cons:
  "closed_ok g l l' \<Longrightarrow> closed_ok g r r' \<Longrightarrow> closed_ok g (Choice l r) (choice l' r')"
  "closed_ok g l l' \<Longrightarrow> closed_ok g r r' \<Longrightarrow> closed_ok g (Group l r) (group l' r')"
  "closed_ok g l l' \<Longrightarrow> closed_ok g r r' \<Longrightarrow> closed_ok g (Interleave l r) (interleave l' r')"
  "closed_ok g l l' \<Longrightarrow> closed_ok g (OneOrMore l) (oneOrMore l')"
proof -
  have ch: "noAttr g a \<Longrightarrow> noAttr g b \<Longrightarrow> noAttr g (choice a b)" for a b
    by (rule choice_closed) auto
  show "closed_ok g l l' \<Longrightarrow> closed_ok g r r' \<Longrightarrow> closed_ok g (Choice l r) (choice l' r')"
    by (simp add: closed_ok_def ch)
  show "closed_ok g l l' \<Longrightarrow> closed_ok g r r' \<Longrightarrow> closed_ok g (Group l r) (group l' r')"
    by (simp add: closed_ok_def pm_group) (simp add: group_def)
  show "closed_ok g l l' \<Longrightarrow> closed_ok g r r' \<Longrightarrow> closed_ok g (Interleave l r) (interleave l' r')"
    by (simp add: closed_ok_def pm_inter) (simp add: interleave_def)
  have "pm g (OneOrMore l') {#} k = pm g (OneOrMore l) {#} k" if "closed_ok g l l'" for k
  proof -
    have "(\<forall>(B, j) \<in> set ss. pm g l' B j) = (\<forall>(B, j) \<in> set ss. pm g l B j)"
      if "{#} = sum_list (map fst ss)" for ss
    proof -
      have "\<forall>s \<in> set ss. fst s = {#}" using that by (induction ss) auto
      with \<open>closed_ok g l l'\<close> show ?thesis by (force simp: closed_ok_def)
    qed
    then show ?thesis unfolding pm_one_segments by blast
  qed
  then show "closed_ok g l l' \<Longrightarrow> closed_ok g (OneOrMore l) (oneOrMore l')"
    by (auto simp: closed_ok_def noAttr_aSimple) (auto simp: oneOrMore_def)
qed

lemma close_ok:
  "wfg g \<Longrightarrow> wfPat g p \<Longrightarrow> plain p \<Longrightarrow> closed_ok g p (fst (startTagCloseDerivCh g p))"
proof (induction g p rule: startTagCloseDerivCh.induct)
  case (1 g r)
  have same: "\<not> snd (startTagCloseDerivCh g (expand g (Ref r))) \<Longrightarrow> noAttr g (Ref r)"
    using 1 close_noAttr_unchanged [of g "expand g (Ref r)"] plain_expand [of g "Ref r"]
      wf_expand [of g "Ref r"] noAttr_expand [of g "Ref r"] by (simp del: noAttr.simps)
  have "closed_ok g (expand g (Ref r)) (fst (startTagCloseDerivCh g (expand g (Ref r))))"
    using 1 plain_expand [of g "Ref r"] wf_expand [of g "Ref r"] by simp
  then have "closed_ok g (Ref r) (fst (startTagCloseDerivCh g (expand g (Ref r))))"
    unfolding closed_ok_def pm_expand .
  with same show ?case
    by (cases "startTagCloseDerivCh g (expand g (Ref r))")
      (auto simp: closed_ok_def simp del: noAttr.simps pm_simps)
next
  case (2 g i p)
  obtain q b where q: "startTagCloseDerivCh g p = (q, b)" by (cases "startTagCloseDerivCh g p")
  show ?case
  proof (cases "sAttrFree i")
    case True
    then show ?thesis using 2(2-4) by (simp add: closed_ok_def)
  next
    case False
    have "\<not> snd (startTagCloseDerivCh g p) \<Longrightarrow> noAttr g p"
      using 2(2-4) False close_noAttr_unchanged [of g p] by simp
    moreover have "closed_ok g p (fst (startTagCloseDerivCh g p))" using 2 False by simp
    ultimately show ?thesis using 2(2-4) False q by (auto simp: closed_ok_def)
  qed
next
  case (4 g l r)
  then show ?case
    using closed_ok_cons(1) [of g l _ r] close_same [of g l] close_same [of g r]
    by (auto split: prod.splits simp: closed_ok_def)
next
  case (5 g l r)
  then show ?case
    using closed_ok_cons(2) [of g l _ r] close_same [of g l] close_same [of g r]
    by (auto split: prod.splits simp: closed_ok_def)
next
  case (6 g l r)
  then show ?case
    using closed_ok_cons(3) [of g l _ r] close_same [of g l] close_same [of g r]
    by (auto split: prod.splits simp: closed_ok_def)
next
  case (7 g p)
  then show ?case
    using closed_ok_cons(4) [of g p] close_same [of g p]
    by (auto split: prod.splits simp: closed_ok_def)
qed (auto simp: closed_ok_def)

lemma close_state:
  "wfg g \<Longrightarrow> wfPat g p \<Longrightarrow> st p \<Longrightarrow>
   st (startTagCloseDeriv g p) \<and> wfPat g (startTagCloseDeriv g p) \<and>
   (\<forall>ks. sm g (startTagCloseDeriv g p) {#} ks = sm g p {#} ks)"
  unfolding startTagCloseDeriv_def
proof (induction p rule: st.induct)
  case (1 l r)
  have "closed_ok g l (fst (startTagCloseDerivCh g l))" using 1 by (intro close_ok) auto
  with 1 show ?case
    by (cases "startTagCloseDerivCh g l")
      (auto simp: closed_ok_def intro: st_after split: list.splits)
next
  case (2 l r)
  then show ?case
    by (cases "startTagCloseDerivCh g l"; cases "startTagCloseDerivCh g r") (auto intro: st_choice)
qed (use close_ok in \<open>force simp: closed_ok_def sm_plain plain_st simp del: startTagCloseDerivCh.simps\<close>)+

subsection \<open>The end tag\<close>

text \<open>A state inside an element: every alternative has a continuation.\<close>

lemma aft_kept:
  "aft R p \<Longrightarrow> wfg g \<Longrightarrow> aft R (textDeriv g p s c)"
  "aft R p \<Longrightarrow> wfg g \<Longrightarrow> aft R (attDeriv g p a c)"
  "aft R p \<Longrightarrow> wfg g \<Longrightarrow> wfPat g p \<Longrightarrow> aft R (startTagCloseDeriv g p)"
proof -
  show "aft R p \<Longrightarrow> wfg g \<Longrightarrow> aft R (textDeriv g p s c)"
    by (induction R p rule: aft.induct) (auto simp: after_def text_plain intro: aft_choice)
  show "aft R p \<Longrightarrow> wfg g \<Longrightarrow> aft R (attDeriv g p a c)"
    by (induction R p rule: aft.induct) (auto simp: after_def att_plain intro: aft_choice)
  show "aft R p \<Longrightarrow> wfg g \<Longrightarrow> wfPat g p \<Longrightarrow> aft R (startTagCloseDeriv g p)"
    unfolding startTagCloseDeriv_def
  proof (induction R p rule: aft.induct)
    case (2 R l r)
    then have "closed_ok g l (fst (startTagCloseDerivCh g l))" by (intro close_ok) auto
    with 2 show ?case
      by (cases "startTagCloseDerivCh g l") (auto simp: closed_ok_def after_def)
  next
    case (3 R l r)
    then show ?case
      by (cases "startTagCloseDerivCh g l"; cases "startTagCloseDerivCh g r") (auto intro: aft_choice)
  qed auto
qed

lemma end_ok:
  assumes "wfg g" "\<And>x. R x \<Longrightarrow> st x"
  shows "aft R p \<Longrightarrow> wfPat g p \<Longrightarrow>
    st (endTagDeriv g p) \<and> wfPat g (endTagDeriv g p) \<and>
    (\<forall>k ks. sm g (endTagDeriv g p) {#} (k # ks) = sm g p {#} ([] # k # ks))"
  using assms
proof (induction R p rule: aft.induct)
  case (2 R l r)
  then show ?case using nullable_pm [of g l] by auto
next
  case (3 R l r)
  then show ?case by (auto intro: st_choice)
qed auto

end
