(* ===== verification/RngValidate.thy ===== *)
theory RngValidate
  imports RngText
begin

text \<open>
  The validator of \<open>relaxng/validate.go\<close>: one walk over the document that carries the
  pattern, the two limits and the account of the deepest failure. The memo tables, and the
  buffers the walk reuses, are left out; they hold answers of the derivatives.
\<close>

subsection \<open>State\<close>

record vstate =
  maxDepth :: int
  maxPattern :: int
  tooDeep :: bool
  tooBig :: bool
  deepPath :: string
  vdepth :: int
  deepest :: string
  why :: string
  vpath :: "string list"

fun joinWith :: "string \<Rightarrow> string list \<Rightarrow> string" where
  "joinWith sep [] = []"
| "joinWith sep [s] = s"
| "joinWith sep (s # t # ss) = s @ sep @ joinWith sep (t # ss)"

definition tailPath :: "string list \<Rightarrow> string \<Rightarrow> string" where
  "tailPath segs0 lst =
     (let segs = segs0 @ [lst] in
      if length segs \<le> 4 then ''/'' @ joinWith ''/'' segs
      else ''.../'' @ joinWith ''/'' (drop (length segs - 4) segs))"

definition vAt :: "vstate \<Rightarrow> string" where
  "vAt v = ''/'' @ joinWith ''/'' (vpath v)"

definition vNote :: "vstate \<Rightarrow> string \<Rightarrow> vstate" where
  "vNote v msg = (if length (vAt v) \<ge> length (deepest v) then v\<lparr>deepest := vAt v, why := msg\<rparr> else v)"

subsection \<open>Text and attributes\<close>

definition vTextDeriv :: "'c grammar \<Rightarrow> 'c pattern \<Rightarrow> string \<Rightarrow> 'c \<Rightarrow> 'c pattern" where
  "vTextDeriv g p s ctx =
     (if whitespaceOnly s \<and> isNotAllowed (textDeriv g p s ctx) then p else textDeriv g p s ctx)"

fun attsDeriv ::
  "'c grammar \<Rightarrow> vstate \<Rightarrow> 'c pattern \<Rightarrow> (qname \<times> string) list \<Rightarrow> 'c \<Rightarrow> string \<Rightarrow> vstate \<times> 'c pattern" where
  "attsDeriv g v p [] ctx el = (v, p)"
| "attsDeriv g v p (a # as) ctx el =
     (if maxPattern v \<ge> 0 \<and> patternSize p > maxPattern v then
        (v\<lparr>tooBig := True, deepPath := tailPath (vpath v) el\<rparr>, NotAllowed)
      else attsDeriv g v (attDeriv g p a ctx) as ctx el)"

subsection \<open>Nodes and children\<close>

definition isText :: "'c node \<Rightarrow> bool" where
  "isText k = (case k of TextN _ \<Rightarrow> True | _ \<Rightarrow> False)"

fun textOf :: "'c node \<Rightarrow> string" where
  "textOf (TextN s) = s"
| "textOf _ = []"

text \<open>The deferred pops of \<open>childDeriv\<close>.\<close>

definition leave :: "vstate \<Rightarrow> vstate" where
  "leave v = v\<lparr>vdepth := vdepth v - 1, vpath := butlast (vpath v)\<rparr>"

lemma size_list_filter: "size_list f (filter P xs) \<le> size_list f xs"
  by (induction xs) auto

lemma size_list_dropWhile: "size_list f (dropWhile P xs) \<le> size_list f xs"
  by (induction xs) auto

lemma size_dropWhile_run:
  "2 * size_list f (dropWhile P xs) \<le> Suc (2 * m + 2 * size_list f xs)"
  using size_list_dropWhile [of f P xs] by simp

function childDeriv :: "'c grammar \<Rightarrow> vstate \<Rightarrow> 'c pattern \<Rightarrow> 'c \<Rightarrow> 'c node \<Rightarrow> vstate \<times> 'c pattern"
and childrenDeriv :: "'c grammar \<Rightarrow> vstate \<Rightarrow> 'c pattern \<Rightarrow> 'c \<Rightarrow> 'c node list \<Rightarrow> vstate \<times> 'c pattern"
and childrenLoop ::
  "'c grammar \<Rightarrow> vstate \<Rightarrow> 'c pattern \<Rightarrow> 'c \<Rightarrow> bool \<Rightarrow> 'c node list \<Rightarrow> vstate \<times> 'c pattern" where
  "childDeriv g v p c (TextN s) = (v, vTextDeriv g p s c)"
| "childDeriv g v p c OtherN = (v, p)"
| "childDeriv g v p c (ElemN n ec as kids) =
     (if maxDepth v \<ge> 0 \<and> vdepth v \<ge> maxDepth v then
        (v\<lparr>tooDeep := True, deepPath := tailPath (vpath v) (qlocal n)\<rparr>, NotAllowed)
      else
        let v1 = v\<lparr>vdepth := vdepth v + 1, vpath := vpath v @ [qlocal n]\<rparr> in
        if maxPattern v1 \<ge> 0 \<and> patternSize p > maxPattern v1 then
          (leave (v1\<lparr>tooBig := True, deepPath := tailPath (vpath v1) (qlocal n)\<rparr>), NotAllowed)
        else
          let p1 = startTagOpenDeriv g p (bare n) in
          if isNotAllowed p1 then
            (leave (vNote v1 (''element '' @ qlocal n @ '' is not permitted here'')), NotAllowed)
          else
            let (v2, p2) = attsDeriv g v1 p1 (elementAttrs as) ec (qlocal n) in
            if isNotAllowed p2 then
              (leave (vNote v2 (''the attributes of '' @ qlocal n @ '' do not match'')), NotAllowed)
            else
              let p3 = startTagCloseDeriv g p2 in
              if isNotAllowed p3 then
                (leave (vNote v2 (''element '' @ qlocal n @ '' is missing a required attribute'')), NotAllowed)
              else
                let (v4, p4) = childrenDeriv g v2 p3 ec kids in
                if isNotAllowed p4 then (leave v4, NotAllowed)
                else
                  let p5 = endTagDeriv g p4 in
                  (leave (if isNotAllowed p5
                          then vNote v4 (''the content of '' @ qlocal n @ '' is incomplete'') else v4), p5))"
| "childrenDeriv g v p c kids =
     (let ks = contentChildren kids in
      if ks = [] then
        (v, if nullable g p then p
            else
              let d = textDeriv g p [] c in
              if \<not> isNotAllowed (endTagDeriv g d) then d else p)
      else childrenLoop g v p c (list_ex isElem ks) ks)"
| "childrenLoop g v p c hasElem [] = (v, p)"
| "childrenLoop g v p c hasElem (k # ks) =
     (if isText k then
        let s = textOf k @ concat (map textOf (takeWhile isText ks)); rest = dropWhile isText ks in
        if \<not> whitespaceOnly s then
          let p' = textDeriv g p s c in
          if isNotAllowed p' then (v, NotAllowed) else childrenLoop g v p' c hasElem rest
        else if hasElem then childrenLoop g v p c hasElem rest
        else
          let p' = choice p (textDeriv g p s c) in
          if isNotAllowed p' then (v, NotAllowed) else childrenLoop g v p' c hasElem rest
      else
        let (v', p') = childDeriv g v p c k in
        if isNotAllowed p' then (v', NotAllowed) else childrenLoop g v' p' c hasElem ks)"
  by pat_completeness auto
termination
proof (relation "measures
   [\<lambda>x. case x of Inl (g, v, p, c, k) \<Rightarrow> 2 * size k
        | Inr (Inl (g, v, p, c, ks)) \<Rightarrow> 2 * size_list size ks + 1
        | Inr (Inr (g, v, p, c, h, ks)) \<Rightarrow> 2 * size_list size ks]", goal_cases)
  case 1
  then show ?case by simp
next
  case (3 g v p c kids ks)
  then show ?case using size_list_filter [of size _ kids] by (simp add: contentChildren_def less_Suc_eq_le)
qed (auto simp: less_Suc_eq_le size_dropWhile_run)

subsection \<open>A run\<close>

record validateOptions =
  oMaxDepth :: int
  oMaxPatternSize :: int

datatype vError = NoRoot | TooBig string int | TooDeep string int | Invalid string string

definition DefaultMaxDepth :: int where "DefaultMaxDepth = 1000"
definition DefaultMaxPatternSize :: int where "DefaultMaxPatternSize = 100000"

text \<open>The root element: the first one among the document's children.\<close>

definition rootOf :: "'c node list \<Rightarrow> 'c node option" where
  "rootOf kids = find isElem kids"

fun nodeLocal :: "'c node \<Rightarrow> string" where
  "nodeLocal (ElemN n _ _ _) = qlocal n"
| "nodeLocal _ = []"

definition ValidateWithOptions ::
  "'c grammar \<Rightarrow> 'c pattern \<Rightarrow> 'c \<Rightarrow> validateOptions \<Rightarrow> 'c node list \<Rightarrow> vError option" where
  "ValidateWithOptions g start c opts doc =
     (case rootOf doc of
        None \<Rightarrow> Some NoRoot
      | Some root \<Rightarrow>
          let md = (if oMaxDepth opts = 0 then DefaultMaxDepth else oMaxDepth opts);
              mp = (if oMaxPatternSize opts = 0 then DefaultMaxPatternSize else oMaxPatternSize opts);
              (v, p) = childDeriv g
                \<lparr>maxDepth = md, maxPattern = mp, tooDeep = False, tooBig = False, deepPath = [],
                 vdepth = 0, deepest = [], why = [], vpath = []\<rparr> start c root
          in
          if tooBig v then Some (TooBig (deepPath v) mp)
          else if tooDeep v then Some (TooDeep (deepPath v) md)
          else if \<not> nullable g p then
            Some (Invalid (if deepest v = [] then ''/'' @ nodeLocal root else deepest v) (why v))
          else None)"

end
