(* ===== verification/RngSound.thy ===== *)
theory RngSound
  imports RngValidate
begin

text \<open>
  The validator accepts only documents the schema describes, and, within its limits and away
  from empty elements, accepts all of them. Empty elements are where it gives up an
  alternative: see \<open>empty_element_rejected\<close>.
\<close>

subsection \<open>What a step keeps\<close>

lemma isNotAllowed_iff [simp]: "isNotAllowed p \<longleftrightarrow> p = NotAllowed"
  by (cases p) (auto simp: isNotAllowed_def)

definition keeps :: "'c grammar \<Rightarrow> 'c pattern \<Rightarrow> 'c pattern \<Rightarrow> bool" where
  "keeps g p p' \<longleftrightarrow> st p' \<and> wfPat g p' \<and> (\<forall>R. (\<forall>x. R x \<longrightarrow> st x) \<longrightarrow> aft R p \<longrightarrow> aft R p')"

lemma keeps_refl: "st p \<Longrightarrow> wfPat g p \<Longrightarrow> keeps g p p"
  by (simp add: keeps_def)

lemma keeps_trans: "keeps g p q \<Longrightarrow> keeps g q r \<Longrightarrow> keeps g p r"
  by (simp add: keeps_def)

lemma keeps_NotAllowed: "keeps g p NotAllowed"
  by (simp add: keeps_def)

lemma keeps_text: "wfg g \<Longrightarrow> st p \<Longrightarrow> wfPat g p \<Longrightarrow> keeps g p (textDeriv g p s c)"
  by (simp add: keeps_def text_st text_wf aft_kept(1))

lemma keeps_choice: "keeps g p a \<Longrightarrow> keeps g p b \<Longrightarrow> keeps g p (choice a b)"
  by (simp add: keeps_def st_choice aft_choice)

lemma keeps_att: "wfg g \<Longrightarrow> st p \<Longrightarrow> wfPat g p \<Longrightarrow> keeps g p (attDeriv g p a c)"
  by (simp add: keeps_def att_st att_wf aft_kept(2))

lemma keeps_close: "wfg g \<Longrightarrow> st p \<Longrightarrow> wfPat g p \<Longrightarrow> keeps g p (startTagCloseDeriv g p)"
  using close_state [of g p] by (simp add: keeps_def aft_kept(3))

text \<open>The limits of a run and the current depth, which every step restores.\<close>

definition lims :: "vstate \<Rightarrow> int \<times> int \<times> int" where
  "lims v = (maxDepth v, maxPattern v, vdepth v)"

lemma lims_note [simp]: "lims (vNote v msg) = lims v"
  by (simp add: lims_def vNote_def)

definition unbounded :: "vstate \<Rightarrow> nat \<Rightarrow> bool" where
  "unbounded v d \<longleftrightarrow> maxPattern v < 0 \<and> (maxDepth v < 0 \<or> vdepth v + int d \<le> maxDepth v)"

lemma unbounded_lims: "lims v = lims v' \<Longrightarrow> unbounded v d = unbounded v' d"
  by (simp add: lims_def unbounded_def)

fun ht :: "'c node \<Rightarrow> nat" where
  "ht (ElemN n c as kids) = Suc (foldr max (map ht kids) 0)"
| "ht _ = 0"

fun noEmpty :: "'c node \<Rightarrow> bool" where
  "noEmpty (ElemN n c as kids) = (contentChildren kids \<noteq> [] \<and> (\<forall>k \<in> set kids. noEmpty k))"
| "noEmpty _ = True"

lemma foldr_max_le: "x \<in> set xs \<Longrightarrow> x \<le> foldr max xs (0::nat)"
  by (induction xs) auto

lemma unbounded_mono: "unbounded v d \<Longrightarrow> d' \<le> d \<Longrightarrow> unbounded v d'"
  by (auto simp: unbounded_def)

subsection \<open>Attributes\<close>

lemma attsDeriv_ok:
  assumes "wfg g" "st p" "wfPat g p" "attsDeriv g v p as c el = (v', p')"
  shows "keeps g p p' \<and> lims v' = lims v \<and>
    (\<forall>A ks. sm g p' A ks \<longrightarrow> sm g p (mset (map (\<lambda>(n, x). (n, x, c)) as) + A) ks) \<and>
    (maxPattern v < 0 \<longrightarrow>
      (\<forall>A ks. sm g p (mset (map (\<lambda>(n, x). (n, x, c)) as) + A) ks \<longrightarrow> sm g p' A ks))"
  using assms(2-4)
proof (induction as arbitrary: p v)
  case Nil
  then show ?case by (simp add: keeps_refl)
next
  case (Cons a as)
  obtain n x where a: "a = (n, x)" by (cases a)
  show ?case
  proof (cases "maxPattern v \<ge> 0 \<and> patternSize p > maxPattern v")
    case True
    with Cons.prems show ?thesis by (auto simp: keeps_NotAllowed lims_def)
  next
    case False
    note k = keeps_att [OF assms(1) Cons.prems(1,2), of a c]
    have "attsDeriv g v (attDeriv g p a c) as c el = (v', p')" using Cons.prems(3) False by simp
    from Cons.IH [OF _ _ this] k
    have ih: "keeps g (attDeriv g p a c) p' \<and> lims v' = lims v \<and>
      (\<forall>A ks. sm g p' A ks \<longrightarrow> sm g (attDeriv g p a c) (mset (map (\<lambda>(n, x). (n, x, c)) as) + A) ks) \<and>
      (maxPattern v < 0 \<longrightarrow>
        (\<forall>A ks. sm g (attDeriv g p a c) (mset (map (\<lambda>(n, x). (n, x, c)) as) + A) ks \<longrightarrow> sm g p' A ks))"
      by (simp add: keeps_def)
    have "sm g (attDeriv g p a c) B ks = sm g p (add_mset (n, x, c) B) ks" for B ks
      unfolding a by (rule att_sm [OF assms(1) Cons.prems(1,2)])
    with ih keeps_trans [OF k] show ?thesis by (simp add: a)
  qed
qed

subsection \<open>One element, given its children\<close>

lemma open_aft_in: "wfg g \<Longrightarrow> aft R p \<Longrightarrow> aft (aft R) (startTagOpenDeriv g p n)"
proof (induction R p rule: aft.induct)
  case (2 R l r)
  then show ?case
    using open_aft [of g l n]
    by (auto intro!: aft_applyAfter [where R = plain] simp: after_def)
next
  case (3 R l r)
  then show ?case by (auto intro: aft_choice)
qed auto

lemma end_aft: "aft R p \<Longrightarrow> (R = aft Q) \<Longrightarrow> aft Q (endTagDeriv g p)"
  by (induction R p rule: aft.induct) (auto intro: aft_choice)

definition kids_ok ::
  "'c grammar \<Rightarrow> vstate \<Rightarrow> 'c pattern \<Rightarrow> 'c \<Rightarrow> 'c node list \<Rightarrow> vstate \<Rightarrow> 'c pattern \<Rightarrow> bool" where
  "kids_ok g v p c kids v' p' \<longleftrightarrow>
     keeps g p p' \<and> lims v' = lims v \<and>
     (\<forall>ks. sm g p' {#} ([] # ks) \<longrightarrow> (\<exists>k \<in> contents c kids. sm g p {#} (k # ks))) \<and>
     (contentChildren kids \<noteq> [] \<and> (\<forall>k \<in> set kids. noEmpty k \<and> unbounded v (ht k)) \<longrightarrow>
      (\<forall>ks. (\<exists>k \<in> contents c kids. sm g p {#} (k # ks)) \<longrightarrow> sm g p' {#} ([] # ks)))"

definition elem_ok ::
  "'c grammar \<Rightarrow> vstate \<Rightarrow> 'c pattern \<Rightarrow> 'c node \<Rightarrow> vstate \<Rightarrow> 'c pattern \<Rightarrow> bool" where
  "elem_ok g v p k v' p' \<longleftrightarrow>
     keeps g p p' \<and> lims v' = lims v \<and>
     (\<forall>j ks. sm g p' {#} (j # ks) \<longrightarrow> sm g p {#} ((EI k # j) # ks)) \<and>
     (noEmpty k \<and> unbounded v (ht k) \<longrightarrow>
      (\<forall>j ks. sm g p {#} ((EI k # j) # ks) \<longrightarrow> sm g p' {#} (j # ks)))"

lemma elem_ok_NotAllowed:
  "lims v' = lims v \<Longrightarrow> (noEmpty k \<and> unbounded v (ht k) \<Longrightarrow> (\<And>j ks. \<not> sm g p {#} ((EI k # j) # ks))) \<Longrightarrow>
   elem_ok g v p k v' NotAllowed"
  by (auto simp: elem_ok_def keeps_NotAllowed)

lemma childDeriv_elem:
  assumes g: "wfg g" and p: "st p" "wfPat g p"
    and res: "childDeriv g v p c (ElemN n ec as kids) = (v', p')"
    and kids: "\<And>v q v' q'. aft st q \<Longrightarrow> wfPat g q \<Longrightarrow> childrenDeriv g v q ec kids = (v', q') \<Longrightarrow>
        kids_ok g v q ec kids v' q'"
  shows "elem_ok g v p (ElemN n ec as kids) v' p'"
proof -
  let ?k = "ElemN n ec as kids"
  let ?v1 = "v\<lparr>vdepth := vdepth v + 1, vpath := vpath v @ [qlocal n]\<rparr>"
  let ?p1 = "startTagOpenDeriv g p (bare n)"
  obtain v2 p2 where a: "attsDeriv g ?v1 ?p1 (elementAttrs as) ec (qlocal n) = (v2, p2)"
    by (cases "attsDeriv g ?v1 ?p1 (elementAttrs as) ec (qlocal n)")
  let ?p3 = "startTagCloseDeriv g p2"
  obtain v4 p4 where k: "childrenDeriv g v2 ?p3 ec kids = (v4, p4)"
    by (cases "childrenDeriv g v2 ?p3 ec kids")
  have p1: "aft st ?p1" "st ?p1" "wfPat g ?p1"
    using open_st [OF g p(1)] open_wf_st [OF g p] aft_st by auto
  have p1R: "aft (aft R) ?p1" if "aft R p" for R using open_aft_in [OF g that] .
  note at = attsDeriv_ok [OF g p1(2,3) a]
  then have p2: "aft st p2" "st p2" "wfPat g p2" using p1(1) by (auto simp: keeps_def)
  note cl = close_state [OF g p2(3,2)]
  have p3: "aft st ?p3" "wfPat g ?p3" using aft_kept(3) [OF p2(1) g p2(3)] cl by auto
  note ki = kids [OF p3 k]
  then have p4: "aft st p4" "st p4" "wfPat g p4" using p3(1) by (auto simp: kids_ok_def keeps_def)
  note en = end_ok [OF g, of st, OF _ p4(1,3)]
  let ?p5 = "endTagDeriv g p4"
  have k14: "aft R ?p1 \<longrightarrow> aft R p4" if "\<forall>x. R x \<longrightarrow> st x" for R
    using that at ki keeps_close [OF g p2(2,3)] by (simp add: keeps_def kids_ok_def)
  have keep: "keeps g p ?p5"
    using en end_aft [of _ p4] k14 p1R aft_st unfolding keeps_def by blast
  have sound: "sm g ?p5 {#} (j # ks) \<longrightarrow> sm g p {#} ((EI ?k # j) # ks)" for j ks
  proof
    assume "sm g ?p5 {#} (j # ks)"
    then have "sm g p4 {#} ([] # j # ks)" using en by simp
    then obtain i where i: "i \<in> contents ec kids" "sm g ?p3 {#} (i # j # ks)"
      using ki unfolding kids_ok_def by blast
    then have "sm g p2 {#} (i # j # ks)" using cl by simp
    then have "sm g ?p1 (attItems ec as) (i # j # ks)" using at by (fastforce simp: attItems_def)
    then have "opened g ?p1 ec as kids (j # ks)" using i(1) by (auto simp: opened_def)
    then show "sm g p {#} ((EI ?k # j) # ks)" using open_sm [OF g p] by simp
  qed
  have l4: "lims v4 = lims ?v1" "lims v2 = lims ?v1" using at ki by (auto simp: kids_ok_def)
  have complete: "sm g ?p5 {#} (j # ks) \<and> ?p1 \<noteq> NotAllowed \<and> p2 \<noteq> NotAllowed \<and> ?p3 \<noteq> NotAllowed \<and> p4 \<noteq> NotAllowed"
    if u: "noEmpty ?k" "unbounded v (ht ?k)" and s: "sm g p {#} ((EI ?k # j) # ks)" for j ks
  proof -
    have "maxPattern ?v1 < 0" using u(2) by (simp add: unbounded_def)
    have "unbounded v2 (ht x)" if "x \<in> set kids" for x
    proof -
      have "ht x \<le> foldr max (map ht kids) 0" using that by (intro foldr_max_le) auto
      then have "unbounded ?v1 (ht x)" using u(2) by (auto simp: unbounded_def)
      with unbounded_lims [OF l4(2)] show ?thesis by blast
    qed
    with u(1) have k2: "contentChildren kids \<noteq> [] \<and> (\<forall>k \<in> set kids. noEmpty k \<and> unbounded v2 (ht k))" by simp
    have "opened g ?p1 ec as kids (j # ks)" using s open_sm [OF g p] by simp
    then obtain i where i: "i \<in> contents ec kids" "sm g ?p1 (attItems ec as) (i # j # ks)"
      by (auto simp: opened_def)
    then have 2: "sm g p2 {#} (i # j # ks)" using at \<open>maxPattern ?v1 < 0\<close> by (simp add: attItems_def)
    then have 3: "sm g ?p3 {#} (i # j # ks)" using cl by simp
    then have 4: "sm g p4 {#} ([] # j # ks)" using ki k2 i(1) unfolding kids_ok_def by blast
    then have "sm g ?p5 {#} (j # ks)" using en by simp
    with i(2) 2 3 4 show ?thesis by auto
  qed
  have lv: "lims (leave w) = lims v" if "lims w = lims ?v1" for w
    using that by (simp add: lims_def leave_def)
  show ?thesis
  proof (cases "maxDepth v \<ge> 0 \<and> vdepth v \<ge> maxDepth v \<or> maxPattern v \<ge> 0 \<and> patternSize p > maxPattern v")
    case True
    then have "\<not> unbounded v (ht ?k)" by (auto simp: unbounded_def)
    moreover have "p' = NotAllowed \<and> lims v' = lims v"
      using True res by (auto simp: lims_def leave_def split: if_splits)
    ultimately show ?thesis by (auto intro: elem_ok_NotAllowed)
  next
    case False
    then have r: "(v', p') =
        (if ?p1 = NotAllowed then (leave (vNote ?v1 (''element '' @ qlocal n @ '' is not permitted here'')), NotAllowed)
         else if p2 = NotAllowed then (leave (vNote v2 (''the attributes of '' @ qlocal n @ '' do not match'')), NotAllowed)
         else if ?p3 = NotAllowed then (leave (vNote v2 (''element '' @ qlocal n @ '' is missing a required attribute'')), NotAllowed)
         else if p4 = NotAllowed then (leave v4, NotAllowed)
         else (leave (if ?p5 = NotAllowed then vNote v4 (''the content of '' @ qlocal n @ '' is incomplete'') else v4), ?p5))"
      using res a k by (auto simp: Let_def)
    have "lims v' = lims v" using r lv l4 by (auto split: if_splits)
    moreover have "p' = ?p5 \<or> p' = NotAllowed \<and> (?p1 = NotAllowed \<or> p2 = NotAllowed \<or> ?p3 = NotAllowed \<or> p4 = NotAllowed)"
      using r by (auto split: if_splits)
    moreover have "elem_ok g v p ?k v' ?p5" if "lims v' = lims v"
      unfolding elem_ok_def using that keep sound complete by simp
    ultimately show ?thesis
      using complete elem_ok_NotAllowed [of v' v ?k g p] by blast
  qed
qed

subsection \<open>The children of an element\<close>

lemma mergeRuns_text:
  "mergeRuns (TextN s # ks) =
   TextN (s @ concat (map textOf (takeWhile isText ks))) # mergeRuns (dropWhile isText ks)"
proof (induction ks arbitrary: s)
  case (Cons k ks)
  then show ?case by (cases k) (auto simp: isText_def)
qed simp

lemma mergeRuns_elem: "\<not> isText k \<Longrightarrow> mergeRuns (k # ks) = k # mergeRuns ks"
  by (cases k) (auto simp: isText_def)

lemma mergeRuns_isElem: "list_ex isElem (mergeRuns ks) = list_ex isElem ks"
  by (induction ks rule: mergeRuns.induct) (auto simp: isElem_def)

definition itemsOf :: "'c \<Rightarrow> 'c node list \<Rightarrow> 'c item list" where
  "itemsOf c ks = map (itemOf c) (filter (\<lambda>k. \<not> wsText k) (mergeRuns ks))"

definition loop_ok ::
  "'c grammar \<Rightarrow> vstate \<Rightarrow> 'c pattern \<Rightarrow> 'c node list \<Rightarrow> 'c item list \<Rightarrow> vstate \<Rightarrow> 'c pattern \<Rightarrow> bool" where
  "loop_ok g v p ks is v' p' \<longleftrightarrow>
     keeps g p p' \<and> lims v' = lims v \<and>
     (\<forall>j S. sm g p' {#} (j # S) \<longrightarrow> sm g p {#} ((is @ j) # S)) \<and>
     ((\<forall>k \<in> set ks. noEmpty k \<and> unbounded v (ht k)) \<longrightarrow>
      (\<forall>j S. sm g p {#} ((is @ j) # S) \<longrightarrow> sm g p' {#} (j # S)))"

lemma loop_ok_NotAllowed:
  "(\<And>j S. \<not> sm g p {#} ((is @ j) # S)) \<Longrightarrow> loop_ok g v p ks is v NotAllowed"
  by (auto simp: loop_ok_def keeps_NotAllowed)

lemma loop_ok_text:
  assumes "wfg g" "st p" "wfPat g p" "loop_ok g v (textDeriv g p s c) ks' is v' p'" "set ks' \<subseteq> set ks"
  shows "loop_ok g v p ks (TI s c # is) v' p'"
  using assms(4,5) keeps_trans [OF keeps_text [OF assms(1-3)]] text_sm [OF assms(1-3), of s c]
  by (auto simp: loop_ok_def subset_iff)

lemma loop_ok_elem:
  assumes "elem_ok g v p k v1 p1" "loop_ok g v1 p1 ks is v' p'"
  shows "loop_ok g v p (k # ks) (EI k # is) v' p'"
proof -
  have "lims v1 = lims v" using assms(1) by (simp add: elem_ok_def)
  then have u: "unbounded v1 d = unbounded v d" for d by (rule unbounded_lims)
  note e = assms(1) [unfolded elem_ok_def] and l = assms(2) [unfolded loop_ok_def u]
  show ?thesis
    unfolding loop_ok_def
  proof (intro conjI impI allI)
    show "keeps g p p'" using e l by (blast intro: keeps_trans)
    show "lims v' = lims v" using e l by simp
    show "sm g p {#} (((EI k # is) @ j) # S)" if "sm g p' {#} (j # S)" for j S
    proof -
      have "sm g p1 {#} ((is @ j) # S)" using that l by blast
      then have "sm g p {#} ((EI k # is @ j) # S)" using e by blast
      then show ?thesis by simp
    qed
    show "sm g p' {#} (j # S)"
      if n: "\<forall>k \<in> set (k # ks). noEmpty k \<and> unbounded v (ht k)"
        and s: "sm g p {#} (((EI k # is) @ j) # S)" for j S
    proof -
      have "noEmpty k \<and> unbounded v (ht k)" "\<forall>k \<in> set ks. noEmpty k \<and> unbounded v (ht k)"
        using n by simp_all
      moreover have "sm g p {#} ((EI k # is @ j) # S)" using s by simp
      ultimately have "sm g p1 {#} ((is @ j) # S)" using e by blast
      with \<open>\<forall>k \<in> set ks. _ k\<close> show ?thesis using l by blast
    qed
  qed
qed

lemma childrenLoop_elems:
  assumes g: "wfg g"
    and elem: "\<And>k v q v' q'. k \<in> set ks \<Longrightarrow> isElem k \<Longrightarrow> st q \<Longrightarrow> wfPat g q \<Longrightarrow>
        childDeriv g v q c k = (v', q') \<Longrightarrow> elem_ok g v q k v' q'"
    and content: "\<forall>k \<in> set ks. k \<noteq> OtherN" and p: "st p" "wfPat g p"
    and res: "childrenLoop g v p c True ks = (v', p')"
  shows "loop_ok g v p ks (itemsOf c ks) v' p'"
  using elem content p res
proof (induction ks arbitrary: v p rule: measure_induct_rule [of length])
  case (less ks)
  show ?case
  proof (cases ks)
    case Nil
    with less.prems show ?thesis by (auto simp: loop_ok_def itemsOf_def keeps_refl)
  next
    case (Cons k rest)
    show ?thesis
    proof (cases "isText k")
      case True
      then obtain s0 where k: "k = TextN s0" by (cases k) (auto simp: isText_def)
      let ?s = "s0 @ concat (map textOf (takeWhile isText rest))" and ?r = "dropWhile isText rest"
      have len: "length ?r < length ks" using length_dropWhile_le [of isText rest] Cons by simp
      have sub: "set ?r \<subseteq> set ks" using set_dropWhileD [of _ isText rest] Cons by auto
      have it: "itemsOf c ks = (if whitespaceOnly ?s then itemsOf c ?r else TI ?s c # itemsOf c ?r)"
        by (simp add: itemsOf_def Cons k mergeRuns_text)
      have IH: "loop_ok g v q ?r (itemsOf c ?r) v' p'"
        if "st q" "wfPat g q" "childrenLoop g v q c True ?r = (v', p')" for q
        using less.IH [OF len _ _ that] less.prems(1,2) sub by blast
      show ?thesis
      proof (cases "whitespaceOnly ?s")
        case True
        then have "childrenLoop g v p c True ?r = (v', p')"
          using less.prems(5) by (simp add: Cons k isText_def Let_def)
        from IH [OF less.prems(3,4) this] True it sub show ?thesis by (auto simp: loop_ok_def)
      next
        case False
        note tx = keeps_text [OF g less.prems(3,4), of ?s c]
        show ?thesis
        proof (cases "textDeriv g p ?s c = NotAllowed")
          case True
          then have "(v', p') = (v, NotAllowed)"
            using less.prems(5) False by (simp add: Cons k isText_def Let_def)
          moreover have "\<not> sm g p {#} ((TI ?s c # j) # S)" for j S
            using text_sm [OF g less.prems(3,4), of ?s c j S] True by simp
          ultimately show ?thesis using False it by (auto intro: loop_ok_NotAllowed)
        next
          case nz: False
          then have "childrenLoop g v (textDeriv g p ?s c) c True ?r = (v', p')"
            using less.prems(5) False by (simp add: Cons k isText_def Let_def)
          with IH tx have "loop_ok g v (textDeriv g p ?s c) ?r (itemsOf c ?r) v' p'"
            by (simp add: keeps_def)
          from loop_ok_text [OF g less.prems(3,4) this sub] it False show ?thesis by simp
        qed
      qed
    next
      case False
      then have el: "isElem k" using less.prems(2) Cons by (cases k) (auto simp: isElem_def isText_def)
      obtain v1 p1 where c1: "childDeriv g v p c k = (v1, p1)" by (cases "childDeriv g v p c k")
      have ok: "elem_ok g v p k v1 p1"
        using less.prems(1) [of k p v v1 p1] Cons el less.prems(3,4) c1 by simp
      have it: "itemsOf c ks = EI k # itemsOf c rest"
        using False el by (cases k) (simp_all add: itemsOf_def Cons mergeRuns_elem isText_def isElem_def)
      show ?thesis
      proof (cases "p1 = NotAllowed")
        case True
        then have "(v', p') = (v1, NotAllowed)"
          using less.prems(5) False c1 by (simp add: Cons)
        then show ?thesis
          using ok True it Cons by (auto simp: loop_ok_def elem_ok_def)
      next
        case nz: False
        then have "childrenLoop g v1 p1 c True rest = (v', p')"
          using less.prems(5) False c1 by (simp add: Cons)
        moreover have "st p1" "wfPat g p1" using ok by (auto simp: elem_ok_def keeps_def)
        ultimately have "loop_ok g v1 p1 rest (itemsOf c rest) v' p'"
          using less.IH [of rest p1 v1] less.prems(1,2) Cons by simp
        from loop_ok_elem [OF ok this] show ?thesis unfolding it unfolding Cons .
      qed
    qed
  qed
qed

lemma childrenDeriv_ok:
  assumes g: "wfg g"
    and elem: "\<And>k v q v' q'. k \<in> set kids \<Longrightarrow> isElem k \<Longrightarrow> st q \<Longrightarrow> wfPat g q \<Longrightarrow>
        childDeriv g v q c k = (v', q') \<Longrightarrow> elem_ok g v q k v' q'"
    and p: "aft st p" "wfPat g p"
    and res: "childrenDeriv g v p c kids = (v', p')"
  shows "kids_ok g v p c kids v' p'"
proof -
  let ?ks = "contentChildren kids"
  have stp: "st p" using aft_st [OF p(1)] .
  have sub: "set ?ks \<subseteq> set kids" "\<forall>k \<in> set ?ks. k \<noteq> OtherN" by (auto simp: contentChildren_def)
  consider (none) "?ks = []" | (elems) "?ks \<noteq> []" "list_ex isElem ?ks" | (texts) "?ks \<noteq> []" "\<not> list_ex isElem ?ks"
    by blast
  then show ?thesis
  proof cases
    case none
    have c: "contents c kids = {[], [TI [] c]}" using none by (simp add: contents_def)
    have "v' = v \<and> (p' = p \<or> p' = textDeriv g p [] c)"
      using res none by (auto simp: Let_def split: if_splits)
    then show ?thesis
      using none c keeps_refl [OF stp p(2)] keeps_text [OF g stp p(2), of "[]" c]
        text_sm [OF g stp p(2), of "[]" c "[]"]
      by (auto simp: kids_ok_def)
  next
    case elems
    then have "childrenLoop g v p c True ?ks = (v', p')" using res by (simp add: Let_def)
    then have lk: "loop_ok g v p ?ks (itemsOf c ?ks) v' p'"
      using childrenLoop_elems [OF g _ sub(2) stp p(2)] elem sub(1) by blast
    then have "list_ex isElem (mergeRuns ?ks)" using elems(2) by (simp add: mergeRuns_isElem)
    then have c: "contents c kids = {itemsOf c ?ks}" by (simp add: contents_def itemsOf_def Let_def)
    note l = lk [unfolded loop_ok_def]
    have bwd: "sm g p' {#} ([] # S)"
      if "\<forall>k \<in> set ?ks. noEmpty k \<and> unbounded v (ht k)" "sm g p {#} (itemsOf c ?ks # S)" for S
    proof -
      have "\<forall>j. sm g p {#} ((itemsOf c ?ks @ j) # S) \<longrightarrow> sm g p' {#} (j # S)"
        using l that(1) by blast
      from spec [OF this, of "[]"] that(2) show ?thesis by simp
    qed
    have fwd: "sm g p {#} (itemsOf c ?ks # S)" if "sm g p' {#} ([] # S)" for S
    proof -
      have "\<forall>j. sm g p' {#} (j # S) \<longrightarrow> sm g p {#} ((itemsOf c ?ks @ j) # S)" using l by blast
      from spec [OF this, of "[]"] that show ?thesis by simp
    qed
    show ?thesis
      unfolding kids_ok_def c
    proof (intro conjI impI allI)
      show "keeps g p p'" "lims v' = lims v" using l by simp_all
      show "\<exists>k \<in> {itemsOf c ?ks}. sm g p {#} (k # S)" if "sm g p' {#} ([] # S)" for S
        using fwd [OF that] by simp
      show "sm g p' {#} ([] # S)"
        if "?ks \<noteq> [] \<and> (\<forall>k \<in> set kids. noEmpty k \<and> unbounded v (ht k))"
          and "\<exists>k \<in> {itemsOf c ?ks}. sm g p {#} (k # S)" for S
      proof (rule bwd)
        show "\<forall>k \<in> set ?ks. noEmpty k \<and> unbounded v (ht k)" using that(1) sub(1) by blast
        show "sm g p {#} (itemsOf c ?ks # S)" using that(2) by simp
      qed
    qed
  next
    case texts
    obtain k rest where ks: "?ks = k # rest" using texts(1) by (cases ?ks) auto
    have all: "\<forall>x \<in> set ?ks. isText x"
    proof
      fix x assume "x \<in> set ?ks"
      with texts(2) sub(2) show "isText x" by (cases x) (auto simp: isText_def isElem_def list_ex_iff)
    qed
    then obtain s0 where k: "k = TextN s0" using ks by (cases k) (auto simp: isText_def)
    have tw: "takeWhile isText rest = rest" "dropWhile isText rest = []"
      using all ks by simp_all
    let ?s = "s0 @ concat (map textOf rest)"
    have c: "contents c kids = (if whitespaceOnly ?s then {[], [TI ?s c]} else {[TI ?s c]})"
      by (simp add: contents_def ks k mergeRuns_text tw isElem_def)
    have r: "v' = v \<and> p' = (if whitespaceOnly ?s then choice p (textDeriv g p ?s c) else textDeriv g p ?s c)"
      using res ks texts(2) by (auto simp: Let_def k isText_def tw isElem_def split: if_splits)
    show ?thesis
      using c r keeps_refl [OF stp p(2)] keeps_text [OF g stp p(2), of ?s c] keeps_choice [of g p p]
        text_sm [OF g stp p(2), of ?s c "[]"]
      by (auto simp: kids_ok_def)
  qed
qed

end
