(* ===== verification/RngMain.thy ===== *)
theory RngMain
  imports RngSound
begin

text \<open>
  The verdict of a whole run of the RELAX NG validator, with witnesses on a small grammar.
\<close>

subsection \<open>Every node\<close>

lemma childDeriv_ok:
  "wfg g \<Longrightarrow> isElem k \<Longrightarrow> st p \<Longrightarrow> wfPat g p \<Longrightarrow> childDeriv g v p c k = (v', p') \<Longrightarrow> elem_ok g v p k v' p'"
proof (induction k arbitrary: v p c v' p' rule: measure_induct_rule [of size])
  case (less k)
  then obtain n ec as kids where k: "k = ElemN n ec as kids" by (cases k) (auto simp: isElem_def)
  show ?case
    unfolding k
  proof (rule childDeriv_elem [OF less.prems(1,3,4)])
    show "childDeriv g v p c (ElemN n ec as kids) = (v', p')" using less.prems(5) k by simp
    fix v q v' q'
    assume q: "aft st q" "wfPat g q" "childrenDeriv g v q ec kids = (v', q')"
    show "kids_ok g v q ec kids v' q'"
    proof (rule childrenDeriv_ok [OF less.prems(1) _ q])
      fix x v q v' q'
      assume "x \<in> set kids" "isElem x" "st q" "wfPat g q" "childDeriv g v q ec x = (v', q')"
      moreover from \<open>x \<in> set kids\<close> have "size x < size k"
        using size_list_estimation [of x kids "size x" size] k by (simp add: less_Suc_eq_le size_list_estimation')
      ultimately show "elem_ok g v q x v' q'" using less.IH less.prems(1) by blast
    qed
  qed
qed

text \<open>The limit flags are raised only by the limits.\<close>

lemma flags_note [simp]: "tooDeep (vNote v m) = tooDeep v" "tooBig (vNote v m) = tooBig v"
  by (simp_all add: vNote_def)

lemma flags_leave [simp]: "tooDeep (leave v) = tooDeep v" "tooBig (leave v) = tooBig v"
  by (simp_all add: leave_def)

lemma atts_flags:
  "maxPattern v < 0 \<Longrightarrow> attsDeriv g v p as c el = (v', p') \<Longrightarrow> v' = v"
  by (induction g v p as c el rule: attsDeriv.induct) auto

definition same_flags :: "vstate \<Rightarrow> vstate \<Rightarrow> bool" where
  "same_flags v v' \<longleftrightarrow> tooDeep v' = tooDeep v \<and> tooBig v' = tooBig v \<and>
     maxPattern v' = maxPattern v \<and> maxDepth v' = maxDepth v"

lemma same_flags_simps [simp]:
  "same_flags v v" "same_flags v (vNote w m) = same_flags v w" "same_flags v (leave w) = same_flags v w"
  "same_flags (v\<lparr>vdepth := d, vpath := ps\<rparr>) w = same_flags v w"
  "same_flags u (v\<lparr>vdepth := d, vpath := ps\<rparr>) = same_flags u v"
  by (simp_all add: same_flags_def vNote_def leave_def)

lemma same_flags_trans: "same_flags u v \<Longrightarrow> same_flags v w \<Longrightarrow> same_flags u w"
  by (simp add: same_flags_def)

definition no_limits :: "vstate \<Rightarrow> bool" where
  "no_limits v \<longleftrightarrow> maxPattern v < 0 \<and> maxDepth v < 0"

lemma no_limits_same: "same_flags v w \<Longrightarrow> no_limits w = no_limits v"
  by (simp add: same_flags_def no_limits_def)

lemma run_flags:
  "no_limits v \<Longrightarrow> same_flags v (fst (childDeriv g v p c k))"
  "no_limits v \<Longrightarrow> same_flags v (fst (childrenDeriv g v p c ks))"
  "no_limits v \<Longrightarrow> same_flags v (fst (childrenLoop g v p c h ks))"
proof (induction g v p c k and g v p c ks and g v p c h ks
    rule: childDeriv_childrenDeriv_childrenLoop.induct)
  case (3 g v p c n ec as kids)
  let ?v1 = "v\<lparr>vdepth := vdepth v + 1, vpath := vpath v @ [qlocal n]\<rparr>"
  let ?p1 = "startTagOpenDeriv g p (bare n)"
  have lim: "\<not> (maxDepth v \<ge> 0 \<and> vdepth v \<ge> maxDepth v)" "\<not> (maxPattern ?v1 \<ge> 0 \<and> patternSize p > maxPattern ?v1)"
    "maxPattern ?v1 < 0"
    using 3(2) by (auto simp: no_limits_def)
  obtain v2 p2 where a: "attsDeriv g ?v1 ?p1 (elementAttrs as) ec (qlocal n) = (v2, p2)"
    by (cases "attsDeriv g ?v1 ?p1 (elementAttrs as) ec (qlocal n)")
  with atts_flags [OF lim(3) a] have v2: "v2 = ?v1" by simp
  obtain v4 p4 where k: "childrenDeriv g v2 (startTagCloseDeriv g p2) ec kids = (v4, p4)"
    by (cases "childrenDeriv g v2 (startTagCloseDeriv g p2) ec kids")
  have "no_limits v2" using 3(2) by (simp add: v2 no_limits_def)
  have "same_flags v v4" if "?p1 \<noteq> NotAllowed" "p2 \<noteq> NotAllowed" "startTagCloseDeriv g p2 \<noteq> NotAllowed"
    using 3(1) [OF lim(1) refl lim(2) refl _ a [symmetric] refl _ refl] that \<open>no_limits v2\<close> k v2 by simp
  moreover have "maxDepth v < 0" "maxPattern v < 0" using 3(2) by (simp_all add: no_limits_def)
  ultimately show ?case using a k v2 by (simp add: Let_def del: childrenDeriv.simps)
next
  case (6 g v p c h k ks)
  show ?case
  proof (cases "isText k")
    case True
    then show ?thesis
      using 6(1) [OF True refl refl] 6(2) [OF True refl refl] 6(3) [OF True refl refl] 6(6)
      by (auto simp: Let_def)
  next
    case False
    obtain v1 p1 where k: "childDeriv g v p c k = (v1, p1)" by (cases "childDeriv g v p c k")
    have s1: "same_flags v v1" using 6(4) [OF False] 6(6) k by simp
    then have "no_limits v1" using no_limits_same 6(6) by blast
    then have "p1 \<noteq> NotAllowed \<Longrightarrow> same_flags v1 (fst (childrenLoop g v1 p1 c h ks))"
      using 6(5) [OF False k [symmetric] refl] by simp
    with s1 k False show ?thesis by (auto intro: same_flags_trans)
  qed
qed (auto simp: Let_def)

subsection \<open>The verdict\<close>

lemma nullable_plain_sm: "wfg g \<Longrightarrow> plain p \<Longrightarrow> wfPat g p \<Longrightarrow> nullable g p = sm g p {#} [[]]"
  by (simp add: sm_plain nullable_pm)

lemma nullable_sm: "wfg g \<Longrightarrow> st p \<Longrightarrow> wfPat g p \<Longrightarrow> nullable g p = sm g p {#} [[]]"
proof (induction p rule: st.induct)
  case (1 l r)
  then show ?case by simp
next
  case (2 l r)
  then show ?case by simp
qed (simp_all only: nullable_plain_sm st.simps)

definition startState :: "int \<Rightarrow> int \<Rightarrow> vstate" where
  "startState md mp =
     \<lparr>maxDepth = md, maxPattern = mp, tooDeep = False, tooBig = False, deepPath = [],
      vdepth = 0, deepest = [], why = [], vpath = []\<rparr>"

lemma Validate_unfold:
  assumes "rootOf doc = Some root"
    and "childDeriv g (startState (if oMaxDepth opts = 0 then DefaultMaxDepth else oMaxDepth opts)
          (if oMaxPatternSize opts = 0 then DefaultMaxPatternSize else oMaxPatternSize opts)) start c root = (v, p)"
  shows "ValidateWithOptions g start c opts doc = None \<longleftrightarrow> \<not> tooBig v \<and> \<not> tooDeep v \<and> nullable g p"
  using assms by (simp add: ValidateWithOptions_def startState_def Let_def)

lemma root_elem: "rootOf doc = Some root \<Longrightarrow> isElem root"
  by (auto simp: rootOf_def find_Some_iff)

lemma run_root:
  assumes "wfg g" "plain start" "wfPat g start" "isElem root"
    "childDeriv g (startState md mp) start c root = (v, p)"
  shows "nullable g p \<longrightarrow> pm g start {#} [EI root]"
    and "noEmpty root \<and> md < 0 \<and> mp < 0 \<longrightarrow> pm g start {#} [EI root] \<longrightarrow>
      nullable g p \<and> \<not> tooBig v \<and> \<not> tooDeep v"
proof -
  have ok: "elem_ok g (startState md mp) start root v p"
    using childDeriv_ok [OF assms(1,4) plain_st [OF assms(2)] assms(3,5)] .
  have n: "nullable g p = sm g p {#} [[]]"
    using ok by (intro nullable_sm assms(1)) (auto simp: elem_ok_def keeps_def)
  have pm: "sm g start {#} [[EI root]] = pm g start {#} [EI root]" using assms(2) by (simp add: sm_plain)
  show "nullable g p \<longrightarrow> pm g start {#} [EI root]" using ok n pm unfolding elem_ok_def by blast
  have fl: "md < 0 \<and> mp < 0 \<Longrightarrow> \<not> tooBig v \<and> \<not> tooDeep v"
    using run_flags(1) [of "startState md mp" g start c root] assms(5)
    by (simp add: no_limits_def same_flags_def startState_def)
  have "md < 0 \<and> mp < 0 \<Longrightarrow> unbounded (startState md mp) d" for d
    by (simp add: unbounded_def startState_def)
  then show "noEmpty root \<and> md < 0 \<and> mp < 0 \<longrightarrow> pm g start {#} [EI root] \<longrightarrow>
      nullable g p \<and> \<not> tooBig v \<and> \<not> tooDeep v"
    using ok n pm fl unfolding elem_ok_def by blast
qed

text \<open>C6: Soundness of the RELAX NG validator: whatever the limits, a document it accepts has a
  root element that the schema's start pattern matches, in the sense of the pattern semantics
  that never mentions derivatives.\<close>

theorem Validate_sound:
  assumes "wfg g" "plain start" "wfPat g start" "ValidateWithOptions g start c opts doc = None"
  shows "\<exists>root. rootOf doc = Some root \<and> pm g start {#} [EI root]"
proof (cases "rootOf doc")
  case None
  with assms(4) show ?thesis by (simp add: ValidateWithOptions_def)
next
  case (Some root)
  obtain v p where r: "childDeriv g (startState (if oMaxDepth opts = 0 then DefaultMaxDepth else oMaxDepth opts)
      (if oMaxPatternSize opts = 0 then DefaultMaxPatternSize else oMaxPatternSize opts)) start c root = (v, p)"
    by fastforce
  have "nullable g p" using Validate_unfold [OF Some r] assms(4) by simp
  with run_root(1) [OF assms(1-3) root_elem [OF Some] r] Some show ?thesis by blast
qed

text \<open>C7: Completeness of the RELAX NG validator: without limits, a document none of whose elements
  is empty is accepted as soon as the start pattern matches its root element.\<close>

theorem Validate_complete:
  assumes "wfg g" "plain start" "wfPat g start" "oMaxDepth opts < 0" "oMaxPatternSize opts < 0"
    and "rootOf doc = Some root" "noEmpty root" "pm g start {#} [EI root]"
  shows "ValidateWithOptions g start c opts doc = None"
proof -
  obtain v p where r: "childDeriv g (startState (if oMaxDepth opts = 0 then DefaultMaxDepth else oMaxDepth opts)
      (if oMaxPatternSize opts = 0 then DefaultMaxPatternSize else oMaxPatternSize opts)) start c root = (v, p)"
    by fastforce
  have "nullable g p \<and> \<not> tooBig v \<and> \<not> tooDeep v"
    using run_root(2) [OF assms(1-3) root_elem [OF assms(6)] r] assms(4,5,7,8) by simp
  with Validate_unfold [OF assms(6) r] show ?thesis by simp
qed

subsection \<open>A small grammar\<close>

text \<open>\<open>doc\<close> holds an \<open>id\<close> attribute and one or more of \<open>item\<close> and nested \<open>doc\<close>.\<close>

definition nm :: "string \<Rightarrow> nameClass" where "nm s = QNameC (QName [] [] s)"

definition wDoc :: "unit pattern" where
  "wDoc = Element (nm ''doc'') (Group (Attribute (nm ''id'') Text)
     (OneOrMore (Choice (Element (nm ''item'') Text) (Ref 0))))"

definition wGrammar :: "unit grammar" where
  "wGrammar = Abs_grammar (\<lambda>r. if r = 0 then Some wDoc else None)"

lemma defn_wGrammar [simp]: "defn wGrammar r = (if r = 0 then Some wDoc else None)"
proof -
  have "(\<lambda>r. if r = 0 then Some wDoc else None) \<in>
      {g :: nat \<Rightarrow> unit pattern option. \<exists>rk :: nat \<Rightarrow> nat. \<forall>r q. g r = Some q \<longrightarrow> (\<forall>s \<in> urefs q. rk s < rk r)}"
    by (auto simp: wDoc_def)
  then show ?thesis unfolding defn_def wGrammar_def by (subst Abs_grammar_inverse) auto
qed

lemma wGrammar_ok: "wfg wGrammar" "plain (Ref 0 :: unit pattern)" "wfPat wGrammar (Ref 0)"
  by (auto simp: wfg_def wDoc_def)

definition el :: "string \<Rightarrow> (qname \<times> string) list \<Rightarrow> unit node list \<Rightarrow> unit node" where
  "el s as kids = ElemN (QName [] [] s) () as kids"

definition wTree :: "unit node" where
  "wTree = el ''doc'' [(QName [] [] ''id'', ''x'')]
     [TextN ''  '', el ''item'' [] [TextN ''hi''], TextN '' '']"

definition noLimit :: validateOptions where
  "noLimit = \<lparr>oMaxDepth = -1, oMaxPatternSize = -1\<rparr>"

lemmas rng_eval =
  wTree_def el_def nm_def wDoc_def noLimit_def ValidateWithOptions_def rootOf_def isElem_def isText_def
  contentChildren_def bare_def elementAttrs_def NSXMLNS_def whitespaceOnly_def isWs_def after_def group_def
  interleave_def oneOrMore_def startTagCloseDeriv_def valueMatch_def isNotAllowed_def leave_def vNote_def
  choice.simps inChoice.simps patEq.simps Let_def expand.simps(1)

lemma wTree_valid: "ValidateWithOptions wGrammar (Ref 0) () noLimit [wTree] = None"
  by (simp add: rng_eval)

theorem Validate_sound_witness:
  "\<exists>root. rootOf [wTree] = Some root \<and> pm wGrammar (Ref 0) {#} [EI root]"
  by (rule Validate_sound [OF wGrammar_ok wTree_valid])

lemma wTree_pm: "pm wGrammar (Ref 0) {#} [EI wTree]"
  using Validate_sound [OF wGrammar_ok wTree_valid]
  by (auto simp: rootOf_def isElem_def wTree_def el_def)

theorem Validate_complete_witness:
  "ValidateWithOptions wGrammar (Ref 0) () noLimit [wTree] = None"
  by (rule Validate_complete [OF wGrammar_ok _ _ _ _ wTree_pm])
    (simp_all add: noLimit_def rootOf_def wTree_def el_def isElem_def contentChildren_def)

subsection \<open>The empty element that loses an alternative\<close>

text \<open>
  \<open>r\<close> holds either an \<open>x\<close> with a string and a \<open>y\<close>, or an empty \<open>x\<close> and a \<open>z\<close>.
\<close>

definition strType :: "unit dataType" where
  "strType = \<lparr>dtCheck = \<lambda>_ ps. ps = [], dtEqual = (=), dtCtx = None\<rparr>"

definition xyz :: "unit pattern" where
  "xyz = Element (nm ''r'') (Choice
     (Group (Element (nm ''x'') (Data strType [] None)) (Element (nm ''y'') Empty))
     (Group (Element (nm ''x'') Empty) (Element (nm ''z'') Empty)))"

definition xzTree :: "unit node" where
  "xzTree = el ''r'' [] [el ''x'' [] [], el ''z'' [] []]"

text \<open>C8: Completeness fails on an empty element: the schema that allows \<open>x\<close> to be empty before
  \<open>z\<close>, or to hold a string before \<open>y\<close>, describes \<open><r><x/><z/></r>\<close>, but the validator keeps only
  the string reading of the empty \<open>x\<close> and rejects the document.\<close>

theorem empty_element_rejected:
  "pm wGrammar xyz {#} [EI xzTree] \<and> wfPat wGrammar xyz \<and>
   ValidateWithOptions wGrammar xyz () noLimit [xzTree] \<noteq> None"
proof -
  have empty: "[] \<in> contents () ([] :: unit node list)" by (simp add: contents_def contentChildren_def)
  have e: "pm wGrammar (Element (nm s) Empty) {#} [EI (el s [] [])]" for s
    unfolding el_def nm_def
    by (rule pm.Element [where k = "[]"]) (auto simp: bare_def empty attItems_def elementAttrs_def)
  have "pm wGrammar (Group (Element (nm ''x'') Empty) (Element (nm ''z'') Empty))
      ({#} + {#}) ([EI (el ''x'' [] [])] @ [EI (el ''z'' [] [])])"
    by (rule pm.Group [OF e e])
  then have "pm wGrammar xyz {#} [EI xzTree]"
    unfolding xyz_def xzTree_def el_def [of "''r''"] nm_def [of "''r''"]
    by (intro pm.Element [where k = "[EI (el ''x'' [] []), EI (el ''z'' [] [])]"] pm.ChoiceR)
      (auto simp: bare_def attItems_def elementAttrs_def contents_def contentChildren_def el_def isElem_def)
  moreover have "ValidateWithOptions wGrammar xyz () noLimit [xzTree] \<noteq> None"
    by (simp add: rng_eval xyz_def xzTree_def strType_def joinWith.simps vAt_def)
  ultimately show ?thesis by (simp add: xyz_def)
qed

end
