(* ===== verification/RngMemo.thy ===== *)
theory RngMemo
  imports RngMain
begin

text \<open>
  The memo wrappers of \<open>relaxng/memo.go\<close> and the tests in \<open>relaxng/derive.go\<close> and
  \<open>relaxng/memo.go\<close> that decide when an answer may be remembered. Which definitions are
  resolved (\<open>done\<close>), and which are already known to hold no attribute (\<open>attrFree\<close>), is state of
  the schema and a parameter here.
\<close>

subsection \<open>What may be remembered\<close>

datatype kinds = AttrKinds | DataKinds

function staticFree ::
  "'c grammar \<Rightarrow> (nat \<Rightarrow> bool) \<Rightarrow> kinds \<Rightarrow> nat set \<Rightarrow> 'c pattern \<Rightarrow> bool" where
  "staticFree g dn k vis (Attribute nc p) = (k \<noteq> AttrKinds)"
| "staticFree g dn k vis (Value dt v c) = (k \<noteq> DataKinds)"
| "staticFree g dn k vis (Data dt ps ex) = (k \<noteq> DataKinds)"
| "staticFree g dn k vis (ListP p) = (k \<noteq> DataKinds)"
| "staticFree g dn k vis (Element nc p) = True"
| "staticFree g dn k vis Empty = True"
| "staticFree g dn k vis NotAllowed = True"
| "staticFree g dn k vis Text = True"
| "staticFree g dn k vis (Choice l r) = (staticFree g dn k vis l \<and> staticFree g dn k vis r)"
| "staticFree g dn k vis (Group l r) = (staticFree g dn k vis l \<and> staticFree g dn k vis r)"
| "staticFree g dn k vis (Interleave l r) = (staticFree g dn k vis l \<and> staticFree g dn k vis r)"
| "staticFree g dn k vis (OneOrMore p) = staticFree g dn k vis p"
| "staticFree g dn k vis (Static i q) = (if k = AttrKinds then sAttrFree i else sDataFree i)"
| "staticFree g dn k vis (Ref r) =
     (if \<not> dn r \<or> r \<in> vis then False
      else case defn g r of None \<Rightarrow> False | Some q \<Rightarrow> staticFree g dn k (insert r vis) q)"
| "staticFree g dn k vis (After l r) = False"
  by pat_completeness auto
termination
  by (relation "measures [\<lambda>(g, dn, k, vis, p). rank g p, \<lambda>(g, dn, k, vis, p). size p]")
    (auto intro: rank_descent)


subsection \<open>Wrapping a schema\<close>

definition int32 :: "int \<Rightarrow> int" where "int32 n = (n + 2 ^ 31) mod 2 ^ 32 - 2 ^ 31"

definition minWrap :: int where "minWrap = 4"

definition wrapStatic :: "'c grammar \<Rightarrow> (nat \<Rightarrow> bool) \<Rightarrow> 'c pattern \<Rightarrow> 'c pattern" where
  "wrapStatic g dn q =
     (let n = patternSize q in
      if n < minWrap then q
      else Static \<lparr>sSize = int32 n, sNull = nullable g q, sDataFree = staticFree g dn DataKinds {} q,
                   sSelfEq = patEq q q, sAttrFree = staticFree g dn AttrKinds {} q\<rparr> q)"

fun memoTr :: "'c grammar \<Rightarrow> (nat \<Rightarrow> bool) \<Rightarrow> 'c pattern \<Rightarrow> 'c pattern" where
  "memoTr g dn (Ref r) = Ref r"
| "memoTr g dn (Static i q) = Static i q"
| "memoTr g dn (Element nc p) = Element nc (memoTr g dn p)"
| "memoTr g dn (Choice l r) = wrapStatic g dn (Choice (memoTr g dn l) (memoTr g dn r))"
| "memoTr g dn (Group l r) = wrapStatic g dn (Group (memoTr g dn l) (memoTr g dn r))"
| "memoTr g dn (Interleave l r) = wrapStatic g dn (Interleave (memoTr g dn l) (memoTr g dn r))"
| "memoTr g dn (OneOrMore p) = wrapStatic g dn (OneOrMore (memoTr g dn p))"
| "memoTr g dn p = p"

subsection \<open>A remembered answer is the answer\<close>









subsection \<open>The wrapped schema\<close>

lemma urefs_wrap [simp]: "urefs (wrapStatic g dn q) = urefs q"
  by (simp add: wrapStatic_def Let_def)

lemma urefs_memo [simp]: "urefs (memoTr g dn p) = urefs p"
  by (induction g dn p rule: memoTr.induct) auto

definition memoDefs :: "'c grammar \<Rightarrow> (nat \<Rightarrow> bool) \<Rightarrow> nat \<Rightarrow> 'c pattern option" where
  "memoDefs g dn r = (if dn r then map_option (memoTr g dn) (defn g r) else defn g r)"

text \<open>\<open>addMemoPoints\<close>: every resolved definition is replaced by its wrapped form.\<close>

definition addMemoPoints :: "'c grammar \<Rightarrow> (nat \<Rightarrow> bool) \<Rightarrow> 'c grammar" where
  "addMemoPoints g dn = Abs_grammar (memoDefs g dn)"

lemma ranked_grammar:
  "\<exists>rk :: nat \<Rightarrow> nat. \<forall>r q. defn g r = Some q \<longrightarrow> (\<forall>s \<in> urefs q. rk s < rk r)"
  using Rep_grammar [of g] by (simp add: defn_def)

lemma defn_Abs:
  assumes "\<And>r q. f r = Some q \<Longrightarrow> \<exists>p. defn g r = Some p \<and> urefs q = urefs p"
  shows "defn (Abs_grammar f) = f"
proof -
  have "f \<in> {g. \<exists>rk :: nat \<Rightarrow> nat. \<forall>r q. g r = Some q \<longrightarrow> (\<forall>s \<in> urefs q. rk s < rk r)}"
    using ranked_grammar [of g] assms by (auto, metis)
  then show ?thesis unfolding defn_def by (rule Abs_grammar_inverse)
qed

lemma defn_memo [simp]: "defn (addMemoPoints g dn) = memoDefs g dn"
  unfolding addMemoPoints_def
  by (rule defn_Abs [of _ g]) (auto simp: memoDefs_def split: if_splits)


text \<open>The syntactic conditions look through wrappers.\<close>

lemma wrap_simps [simp]:
  "noAttr g (wrapStatic h dn q) = noAttr g q" "aSimple g (wrapStatic h dn q) = aSimple g q"
  "strOk g (wrapStatic h dn q) = strOk g q" "plain (wrapStatic h dn q) = plain q"
  "nullable g (wrapStatic g dn q) = nullable g q"
  by (simp_all add: wrapStatic_def Let_def)

lemma memo_same [simp]:
  "plain (memoTr g dn p) = plain p" "nullable g (memoTr g dn p) = nullable g p"
  "noAttr h (memoTr g dn p) = noAttr h p" "aSimple h (memoTr g dn p) = aSimple h p"
  by (induction g dn p rule: memoTr.induct) auto

lemma memo_strOk [simp]: "strOk g (memoTr g dn p) = strOk g p"
  by (induction g dn p rule: memoTr.induct) auto



lemma nullable_wrap:
  "nullable h (wrapStatic g dn q) = (if patternSize q < minWrap then nullable h q else nullable g q)"
  by (simp add: wrapStatic_def Let_def)

lemma memo_nullable [simp]:
  "nullable (addMemoPoints g dn) p = nullable g p \<and>
   nullable (addMemoPoints g dn) (memoTr g dn p) = nullable g p"
  by (induction g p rule: nullable.induct) (auto simp: memoDefs_def nullable_wrap split: option.split)







subsection \<open>Wrappers are invisible to the meaning\<close>

primrec erase :: "'c pattern \<Rightarrow> 'c pattern" where
  "erase NotAllowed = NotAllowed"
| "erase Empty = Empty"
| "erase Text = Text"
| "erase (Choice l r) = Choice (erase l) (erase r)"
| "erase (Interleave l r) = Interleave (erase l) (erase r)"
| "erase (Group l r) = Group (erase l) (erase r)"
| "erase (OneOrMore p) = OneOrMore (erase p)"
| "erase (Element nc p) = Element nc (erase p)"
| "erase (Attribute nc p) = Attribute nc (erase p)"
| "erase (Value dt v c) = Value dt v c"
| "erase (Data dt ps ex) = Data dt ps (map_option erase ex)"
| "erase (ListP p) = ListP (erase p)"
| "erase (After l r) = After (erase l) (erase r)"
| "erase (Ref r) = Ref r"
| "erase (Static i p) = erase p"

lemma urefs_erase [simp]: "urefs (erase p) = urefs p"
proof (induction p)
  case (Data dt ps ex)
  then show ?case by (cases ex) auto
qed auto

definition eraseG :: "'c grammar \<Rightarrow> 'c grammar" where
  "eraseG g = Abs_grammar (\<lambda>r. map_option erase (defn g r))"

lemma defn_eraseG [simp]: "defn (eraseG g) r = map_option erase (defn g r)"
proof -
  have "defn (eraseG g) = (\<lambda>r. map_option erase (defn g r))"
    unfolding eraseG_def by (rule defn_Abs [of _ g]) auto
  then show ?thesis by simp
qed



lemma erase_unstatic: "erase (unstatic p) = erase p"
  by (induction p rule: unstatic.induct) auto





lemma erase_memo [simp]: "erase (memoTr g dn p) = erase p"
  by (induction g dn p rule: memoTr.induct) (simp_all add: wrapStatic_def Let_def)




subsection \<open>Remembered answers\<close>


definition wChoice :: "unit pattern" where
  "wChoice = Choice (Element (nm ''b'') Empty) (Choice (Element (nm ''c'') Empty) (Element (nm ''d'') Empty))"

definition wChoice' :: "unit pattern" where
  "wChoice' = Choice (Element (nm ''b'') Empty) (Choice (Element (nm ''e'') Empty) (Element (nm ''f'') Empty))"


lemma memo_wChoice:
  "memoTr wGrammar (\<lambda>_. True) wChoice =
     Static \<lparr>sSize = 5, sNull = False, sDataFree = True, sSelfEq = True, sAttrFree = True\<rparr> wChoice"
  "memoTr wGrammar (\<lambda>_. True) wChoice' =
     Static \<lparr>sSize = 5, sNull = False, sDataFree = True, sSelfEq = True, sAttrFree = True\<rparr> wChoice'"
  by (simp_all add: wrapStatic_def wChoice_def wChoice'_def minWrap_def addSize_def MaxInt_def int32_def nm_def
      patEq.simps)

lemmas choice_eval = wChoice_def wChoice'_def nm_def choice.simps inChoice.simps patEq.simps addSize_def MaxInt_def
  maxMergePairs_def

text \<open>Wrappers are visible to the size bound: \<open>choice\<close> merges a choice on the right alternative by
  alternative, but not when a memo wrapper stands around it, so the same derivative has 11 nodes
  on the wrapped schema and 9 on the unwrapped one.\<close>

theorem wrapper_changes_size:
  "patternSize (choice wChoice wChoice') = 9 \<and>
   patternSize (choice (memoTr wGrammar (\<lambda>_. True) wChoice) (memoTr wGrammar (\<lambda>_. True) wChoice')) = 11"
proof
  show "patternSize (choice wChoice wChoice') = 9" by (simp add: choice_eval)
  show "patternSize (choice (memoTr wGrammar (\<lambda>_. True) wChoice) (memoTr wGrammar (\<lambda>_. True) wChoice')) = 11"
    unfolding memo_wChoice by (simp add: choice_eval)
qed

end
