(* ===== verification/NameMemo.thy ===== *)
theory NameMemo
  imports Prelude "HOL-Library.AList"
begin

text \<open>
  The shared memo of \<open>relaxng/pattern.go\<close> (\<open>nameMemo\<close>) and the lookup that
  \<open>startTagOpenDeriv\<close> makes through it. Validations of one schema run concurrently, so besides
  the operations as functions there is a step relation over any number of lookups, each at its
  own point of the code. Every access another lookup can observe is a step of its own: the
  atomic reads of the snapshot and of \<open>np\<close>, taking and leaving the mutex, and, inside the
  locked sections, the two atomic writes of a publication. The direct derivative of the name is
  the parameter \<open>f\<close>.
\<close>

subsection \<open>State and operations\<close>

record nameKey =
  kns :: string
  klocal :: string

record 'p nameMemo =
  snap :: "(nameKey \<times> 'p) list option"
  pending :: "(nameKey \<times> 'p) list"
  np :: nat
  hits :: nat

definition maxOpenMemo :: nat where "maxOpenMemo = 1024"
definition pendingHitsPublish :: nat where "pendingHitsPublish = 8"

definition newMemo :: "'p nameMemo" where
  "newMemo = \<lparr>snap = None, pending = [], np = 0, hits = 0\<rparr>"

definition old :: "'p nameMemo \<Rightarrow> (nameKey \<times> 'p) list" where
  "old c = (case snap c of None \<Rightarrow> [] | Some m \<Rightarrow> m)"

text \<open>A publication, as its two visible writes: the new snapshot, then the cleared counters.\<close>

definition pubSnap :: "'p nameMemo \<Rightarrow> 'p nameMemo" where
  "pubSnap c = c\<lparr>snap := Some (AList.merge (old c) (pending c))\<rparr>"

definition pubReset :: "'p nameMemo \<Rightarrow> 'p nameMemo" where
  "pubReset c = c\<lparr>pending := [], np := 0, hits := 0\<rparr>"

definition publishLocked :: "'p nameMemo \<Rightarrow> 'p nameMemo" where
  "publishLocked c = pubReset (pubSnap c)"

text \<open>The part of \<open>load\<close> under the mutex, before a publication: the answer, the new state and
  whether to publish.\<close>

definition loadPending :: "'p nameMemo \<Rightarrow> nameKey \<Rightarrow> 'p nameMemo \<times> 'p option \<times> bool" where
  "loadPending c k =
     (case map_of (pending c) k of
        None \<Rightarrow> (c, None, False)
      | Some p \<Rightarrow> (c\<lparr>hits := hits c + 1\<rparr>, Some p, hits c + 1 \<ge> pendingHitsPublish))"

definition load :: "'p nameMemo \<Rightarrow> nameKey \<Rightarrow> 'p nameMemo \<times> 'p option" where
  "load c k =
     (case map_of (old c) k of
        Some p \<Rightarrow> (c, Some p)
      | None \<Rightarrow>
          if np c = 0 then (c, None)
          else
            let (c', r, pub) = loadPending c k in
            (if pub then publishLocked c' else c', r))"

text \<open>\<open>store\<close> before its publication.\<close>

definition storePending :: "'p nameMemo \<Rightarrow> nameKey \<Rightarrow> 'p \<Rightarrow> 'p nameMemo \<times> bool" where
  "storePending c k p =
     (if map_of (pending c) k = None \<and> length (old c) + length (pending c) \<ge> maxOpenMemo
      then (c, False)
      else
        let ps = AList.update k p (pending c);
            c' = c\<lparr>pending := ps, np := length ps\<rparr> in
        (c', length ps > length (old c)))"

definition store :: "'p nameMemo \<Rightarrow> nameKey \<Rightarrow> 'p \<Rightarrow> 'p nameMemo" where
  "store c k p = (let (c', pub) = storePending c k p in if pub then publishLocked c' else c')"

subsection \<open>Concurrent lookups\<close>

datatype 'p pc =
    Start nameKey
  | CheckNp nameKey
  | LoadLock nameKey
  | LoadPubSnap nameKey 'p
  | LoadPubReset nameKey 'p
  | LoadUnlock nameKey "'p option"
  | Compute nameKey
  | StoreLock nameKey 'p
  | StorePubSnap nameKey 'p
  | StorePubReset nameKey 'p
  | StoreUnlock nameKey 'p
  | Done nameKey 'p

record 'p shared =
  memo :: "'p nameMemo"
  lock :: "nat option"
  threads :: "'p pc list"

text \<open>One step of the lookup at index \<open>i\<close>: None where it is waiting for the mutex or has
  finished.\<close>

fun stepPc :: "(nameKey \<Rightarrow> 'p) \<Rightarrow> nat \<Rightarrow> 'p nameMemo \<Rightarrow> nat option \<Rightarrow> 'p pc \<Rightarrow>
    ('p nameMemo \<times> nat option \<times> 'p pc) option" where
  "stepPc f i c l (Start k) =
     Some (c, l, case map_of (old c) k of Some p \<Rightarrow> Done k p | None \<Rightarrow> CheckNp k)"
| "stepPc f i c l (CheckNp k) = Some (c, l, if np c = 0 then Compute k else LoadLock k)"
| "stepPc f i c l (LoadLock k) =
     (case l of
        Some _ \<Rightarrow> None
      | None \<Rightarrow>
          (case loadPending c k of
             (c', Some p, True) \<Rightarrow> Some (c', Some i, LoadPubSnap k p)
           | (c', r, _) \<Rightarrow> Some (c', Some i, LoadUnlock k r)))"
| "stepPc f i c l (LoadPubSnap k p) = Some (pubSnap c, l, LoadPubReset k p)"
| "stepPc f i c l (LoadPubReset k p) = Some (pubReset c, l, LoadUnlock k (Some p))"
| "stepPc f i c l (LoadUnlock k r) =
     Some (c, None, case r of Some p \<Rightarrow> Done k p | None \<Rightarrow> Compute k)"
| "stepPc f i c l (Compute k) = Some (c, l, StoreLock k (f k))"
| "stepPc f i c l (StoreLock k p) =
     (case l of
        Some _ \<Rightarrow> None
      | None \<Rightarrow>
          (case storePending c k p of
             (c', True) \<Rightarrow> Some (c', Some i, StorePubSnap k p)
           | (c', False) \<Rightarrow> Some (c', Some i, StoreUnlock k p)))"
| "stepPc f i c l (StorePubSnap k p) = Some (pubSnap c, l, StorePubReset k p)"
| "stepPc f i c l (StorePubReset k p) = Some (pubReset c, l, StoreUnlock k p)"
| "stepPc f i c l (StoreUnlock k p) = Some (c, None, Done k p)"
| "stepPc f i c l (Done k p) = None"

inductive step :: "(nameKey \<Rightarrow> 'p) \<Rightarrow> 'p shared \<Rightarrow> 'p shared \<Rightarrow> bool" for f where
  step: "i < length (threads s) \<Longrightarrow> stepPc f i (memo s) (lock s) (threads s ! i) = Some (c, l, pc) \<Longrightarrow>
    step f s \<lparr>memo = c, lock = l, threads = (threads s)[i := pc]\<rparr>"

definition launch :: "nameKey list \<Rightarrow> 'p shared" where
  "launch ks = \<lparr>memo = newMemo, lock = None, threads = map Start ks\<rparr>"

inductive reach :: "(nameKey \<Rightarrow> 'p) \<Rightarrow> nameKey list \<Rightarrow> 'p shared \<Rightarrow> bool" for f ks where
  init: "reach f ks (launch ks)"
| more: "reach f ks s \<Longrightarrow> step f s s' \<Longrightarrow> reach f ks s'"

subsection \<open>Invariant\<close>

fun holding :: "'p pc \<Rightarrow> bool" where
  "holding (LoadPubSnap k p) = True"
| "holding (LoadPubReset k p) = True"
| "holding (LoadUnlock k r) = True"
| "holding (StorePubSnap k p) = True"
| "holding (StorePubReset k p) = True"
| "holding (StoreUnlock k p) = True"
| "holding pc = False"

fun resetting :: "'p pc \<Rightarrow> bool" where
  "resetting (LoadPubReset k p) = True"
| "resetting (StorePubReset k p) = True"
| "resetting pc = False"

fun keyOf :: "'p pc \<Rightarrow> nameKey" where
  "keyOf (Start k) = k"
| "keyOf (CheckNp k) = k"
| "keyOf (LoadLock k) = k"
| "keyOf (LoadPubSnap k p) = k"
| "keyOf (LoadPubReset k p) = k"
| "keyOf (LoadUnlock k r) = k"
| "keyOf (Compute k) = k"
| "keyOf (StoreLock k p) = k"
| "keyOf (StorePubSnap k p) = k"
| "keyOf (StorePubReset k p) = k"
| "keyOf (StoreUnlock k p) = k"
| "keyOf (Done k p) = k"

text \<open>What a lookup has in hand is the derivative of its own name.\<close>

fun pcOk :: "(nameKey \<Rightarrow> 'p) \<Rightarrow> 'p pc \<Rightarrow> bool" where
  "pcOk f (LoadPubSnap k p) = (p = f k)"
| "pcOk f (LoadPubReset k p) = (p = f k)"
| "pcOk f (LoadUnlock k r) = (r = None \<or> r = Some (f k))"
| "pcOk f (StoreLock k p) = (p = f k)"
| "pcOk f (StorePubSnap k p) = (p = f k)"
| "pcOk f (StorePubReset k p) = (p = f k)"
| "pcOk f (StoreUnlock k p) = (p = f k)"
| "pcOk f (Done k p) = (p = f k)"
| "pcOk f pc = True"

definition entriesOk :: "(nameKey \<Rightarrow> 'p) \<Rightarrow> (nameKey \<times> 'p) list \<Rightarrow> bool" where
  "entriesOk f m \<longleftrightarrow> distinct (map fst m) \<and> (\<forall>(k, p) \<in> set m. p = f k)"

definition memoOk :: "(nameKey \<Rightarrow> 'p) \<Rightarrow> 'p nameMemo \<Rightarrow> bool" where
  "memoOk f c \<longleftrightarrow> entriesOk f (old c) \<and> entriesOk f (pending c) \<and> np c = length (pending c) \<and>
     length (old c) \<le> maxOpenMemo \<and> length (pending c) \<le> maxOpenMemo"

definition capOk :: "'p nameMemo \<Rightarrow> bool" where
  "capOk c \<longleftrightarrow> length (old c) + length (pending c) \<le> maxOpenMemo"

lemma entriesOk_Nil [simp]: "entriesOk f []"
  by (simp add: entriesOk_def)

lemma entriesOk_map_of: "entriesOk f m \<Longrightarrow> map_of m k = Some p \<Longrightarrow> p = f k"
  by (auto simp: entriesOk_def dest: map_of_SomeD)

lemma entriesOk_update: "entriesOk f m \<Longrightarrow> entriesOk f (AList.update k (f k) m)"
  unfolding entriesOk_def by (induction m) (auto simp: distinct_update dom_update)

lemma length_update: "length (AList.update k p m) = (if map_of m k = None then Suc (length m) else length m)"
  by (induction m) auto

lemma entriesOk_merge:
  assumes "entriesOk f m" "entriesOk f ps"
  shows "entriesOk f (AList.merge m ps) \<and> length (AList.merge m ps) \<le> length m + length ps"
  using assms(2)
proof (induction ps)
  case Nil
  then show ?case using assms(1) by simp
next
  case (Cons kp ps)
  obtain k p where "kp = (k, p)" by fastforce
  then have "p = f k" "entriesOk f ps" using Cons.prems by (auto simp: entriesOk_def)
  then show ?case using Cons.IH \<open>kp = (k, p)\<close> entriesOk_update [of f "AList.merge m ps" k]
    by (auto simp: AList.merge_def length_update)
qed

lemma memoOk_pubSnap: "memoOk f c \<Longrightarrow> capOk c \<Longrightarrow> memoOk f (pubSnap c)"
  using entriesOk_merge [of f "old c" "pending c"]
  by (auto simp: memoOk_def capOk_def pubSnap_def old_def split: option.splits)

lemma memoOk_pubReset: "memoOk f c \<Longrightarrow> memoOk f (pubReset c) \<and> capOk (pubReset c)"
  by (simp add: memoOk_def capOk_def pubReset_def old_def)

lemma old_hits [simp]: "old (c\<lparr>hits := n\<rparr>) = old c" "old (c\<lparr>pending := ps, np := n\<rparr>) = old c"
  by (simp_all add: old_def)

lemma loadPending_ok:
  assumes "loadPending c k = (c', r, pub)" "memoOk f c"
  shows "memoOk f c' \<and> capOk c' = capOk c \<and> (r = None \<or> r = Some (f k)) \<and> (pub \<longrightarrow> r \<noteq> None)"
proof (cases "map_of (pending c) k")
  case None
  with assms show ?thesis by (auto simp: loadPending_def)
next
  case (Some p)
  then have "p = f k" using entriesOk_map_of [of f "pending c" k p] assms(2) by (simp add: memoOk_def)
  moreover have "c' = c\<lparr>hits := hits c + 1\<rparr>" "r = Some p" using Some assms(1) by (simp_all add: loadPending_def)
  ultimately show ?thesis using assms(2) by (simp add: memoOk_def capOk_def)
qed

lemma storePending_ok:
  assumes "storePending c k (f k) = (c', pub)" "memoOk f c" "capOk c"
  shows "memoOk f c' \<and> capOk c'"
  using assms entriesOk_update [of f "pending c" k]
  by (auto simp: storePending_def memoOk_def capOk_def Let_def length_update split: if_splits)

text \<open>The operations, run alone, keep the memo's invariant and answer with the derivative or not
  at all.\<close>

lemma publish_ok: "memoOk f c \<Longrightarrow> capOk c \<Longrightarrow> memoOk f (publishLocked c) \<and> capOk (publishLocked c)"
  unfolding publishLocked_def using memoOk_pubSnap memoOk_pubReset by blast

lemma load_ok:
  assumes "memoOk f c" "capOk c" "load c k = (c', r)"
  shows "memoOk f c' \<and> capOk c' \<and> (r = None \<or> r = Some (f k))"
proof (cases "map_of (old c) k")
  case (Some p)
  then have "p = f k" using entriesOk_map_of [of f "old c" k p] assms(1) by (simp add: memoOk_def)
  with Some assms show ?thesis by (simp add: load_def)
next
  case None
  obtain c1 r1 pub where l: "loadPending c k = (c1, r1, pub)" by (metis prod_cases3)
  then have c1: "memoOk f c1" "capOk c1" "r1 = None \<or> r1 = Some (f k)"
    using loadPending_ok [OF l assms(1)] assms(2) by simp_all
  moreover have "load c k = (if np c = 0 then (c, None) else (if pub then publishLocked c1 else c1, r1))"
    using None l by (simp add: load_def)
  ultimately have "(c', r) \<in> {(c, None), (publishLocked c1, r1), (c1, r1)}"
    using assms(3) by (auto split: if_splits)
  then show ?thesis using assms(1,2) c1 publish_ok [of f c1] by auto
qed

lemma store_ok:
  assumes "memoOk f c" "capOk c"
  shows "memoOk f (store c k (f k)) \<and> capOk (store c k (f k))"
proof -
  obtain c1 pub where s: "storePending c k (f k) = (c1, pub)" by fastforce
  from storePending_ok [OF this assms] have "memoOk f c1" "capOk c1" by simp_all
  with s publish_ok [of f c1] show ?thesis by (simp add: store_def)
qed

lemma stepPc_ok:
  assumes "stepPc f i c l pc = Some (c', l', pc')" "memoOk f c" "pcOk f pc"
    "\<not> resetting pc \<Longrightarrow> holding pc \<or> l = None \<Longrightarrow> capOk c"
  shows "memoOk f c' \<and> pcOk f pc' \<and> keyOf pc' = keyOf pc \<and>
    (\<not> resetting pc' \<longrightarrow> holding pc \<or> holding pc' \<longrightarrow> capOk c') \<and>
    (if holding pc' then l' = (if holding pc then l else Some i) \<and> (holding pc \<or> l = None)
     else l' = (if holding pc then None else l) \<and> (holding pc \<or> c' = c))"
  using assms
proof (cases pc)
  case (LoadLock k)
  with assms show ?thesis
    by (auto split: option.splits prod.splits bool.splits
        dest!: loadPending_ok [of _ _ _ _ _ f])
next
  case (StoreLock k p)
  with assms show ?thesis
    by (auto split: option.splits prod.splits bool.splits
        dest!: storePending_ok [of _ _ f])
next
  case (Start k)
  with assms entriesOk_map_of [of f "old c" k] show ?thesis
    by (auto simp: memoOk_def split: option.splits)
next
  case (CheckNp k)
  with assms show ?thesis by (cases "np c = 0") auto
next
  case (LoadPubSnap k p)
  with assms memoOk_pubSnap show ?thesis by auto
next
  case (LoadPubReset k p)
  with assms memoOk_pubReset show ?thesis by auto
next
  case (LoadUnlock k r)
  with assms show ?thesis by (auto split: option.splits)
next
  case (StorePubSnap k p)
  with assms memoOk_pubSnap show ?thesis by auto
next
  case (StorePubReset k p)
  with assms memoOk_pubReset show ?thesis by auto
qed auto

definition inv :: "(nameKey \<Rightarrow> 'p) \<Rightarrow> nameKey list \<Rightarrow> 'p shared \<Rightarrow> bool" where
  "inv f ks s \<longleftrightarrow> memoOk f (memo s) \<and> map keyOf (threads s) = ks \<and> (\<forall>pc \<in> set (threads s). pcOk f pc) \<and>
     (\<forall>i < length (threads s). holding (threads s ! i) \<longleftrightarrow> lock s = Some i) \<and>
     (case lock s of None \<Rightarrow> capOk (memo s)
      | Some i \<Rightarrow> i < length (threads s) \<and> (\<not> resetting (threads s ! i) \<longrightarrow> capOk (memo s)))"

lemma inv_launch: "inv f ks (launch ks)"
  by (auto simp: inv_def launch_def newMemo_def memoOk_def capOk_def old_def comp_def)

lemma inv_step:
  assumes "inv f ks s" "step f s s'"
  shows "inv f ks s'"
  using assms(2)
proof cases
  case (step i c l pc)
  let ?pc = "threads s ! i"
  have h: "holding ?pc = (lock s = Some i)" and ok: "memoOk f (memo s)" "pcOk f ?pc"
    using assms(1) step(2) by (auto simp: inv_def)
  have cap: "\<not> resetting ?pc \<Longrightarrow> holding ?pc \<or> lock s = None \<Longrightarrow> capOk (memo s)"
    using assms(1) h by (auto simp: inv_def)
  note res = stepPc_ok [OF step(3) ok cap]
  have others: "holding (threads s ! j) = (lock s = Some j)" if "j < length (threads s)" for j
    using assms(1) that by (simp add: inv_def)
  have keys: "map keyOf ((threads s)[i := pc]) = ks"
  proof -
    have "map keyOf ((threads s)[i := pc]) = (map keyOf (threads s))[i := map keyOf (threads s) ! i]"
      using res step(2) by (simp add: map_update)
    then show ?thesis using assms(1) by (simp only: list_update_id inv_def)
  qed
  have pcs: "\<forall>p \<in> set ((threads s)[i := pc]). pcOk f p"
    using assms(1) res set_update_subset_insert [of "threads s" i pc] by (auto simp: inv_def)
  have locks: "holding ((threads s)[i := pc] ! j) = (l = Some j)" if "j < length (threads s)" for j
    using others [OF that] h res that step(2) by (cases "j = i") (auto split: if_splits)
  have lim: "case l of None \<Rightarrow> capOk c
      | Some j \<Rightarrow> j < length (threads s) \<and> (\<not> resetting ((threads s)[i := pc] ! j) \<longrightarrow> capOk c)"
  proof (cases "holding ?pc \<or> holding pc")
    case True
    then show ?thesis using res h step(2) by (auto split: if_splits option.splits elim: resetting.elims)
  next
    case False
    then show ?thesis using res assms(1) h step(2) by (auto simp: inv_def split: option.splits)
  qed
  show ?thesis unfolding inv_def step(1) shared.select_convs length_list_update
    using res keys pcs locks lim by (intro conjI) simp_all
qed

lemma reach_inv: "reach f ks s \<Longrightarrow> inv f ks s"
  by (induction rule: reach.induct) (auto intro: inv_launch inv_step)

subsection \<open>Progress\<close>

fun todo :: "'p pc \<Rightarrow> nat" where
  "todo (Start k) = 11"
| "todo (CheckNp k) = 10"
| "todo (LoadLock k) = 9"
| "todo (LoadPubSnap k p) = 8"
| "todo (LoadPubReset k p) = 7"
| "todo (LoadUnlock k r) = 6"
| "todo (Compute k) = 5"
| "todo (StoreLock k p) = 4"
| "todo (StorePubSnap k p) = 3"
| "todo (StorePubReset k p) = 2"
| "todo (StoreUnlock k p) = 1"
| "todo (Done k p) = 0"

definition work :: "'p shared \<Rightarrow> nat" where
  "work s = sum_list (map todo (threads s))"

lemma stepPc_todo: "stepPc f i c l pc = Some (c', l', pc') \<Longrightarrow> todo pc' < todo pc"
  by (cases pc) (auto split: option.splits prod.splits bool.splits if_splits)

lemma step_work: "step f s s' \<Longrightarrow> work s' < work s"
proof (induction rule: step.cases)
  case (step i s c l pc)
  have "sum_list ((map todo (threads s))[i := todo pc]) < sum_list (map todo (threads s))"
    using stepPc_todo [OF step(4)] step(3) elem_le_sum_list [of i "map todo (threads s)"]
    by (simp add: sum_list_update)
  with step(1,2) show ?case by (simp add: work_def map_update)
qed

lemma steps_work: "(step f ^^ n) s s' \<Longrightarrow> n + work s' \<le> work s"
proof (induction n arbitrary: s')
  case (Suc n)
  then obtain t where "(step f ^^ n) s t" "step f t s'" by auto
  with Suc.IH [of t] step_work [of f t s'] show ?case by simp
qed simp

text \<open>Only the mutex makes a lookup wait, and whoever holds it can go on.\<close>

lemma stepPc_blocks: "stepPc f i c l pc = None \<Longrightarrow> todo pc = 0 \<or> (l \<noteq> None \<and> \<not> holding pc)"
  by (cases pc) (auto split: option.splits prod.splits bool.splits if_splits)

lemma some_step:
  assumes "inv f ks s" "work s \<noteq> 0"
  shows "\<exists>s'. step f s s'"
proof -
  obtain i where i: "i < length (threads s)" "todo (threads s ! i) \<noteq> 0"
    using assms(2) by (auto simp: work_def in_set_conv_nth)
  define j where "j = (case lock s of None \<Rightarrow> i | Some j \<Rightarrow> j)"
  have j: "j < length (threads s)" "lock s = None \<or> holding (threads s ! j)" "todo (threads s ! j) \<noteq> 0"
  proof -
    show l: "j < length (threads s)" using assms(1) i(1) by (auto simp: j_def inv_def split: option.splits)
    show h: "lock s = None \<or> holding (threads s ! j)"
      using assms(1) l by (auto simp: j_def inv_def split: option.splits)
    show "todo (threads s ! j) \<noteq> 0"
      using h i(2) by (cases "threads s ! j") (auto simp: j_def)
  qed
  then obtain r where "stepPc f j (memo s) (lock s) (threads s ! j) = Some r"
    using stepPc_blocks [of f j "memo s" "lock s" "threads s ! j"] by (cases "stepPc f j (memo s) (lock s) (threads s ! j)") auto
  then show ?thesis using step.intros [of j s f] j(1) by (cases r) blast
qed

lemma todo_0: "todo pc = 0 \<Longrightarrow> pcOk f pc \<Longrightarrow> pc = Done (keyOf pc) (f (keyOf pc))"
  by (cases pc) auto

lemma finished: "inv f ks s \<Longrightarrow> work s = 0 \<Longrightarrow> threads s = map (\<lambda>k. Done k (f k)) ks"
proof -
  assume a: "inv f ks s" "work s = 0"
  have "map (\<lambda>pc. Done (keyOf pc) (f (keyOf pc))) (threads s) = threads s"
    using a todo_0 [of _ f] by (intro map_idI) (auto simp: work_def inv_def)
  moreover have "ks = map keyOf (threads s)" using a(1) by (simp add: inv_def)
  ultimately show "threads s = map (\<lambda>k. Done k (f k)) ks" by (simp add: comp_def)
qed

lemma run_to_end: "inv f ks s \<Longrightarrow> \<exists>s'. (step f)\<^sup>*\<^sup>* s s' \<and> threads s' = map (\<lambda>k. Done k (f k)) ks"
proof (induction "work s" arbitrary: s rule: less_induct)
  case less
  show ?case
  proof (cases "work s = 0")
    case True
    then show ?thesis using finished [OF less.prems] by blast
  next
    case False
    then obtain t where t: "step f s t" using some_step [OF less.prems] by blast
    then obtain s' where "(step f)\<^sup>*\<^sup>* t s'" "threads s' = map (\<lambda>k. Done k (f k)) ks"
      using less.hyps [OF step_work [OF t] inv_step [OF less.prems t]] by blast
    then show ?thesis using t by (meson converse_rtranclp_into_rtranclp)
  qed
qed

text \<open>C11: However the lookups of any number of validations interleave, one that has finished
  returns the direct derivative of its own name, the entries of the memo are derivatives of
  their names, no name is twice in the snapshot or among the pending entries, neither holds
  more than \<open>maxOpenMemo\<close>, and \<open>np\<close> counts the pending entries exactly. Whenever
  the mutex is free the two together respect the cap.\<close>

theorem nameMemo_safe:
  assumes "reach f ks s"
  shows "(\<forall>i < length ks. \<forall>k p. threads s ! i = Done k p \<longrightarrow> k = ks ! i \<and> p = f (ks ! i)) \<and>
    entriesOk f (old (memo s)) \<and> entriesOk f (pending (memo s)) \<and>
    length (old (memo s)) \<le> 1024 \<and> np (memo s) = length (pending (memo s)) \<and>
    (lock s = None \<longrightarrow> length (old (memo s)) + length (pending (memo s)) \<le> 1024)"
proof -
  have inv: "inv f ks s" using assms by (rule reach_inv)
  have "k = ks ! i \<and> p = f (ks ! i)" if "i < length ks" "threads s ! i = Done k p" for i k p
  proof -
    have m: "map keyOf (threads s) = ks" using inv by (simp only: inv_def)
    from arg_cong [OF m, of length] have l: "i < length (threads s)" using that(1) by simp
    have "pcOk f (threads s ! i)" using inv l by (simp add: inv_def)
    moreover have "ks ! i = keyOf (threads s ! i)" unfolding m [symmetric] using l by simp
    ultimately show ?thesis using that(2) by simp
  qed
  then show ?thesis using inv by (auto simp: inv_def memoOk_def capOk_def maxOpenMemo_def)
qed

text \<open>C12: Lookups cannot deadlock or run forever: a run from the start takes at most eleven steps
  per lookup, whatever the scheduler does, and from every reachable state the lookups can all
  finish, each with the derivative of its name.\<close>

theorem nameMemo_live:
  "((step f ^^ n) (launch ks) s \<longrightarrow> n \<le> 11 * length ks) \<and>
   (reach f ks s \<longrightarrow> (\<exists>s'. (step f)\<^sup>*\<^sup>* s s' \<and> threads s' = map (\<lambda>k. Done k (f k)) ks))"
proof (intro conjI impI)
  have "work (launch ks :: 'a shared) = 11 * length ks"
    by (induction ks) (auto simp: work_def launch_def)
  moreover assume "(step f ^^ n) (launch ks) s"
  ultimately show "n \<le> 11 * length ks" using steps_work [of n f "launch ks" s] by simp
next
  assume "reach f ks s"
  then show "\<exists>s'. (step f)\<^sup>*\<^sup>* s s' \<and> threads s' = map (\<lambda>k. Done k (f k)) ks"
    using run_to_end reach_inv by blast
qed

subsection \<open>Cost of publication\<close>

text \<open>The entries copied when a store publishes, and over a run of stores.\<close>

definition storeCost :: "'p nameMemo \<Rightarrow> nameKey \<Rightarrow> 'p \<Rightarrow> nat" where
  "storeCost c k p = (let (c', pub) = storePending c k p in
     if pub then length (old c') + length (pending c') else 0)"

fun storesCost :: "'p nameMemo \<Rightarrow> (nameKey \<times> 'p) list \<Rightarrow> nat" where
  "storesCost c [] = 0"
| "storesCost c ((k, p) # kps) = storeCost c k p + storesCost (store c k p) kps"

lemma store_cost1:
  assumes "length (pending c) \<le> length (old c)"
  shows "storeCost c k p + 2 * length (pending (store c k p)) \<le> 2 + 2 * length (pending c) \<and>
    length (pending (store c k p)) \<le> length (old (store c k p))"
proof -
  obtain c' pub where s: "storePending c k p = (c', pub)" by fastforce
  have c': "old c' = old c" "length (pending c') \<le> Suc (length (pending c))"
    "pub = (length (old c) < length (pending c'))"
  proof -
    have "(c', pub) = (c, False) \<or>
        (c', pub) = (c\<lparr>pending := AList.update k p (pending c), np := length (AList.update k p (pending c))\<rparr>,
          length (AList.update k p (pending c)) > length (old c))"
      using s by (simp add: storePending_def Let_def split: if_split_asm)
    then show "old c' = old c" "length (pending c') \<le> Suc (length (pending c))"
      "pub = (length (old c) < length (pending c'))"
      using assms by (auto simp: length_update)
  qed
  show ?thesis
  proof (cases pub)
    case True
    then show ?thesis using c' s assms
      by (simp add: storeCost_def store_def publishLocked_def pubReset_def)
  next
    case False
    then show ?thesis using c' s by (simp add: storeCost_def store_def)
  qed
qed

lemma stores_cost:
  "length (pending c) \<le> length (old c) \<Longrightarrow> storesCost c kps \<le> 2 * length kps + 2 * length (pending c)"
proof (induction c kps rule: storesCost.induct)
  case (2 c k p kps)
  then show ?case using store_cost1 [of c k p] by fastforce
qed simp

text \<open>Publishing is linear: over any run of stores into a new memo, the entries copied into
  snapshots are at most twice the stores.\<close>

theorem nameMemo_cost: "storesCost newMemo kps \<le> 2 * length kps"
  using stores_cost [of newMemo kps] by (simp add: newMemo_def)

subsection \<open>Witnesses\<close>

definition wKey :: nameKey where
  "wKey = \<lparr>kns = [], klocal = ''p''\<rparr>"

definition wShared :: "nat shared" where
  "wShared = \<lparr>memo = newMemo, lock = None, threads = [Start wKey, CheckNp wKey]\<rparr>"

lemma wShared_step: "step (\<lambda>_. 7) (launch [wKey, wKey]) wShared"
  using step.intros [of 1 "launch [wKey, wKey]" "\<lambda>_. 7" newMemo None "CheckNp wKey"]
  by (simp add: launch_def wShared_def newMemo_def old_def)

lemma wShared_reach: "reach (\<lambda>_. 7) [wKey, wKey] wShared"
  using reach.more [OF reach.init wShared_step] .

theorem nameMemo_safe_witness:
  "reach (\<lambda>_. 7) [wKey, wKey] wShared \<and> np (memo wShared) = length (pending (memo wShared)) \<and>
   length (old (memo wShared)) + length (pending (memo wShared)) \<le> 1024"
  using nameMemo_safe [OF wShared_reach] wShared_reach by (simp add: wShared_def)

theorem nameMemo_live_witness:
  "(step (\<lambda>_. 7) ^^ 1) (launch [wKey, wKey]) wShared \<and> (1::nat) \<le> 11 * length [wKey, wKey] \<and>
   (\<exists>s'. (step (\<lambda>_. 7))\<^sup>*\<^sup>* wShared s' \<and> threads s' = [Done wKey 7, Done wKey (7::nat)])"
proof -
  have one: "(step (\<lambda>_. 7) ^^ 1) (launch [wKey, wKey]) wShared" using wShared_step by (simp only: relpowp_1)
  then show ?thesis
    using nameMemo_live [of 1 "\<lambda>_. 7" "[wKey, wKey]" wShared] wShared_reach by simp
qed

end
