(* ===== verification/Dec.thy ===== *)
theory Dec
  imports Prelude Complex_Main
begin

text \<open>
  Decimal text: what the calendar and number types use of Go's \<open>fmt\<close>, \<open>strconv\<close> and
  \<open>math/big\<close>. \<open>decStr\<close> is \<open>%d\<close> of a natural number, \<open>pad\<close> the zero padding
  of \<open>%0wd\<close>, \<open>digitsVal\<close> the value of a run of digits, \<open>Atoi\<close> is
  \<open>strconv.Atoi\<close> on a 64-bit machine, \<open>ratOfDigits\<close> is \<open>big.Rat.SetString\<close> on digits with an
  optional point, and \<open>floatString\<close> is \<open>big.Rat.FloatString\<close> of a non-negative rational. A
  \<open>big.Rat\<close> is a \<open>rat\<close>.
\<close>

subsection \<open>Digits\<close>

definition isDigit :: "char \<Rightarrow> bool" where
  "isDigit c \<longleftrightarrow> 48 \<le> (of_char c :: nat) \<and> (of_char c :: nat) \<le> 57"

definition digitVal :: "char \<Rightarrow> nat" where
  "digitVal c = of_char c - 48"

definition digitChar :: "nat \<Rightarrow> char" where
  "digitChar n = char_of (48 + n)"

lemma digitChar [simp]: "n < 10 \<Longrightarrow> isDigit (digitChar n)" "n < 10 \<Longrightarrow> digitVal (digitChar n) = n"
  by (simp_all add: isDigit_def digitVal_def digitChar_def)

lemma digitVal_less: "isDigit c \<Longrightarrow> digitVal c < 10"
  unfolding isDigit_def digitVal_def by linarith

lemma digitChar_digitVal: "isDigit c \<Longrightarrow> digitChar (digitVal c) = c"
  by (simp add: isDigit_def digitVal_def digitChar_def)

definition digitsVal :: "string \<Rightarrow> nat" where
  "digitsVal s = foldl (\<lambda>a c. 10 * a + digitVal c) 0 s"

lemma digitsVal_Nil [simp]: "digitsVal [] = 0"
  by (simp add: digitsVal_def)

lemma digitsVal_snoc [simp]: "digitsVal (s @ [c]) = 10 * digitsVal s + digitVal c"
  by (simp add: digitsVal_def)

lemma digitsVal_append: "digitsVal (s @ t) = digitsVal s * 10 ^ length t + digitsVal t"
proof (induction t rule: rev_induct)
  case (snoc c t)
  have "digitsVal (s @ t @ [c]) = 10 * digitsVal (s @ t) + digitVal c"
    using digitsVal_snoc [of "s @ t" c] by simp
  then show ?case using snoc.IH by (simp add: algebra_simps)
qed simp

lemma digitsVal_Cons: "digitsVal (c # s) = digitVal c * 10 ^ length s + digitsVal s"
  using digitsVal_append [of "[c]" s] by (simp add: digitsVal_def)

lemma digitsVal_less: "list_all isDigit s \<Longrightarrow> digitsVal s < 10 ^ length s"
proof (induction s rule: rev_induct)
  case (snoc c s)
  then show ?case using digitVal_less [of c] by simp
qed simp

subsection \<open>Printing\<close>

fun decStr :: "nat \<Rightarrow> string" where
  "decStr n = (if n < 10 then [digitChar n] else decStr (n div 10) @ [digitChar (n mod 10)])"

declare decStr.simps [simp del]

lemma decStr_digits [simp]: "list_all isDigit (decStr n)"
proof (induction n rule: decStr.induct)
  case (1 n)
  then show ?case by (subst decStr.simps) simp
qed

lemma decStr_val [simp]: "digitsVal (decStr n) = n"
proof (induction n rule: decStr.induct)
  case (1 n)
  then show ?case by (subst decStr.simps) (auto simp: digitsVal_def)
qed

lemma decStr_nonempty [simp]: "decStr n \<noteq> []"
  by (subst decStr.simps) auto

lemma decStr_small: "n < 10 \<Longrightarrow> decStr n = [digitChar n]"
  by (simp add: decStr.simps [of n])

lemma decStr_two: "10 \<le> n \<Longrightarrow> n < 100 \<Longrightarrow> decStr n = [digitChar (n div 10), digitChar (n mod 10)]"
  by (simp add: decStr.simps [of n] decStr_small)

lemma decStr_head: "n \<noteq> 0 \<Longrightarrow> digitVal (hd (decStr n)) \<noteq> 0"
proof (induction n rule: decStr.induct)
  case (1 n)
  then show ?case by (subst decStr.simps) auto
qed

lemma decStr_length_le: "n < 10 ^ k \<Longrightarrow> 0 < k \<Longrightarrow> length (decStr n) \<le> k"
proof (induction k arbitrary: n)
  case (Suc k)
  show ?case
  proof (cases "n < 10")
    case True
    then show ?thesis by (simp add: decStr_small)
  next
    case False
    then have "k \<noteq> 0" using Suc.prems by (cases k) auto
    then show ?thesis using Suc.IH [of "n div 10"] Suc.prems False
      by (subst decStr.simps) (simp add: less_mult_imp_div_less mult.commute)
  qed
qed simp

lemma decStr_length_ge: "10 ^ k \<le> n \<Longrightarrow> k < length (decStr n)"
  using le_less_trans [of "10 ^ k" n "10 ^ length (decStr n)"] digitsVal_less [of "decStr n"] by simp

definition pad :: "nat \<Rightarrow> string \<Rightarrow> string" where
  "pad w s = replicate (w - length s) (CHR ''0'') @ s"

lemma isDigit_0 [simp]: "isDigit (CHR ''0'')"
  by (simp add: isDigit_def)

lemma digitVal_0 [simp]: "digitVal (CHR ''0'') = 0"
  by (simp add: digitVal_def)

lemma digitsVal_zeros [simp]: "digitsVal (replicate n (CHR ''0'')) = 0"
proof (induction n)
  case (Suc n)
  then show ?case by (simp add: digitsVal_Cons)
qed simp

lemma pad_val [simp]: "digitsVal (pad w s) = digitsVal s"
  by (simp add: pad_def digitsVal_append)

lemma pad_digits [simp]: "list_all isDigit (pad w s) = list_all isDigit s"
  by (auto simp: pad_def list_all_iff)

lemma pad_length [simp]: "length (pad w s) = max w (length s)"
  by (simp add: pad_def)

lemma pad_long [simp]: "w \<le> length s \<Longrightarrow> pad w s = s"
  by (simp add: pad_def)

text \<open>\<open>%02d\<close>.\<close>

abbreviation two :: "nat \<Rightarrow> string" where
  "two n \<equiv> pad 2 (decStr n)"

lemma two_length: "n < 100 \<Longrightarrow> length (two n) = 2"
  using decStr_length_le [of n 2] by simp

subsection \<open>Scanning\<close>

text \<open>The loops that step over digits: the run and the rest.\<close>

definition digitRun :: "string \<Rightarrow> string" where
  "digitRun s = takeWhile isDigit s"

definition afterDigits :: "string \<Rightarrow> string" where
  "afterDigits s = dropWhile isDigit s"

lemma digitRun_append [simp]: "list_all isDigit s \<Longrightarrow> digitRun (s @ t) = s @ digitRun t"
  by (induction s) (auto simp: digitRun_def)

lemma afterDigits_append [simp]: "list_all isDigit s \<Longrightarrow> afterDigits (s @ t) = afterDigits t"
  by (induction s) (auto simp: afterDigits_def)

lemma digitRun_stop: "t = [] \<or> \<not> isDigit (hd t) \<Longrightarrow> digitRun t = [] \<and> afterDigits t = t"
  by (cases t) (auto simp: digitRun_def afterDigits_def)

lemma digitRun_all: "list_all isDigit (digitRun s)"
  by (auto simp: digitRun_def list_all_iff dest: set_takeWhileD)

lemma digitRun_decomp: "digitRun s @ afterDigits s = s"
  by (simp add: digitRun_def afterDigits_def)

subsection \<open>strconv.Atoi\<close>

datatype numErr = ErrSyntax | ErrRange

definition MaxInt64 :: int where "MaxInt64 = 2 ^ 63 - 1"
definition MinInt64 :: int where "MinInt64 = - (2 ^ 63)"

definition inInt64 :: "int \<Rightarrow> bool" where
  "inInt64 n \<longleftrightarrow> MinInt64 \<le> n \<and> n \<le> MaxInt64"

definition Atoi :: "string \<Rightarrow> numErr + int" where
  "Atoi s =
     (let (neg, ds) = (case s of [] \<Rightarrow> (False, s)
        | c # cs \<Rightarrow> if c = CHR ''-'' then (True, cs) else if c = CHR ''+'' then (False, cs) else (False, s)) in
      if ds = [] \<or> \<not> list_all isDigit ds then Inl ErrSyntax
      else
        let n = (if neg then - int (digitsVal ds) else int (digitsVal ds)) in
        if inInt64 n then Inr n else Inl ErrRange)"

lemma isDigit_sign [simp]: "\<not> isDigit (CHR ''-'')" "\<not> isDigit (CHR ''+'')" "\<not> isDigit (CHR '':'')" "\<not> isDigit (CHR ''.'')"
  "\<not> isDigit (CHR ''T'')" "\<not> isDigit (CHR ''Z'')"
  by (simp_all add: isDigit_def)

lemma Atoi_digits:
  assumes "s \<noteq> []" "list_all isDigit s"
  shows "Atoi s = (if inInt64 (int (digitsVal s)) then Inr (int (digitsVal s)) else Inl ErrRange)"
proof -
  obtain c cs where "s = c # cs" using assms(1) by (cases s) auto
  moreover have "c \<noteq> CHR ''-''" "c \<noteq> CHR ''+''" using assms(2) calculation by auto
  ultimately show ?thesis using assms(2) by (simp add: Atoi_def Let_def)
qed

lemma small_inInt64: "n < 10 ^ 18 \<Longrightarrow> inInt64 (int n)"
  by (simp add: inInt64_def MaxInt64_def MinInt64_def)

subsection \<open>Rationals\<close>

text \<open>\<open>big.Rat.SetString\<close> of \<open>digits\<close> or \<open>digits.digits\<close>, the fraction possibly empty.\<close>

definition ratOfDigits :: "string \<Rightarrow> string \<Rightarrow> rat" where
  "ratOfDigits ip fp = of_nat (digitsVal (ip @ fp)) / 10 ^ length fp"

definition ratNum :: "rat \<Rightarrow> int" where "ratNum r = fst (quotient_of r)"
definition ratDen :: "rat \<Rightarrow> int" where "ratDen r = snd (quotient_of r)"

lemma ratDen_pos: "0 < ratDen r"
  by (simp add: ratDen_def quotient_of_denom_pos')

lemma rat_num_den: "r = of_int (ratNum r) / of_int (ratDen r)"
  using quotient_of_div [of r "ratNum r" "ratDen r"] by (simp add: ratNum_def ratDen_def)

lemma rat_coprime: "coprime (ratNum r) (ratDen r)"
  using quotient_of_coprime [of r "ratNum r" "ratDen r"] by (simp add: ratNum_def ratDen_def)

definition ratIsInt :: "rat \<Rightarrow> bool" where "ratIsInt r \<longleftrightarrow> ratDen r = 1"

lemma ratIsInt_iff: "ratIsInt r \<longleftrightarrow> r \<in> \<int>"
proof
  assume "ratIsInt r"
  then have "r = of_int (ratNum r)" using rat_num_den [of r] by (simp add: ratIsInt_def)
  then show "r \<in> \<int>" by (metis Ints_of_int)
next
  assume "r \<in> \<int>"
  then obtain k where "r = of_int k" by (rule Ints_cases)
  then show "ratIsInt r" by (simp add: ratIsInt_def ratDen_def quotient_of_int)
qed

lemma floor_num_den: "\<lfloor>r\<rfloor> = ratNum r div ratDen r"
  using rat_num_den [of r] floor_divide_of_int_eq [of "ratNum r" "ratDen r", where ?'a = rat] by metis

end
