(* ===== verification/Calendar.thy ===== *)
theory Calendar
  imports Dec "HOL-Library.Signed_Division"
begin

text \<open>
  The calendar arithmetic of \<open>xdm/datetime.go\<close> and \<open>xpath/cast.go\<close>: leap years, month lengths,
  the day number of a civil date and its inverse. Go's division truncates (\<open>sdiv\<close>). The
  functions are over unbounded integers; \<open>daysFromCivil64\<close> is the first of them with every
  operation wrapped to 64 bits.
\<close>

subsection \<open>Definitions\<close>

text \<open>There is no year 0: the year before 1 is -1, so leap years before it are shifted by one.\<close>

definition isLeap :: "int \<Rightarrow> bool" where
  "isLeap y0 =
     (let y = (if y0 < 0 then y0 + 1 else y0) in y smod 4 = 0 \<and> (y smod 100 \<noteq> 0 \<or> y smod 400 = 0))"

definition daysInMonth :: "int \<Rightarrow> int \<Rightarrow> int" where
  "daysInMonth y m =
     (if m \<in> {1, 3, 5, 7, 8, 10, 12} then 31
      else if m \<in> {4, 6, 9, 11} then 30
      else if m = 2 then (if isLeap y then 29 else 28)
      else 0)"

text \<open>\<open>daysInMonthOf\<close> of \<open>xpath/cast.go\<close> answers 30 for a month that does not exist.\<close>

definition daysInMonthOf :: "int \<Rightarrow> int \<Rightarrow> int" where
  "daysInMonthOf y m =
     (if m \<in> {1, 3, 5, 7, 8, 10, 12} then 31
      else if m \<in> {4, 6, 9, 11} then 30
      else if m = 2 then
        (let yy = (if y < 0 then y + 1 else y) in
         if yy smod 4 = 0 \<and> (yy smod 100 \<noteq> 0 \<or> yy smod 400 = 0) then 29 else 28)
      else 30)"

definition daysFromCivil :: "int \<Rightarrow> int \<Rightarrow> int \<Rightarrow> int" where
  "daysFromCivil y0 m d =
     (let y = (if m \<le> 2 then y0 - 1 else y0);
          era = (if y < 0 then y - 399 else y) sdiv 400;
          yoe = y - era * 400;
          mp = (m + 9) smod 12;
          doy = (153 * mp + 2) sdiv 5 + d - 1;
          doe = yoe * 365 + yoe sdiv 4 - yoe sdiv 100 + doy in
      era * 146097 + doe - 719468)"

definition floorDiv :: "int \<Rightarrow> int \<Rightarrow> int" where
  "floorDiv a b = (let q = a sdiv b in if a smod b \<noteq> 0 \<and> (a < 0) \<noteq> (b < 0) then q - 1 else q)"

definition civilFromDays :: "int \<Rightarrow> int \<times> int \<times> int" where
  "civilFromDays z0 =
     (let z = z0 + 719468;
          era = (if z < 0 then (z - 146096) sdiv 146097 else z sdiv 146097);
          doe = z - era * 146097;
          yoe = (doe - doe sdiv 1460 + doe sdiv 36524 - doe sdiv 146096) sdiv 365;
          y = yoe + era * 400;
          doy = doe - (365 * yoe + yoe sdiv 4 - yoe sdiv 100);
          mp = (5 * doy + 2) sdiv 153;
          d = doy - (153 * mp + 2) sdiv 5 + 1;
          m = (if mp \<ge> 10 then mp - 9 else mp + 3) in
      (if m \<le> 2 then y + 1 else y, m, d))"

text \<open>The machine version.\<close>

definition wrap64 :: "int \<Rightarrow> int" where
  "wrap64 n = (n + 2 ^ 63) mod 2 ^ 64 - 2 ^ 63"

definition daysFromCivil64 :: "int \<Rightarrow> int \<Rightarrow> int \<Rightarrow> int" where
  "daysFromCivil64 y0 m d =
     (let y = (if m \<le> 2 then wrap64 (y0 - 1) else y0);
          era = wrap64 ((if y < 0 then wrap64 (y - 399) else y) sdiv 400);
          yoe = wrap64 (y - wrap64 (era * 400));
          mp = wrap64 (wrap64 (m + 9) smod 12);
          doy = wrap64 (wrap64 (wrap64 (wrap64 (wrap64 (153 * mp) + 2) sdiv 5) + d) - 1);
          doe = wrap64 (wrap64 (wrap64 (wrap64 (yoe * 365) + wrap64 (yoe sdiv 4)) - wrap64 (yoe sdiv 100)) + doy) in
      wrap64 (wrap64 (wrap64 (era * 146097) + doe) - 719468))"

definition maxYear :: int where "maxYear = 25252734927766554"
definition minYear :: int where "minYear = -25252734927764584"

subsection \<open>Truncating division\<close>

lemma sdiv_pos: "0 \<le> a \<Longrightarrow> 0 < b \<Longrightarrow> a sdiv b = a div (b :: int)"
  by (cases "a = 0") (simp_all add: signed_divide_int_def sgn_mult)

lemma sdiv_neg: "a < 0 \<Longrightarrow> 0 < b \<Longrightarrow> a sdiv b = - (- a div (b :: int))"
  by (simp add: signed_divide_int_def sgn_mult)

lemma smod_pos: "0 \<le> a \<Longrightarrow> 0 < b \<Longrightarrow> a smod b = a mod (b :: int)"
  by (simp add: smod_int_alt_def sgn_if)

lemma smod_neg: "a < 0 \<Longrightarrow> 0 < b \<Longrightarrow> a smod b = - (- a mod (b :: int))"
  by (simp add: smod_int_alt_def sgn_if)

lemma smod_0_iff: "0 < b \<Longrightarrow> a smod b = 0 \<longleftrightarrow> b dvd (a :: int)"
  by (cases "a < 0") (simp_all add: smod_neg smod_pos dvd_eq_mod_eq_0 [symmetric])

lemma floor_sdiv: "0 < b \<Longrightarrow> c = b - 1 \<Longrightarrow> (if a < 0 then a - c else a) sdiv b = a div (b :: int)"
proof (cases "a < 0")
  case True
  assume b: "0 < b" and c: "c = b - 1"
  have "- (a - (b - 1)) div b = (- a + (b - 1)) div b" by (simp add: algebra_simps)
  also have "\<dots> = - (a div b)"
  proof -
    have "a = b * (a div b) + a mod b" by simp
    then have "- a + (b - 1) = (b - 1 - a mod b) + - (a div b) * b" by (simp add: algebra_simps)
    moreover have "(b - 1 - a mod b) div b = 0" using b pos_mod_bound [of b a] pos_mod_sign [of b a] by (intro div_pos_pos_trivial) linarith+
    ultimately show ?thesis using b by (simp only: div_mult_self1)
  qed
  finally show ?thesis using True b c sdiv_neg [of "a - (b - 1)" b] by simp
qed (simp add: sdiv_pos)

lemma floorDiv_div: "0 < b \<Longrightarrow> floorDiv a b = a div b"
proof (cases "a < 0")
  case True
  assume b: "0 < b"
  show ?thesis using True b smod_0_iff [of b a]
    by (auto simp: floorDiv_def Let_def sdiv_neg zdiv_zminus1_eq_if dvd_eq_mod_eq_0 [symmetric] mod_eq_0_iff_dvd
        zmod_zminus1_eq_if split: if_splits)
next
  case False
  assume "0 < b"
  then show ?thesis using False by (simp add: floorDiv_def Let_def sdiv_pos)
qed

subsection \<open>Years and months\<close>

definition leap :: "int \<Rightarrow> bool" where
  "leap y \<longleftrightarrow> 4 dvd y \<and> (\<not> 100 dvd y \<or> 400 dvd y)"

lemma isLeap_leap: "isLeap y = leap (if y < 0 then y + 1 else y)"
  by (simp add: isLeap_def leap_def Let_def smod_0_iff)

lemma daysInMonthOf_eq: "1 \<le> m \<Longrightarrow> m \<le> 12 \<Longrightarrow> daysInMonthOf y m = daysInMonth y m"
proof -
  assume "1 \<le> m" "m \<le> 12"
  then have "m \<in> {1, 2, 3, 4, 5, 6, 7, 8, 9, 10, 11, 12}" by (simp, presburger)
  then show ?thesis by (auto simp: daysInMonthOf_def daysInMonth_def isLeap_def Let_def)
qed

text \<open>The length of a month when the years are counted without a gap (0 is a year).\<close>

definition monthLen :: "int \<Rightarrow> int \<Rightarrow> int" where
  "monthLen y m = (if m = 2 then (if leap y then 29 else 28) else if m \<in> {4, 6, 9, 11} then 30 else 31)"

lemma daysInMonth_monthLen: "1 \<le> m \<Longrightarrow> m \<le> 12 \<Longrightarrow> daysInMonth y m = monthLen (if y < 0 then y + 1 else y) m"
proof -
  assume "1 \<le> m" "m \<le> 12"
  then have "m \<in> {1, 2, 3, 4, 5, 6, 7, 8, 9, 10, 11, 12}" by (simp, presburger)
  then show ?thesis by (auto simp: daysInMonth_def monthLen_def isLeap_leap)
qed

definition validDate :: "int \<Rightarrow> int \<Rightarrow> int \<Rightarrow> bool" where
  "validDate y m d \<longleftrightarrow> 1 \<le> m \<and> m \<le> 12 \<and> 1 \<le> d \<and> d \<le> monthLen y m"

text \<open>Days before a year and before a month, both counted from March.\<close>

definition yearStart :: "int \<Rightarrow> int" where
  "yearStart y = 365 * y + y div 4 - y div 100"

definition monthStart :: "int \<Rightarrow> int" where
  "monthStart mp = (153 * mp + 2) div 5"

definition yearLen :: "int \<Rightarrow> int" where
  "yearLen y = (if leap (y + 1) then 366 else 365)"

lemma twelve: "0 \<le> mp \<Longrightarrow> mp \<le> 11 \<Longrightarrow> mp \<in> {0, 1, 2, 3, 4, 5, 6, 7, 8, 9, 10, 11 :: int}"
  by (simp, presburger)

lemma mod_mp: "1 \<le> m \<Longrightarrow> m \<le> 12 \<Longrightarrow> (m + 9) mod 12 = (if m \<le> 2 then m + 9 else m - 3 :: int)"
  by presburger

lemma days_eq:
  assumes "1 \<le> m" "m \<le> 12" "1 \<le> d"
  shows "daysFromCivil y0 m d =
    (let y = (if m \<le> 2 then y0 - 1 else y0); mp = (if m \<le> 2 then m + 9 else m - 3) in
     y div 400 * 146097 + yearStart (y mod 400) + monthStart mp + d - 1 - 719468)"
proof -
  define y where "y = (if m \<le> 2 then y0 - 1 else y0)"
  define mp where "mp = (if m \<le> 2 then m + 9 else m - 3)"
  have mp: "(m + 9) smod 12 = mp" "0 \<le> mp"
    using assms mod_mp [of m] by (simp_all add: smod_pos mp_def)
  have era: "(if y < 0 then y - 399 else y) sdiv 400 = y div 400"
    by (rule floor_sdiv) simp_all
  have yoe: "y - y div 400 * 400 = y mod 400" by (simp add: minus_div_mult_eq_mod)
  have s: "(153 * mp + 2) sdiv 5 = monthStart mp" "(y mod 400) sdiv 4 = y mod 400 div 4"
    "(y mod 400) sdiv 100 = y mod 400 div 100"
    using mp(2) by (simp_all add: sdiv_pos monthStart_def)
  show ?thesis
    unfolding daysFromCivil_def Let_def y_def [symmetric] mp_def [symmetric] mp(1) era yoe s
    by (simp add: yearStart_def)
qed

subsection \<open>Within one era of 400 years\<close>

definition yearOfDay :: "int \<Rightarrow> int" where
  "yearOfDay e = (e - e div 1460 + e div 36524 - e div 146096) div 365"

definition yearSum :: "int \<Rightarrow> int" where
  "yearSum e = e - e div 1460 + e div 36524 - e div 146096"

lemma yearSum_step: "0 \<le> e \<Longrightarrow> e < 146096 \<Longrightarrow> yearSum e \<le> yearSum (e + 1)"
proof -
  assume e: "0 \<le> e" "e < 146096"
  have a: "(e + 1) div 1460 \<le> e div 1460 + 1"
    using zdiv_mono1 [of "e + 1" "e + 1460" 1460] by simp
  have b: "e div 36524 \<le> (e + 1) div 36524" by (simp add: zdiv_mono1)
  show ?thesis
  proof (cases "e = 146095")
    case True
    then show ?thesis by (simp add: yearSum_def)
  next
    case False
    then have "e < 146095" using e(2) by simp
    have z: "e div 146096 = 0" "(e + 1) div 146096 = 0"
      by (rule div_pos_pos_trivial, use e(1) \<open>e < 146095\<close> in linarith, use \<open>e < 146095\<close> in linarith)+
    have "e - p + r - 0 \<le> e + 1 - q + s - 0" if "q \<le> p + 1" "r \<le> s" for p q r s :: int
      using that by linarith
    from this [OF a b] show ?thesis unfolding yearSum_def z .
  qed
qed

lemma yearSum_mono:
  assumes "0 \<le> a" "a \<le> b" "b \<le> 146096"
  shows "yearSum a \<le> yearSum b"
  using assms(2,1,3)
proof (induction rule: int_ge_induct)
  case (step i)
  then show ?case using yearSum_step [of i] by simp
qed simp

text \<open>The two ends of each of the 400 years, by evaluation.\<close>

definition endsOk :: "int \<Rightarrow> bool" where
  "endsOk y \<longleftrightarrow> 365 * y \<le> yearSum (yearStart y) \<and> yearSum (yearStart y + yearLen y - 1) < 365 * (y + 1) \<and>
     0 \<le> yearStart y \<and> yearStart y + yearLen y \<le> 146097 \<and>
     (if y = 399 then yearStart y + yearLen y = 146097 else yearStart y + yearLen y = yearStart (y + 1))"

lemma ends_all: "list_all endsOk [0..399]"
  by code_simp

lemma ends: "0 \<le> y \<Longrightarrow> y \<le> 399 \<Longrightarrow> endsOk y"
  using ends_all by (auto simp: list_all_iff)

lemma yearOfDay:
  assumes "0 \<le> y" "y \<le> 399" "yearStart y \<le> e" "e < yearStart y + yearLen y"
  shows "yearOfDay e = y"
proof -
  note en = ends [OF assms(1,2), unfolded endsOk_def]
  have "yearSum (yearStart y) \<le> yearSum e" "yearSum e \<le> yearSum (yearStart y + yearLen y - 1)"
    using en assms(3,4) by (intro yearSum_mono; linarith)+
  then have "365 * y \<le> yearSum e" "yearSum e < 365 * (y + 1)" using en by linarith+
  then have "yearSum e div 365 = y"
    using int_div_pos_eq [of "yearSum e" 365 y "yearSum e - 365 * y"] by simp
  then show ?thesis by (simp add: yearOfDay_def yearSum_def)
qed

lemma yearOfDay_ex:
  assumes "0 \<le> e" "e < 146097"
  shows "\<exists>y. 0 \<le> y \<and> y \<le> 399 \<and> yearStart y \<le> e \<and> e < yearStart y + yearLen y"
proof -
  have "\<exists>y. 0 \<le> y \<and> y \<le> n \<and> yearStart y \<le> e \<and> e < yearStart y + yearLen y"
    if "0 \<le> n" "n \<le> 399" "e < yearStart n + yearLen n" for n :: int
    using that
  proof (induction n rule: int_ge_induct)
    case base
    then show ?case using assms(1) by (auto simp: yearStart_def)
  next
    case (step n)
    show ?case
    proof (cases "e < yearStart (n + 1)")
      case True
      then have "e < yearStart n + yearLen n" using ends [of n] step.hyps step.prems by (simp add: endsOk_def)
      then show ?thesis using step.IH step.prems(1) by force
    next
      case False
      then show ?thesis using step.hyps step.prems(2) by (intro exI [of _ "n + 1"]) simp
    qed
  qed
  from this [of 399] show ?thesis using ends [of 399] assms(2) by (simp add: endsOk_def)
qed

lemma monthOfDay:
  assumes "0 \<le> mp" "mp \<le> 11" "1 \<le> d" "d \<le> (if mp = 11 then 29 else if mp \<in> {1, 3, 6, 8} then 30 else 31)"
  shows "(5 * (monthStart mp + d - 1) + 2) div 153 = mp"
  using twelve [OF assms(1,2)] assms(3,4) by (auto simp: monthStart_def)

subsection \<open>The inverse\<close>

lemma civil_eq:
  "civilFromDays z0 =
    (let z = z0 + 719468; e = z mod 146097; yoe = yearOfDay e; y = yoe + z div 146097 * 400;
         doy = e - yearStart yoe; mp = (5 * doy + 2) div 153; m = (if mp \<ge> 10 then mp - 9 else mp + 3) in
     (if m \<le> 2 then y + 1 else y, m, doy - monthStart mp + 1))"
proof -
  define z where "z = z0 + 719468"
  define e where "e = z mod 146097"
  have era: "(if z < 0 then (z - 146096) sdiv 146097 else z sdiv 146097) = z div 146097"
    using floor_sdiv [of 146097 146096 z] by (simp split: if_splits)
  have doe: "z - z div 146097 * 146097 = e" by (simp add: e_def minus_div_mult_eq_mod)
  have e: "0 \<le> e" "e < 146097" by (simp_all add: e_def)
  obtain y where y: "0 \<le> y" "y \<le> 399" "yearStart y \<le> e" "e < yearStart y + yearLen y"
    using yearOfDay_ex [OF e] by blast
  have yd: "yearOfDay e = y" using yearOfDay [OF y] .
  have "0 \<le> yearSum e" using yearSum_mono [of 0 e] e by (simp add: yearSum_def)
  then have "(e - e sdiv 1460 + e sdiv 36524 - e sdiv 146096) sdiv 365 = yearOfDay e"
    using e(1) by (simp add: sdiv_pos yearOfDay_def yearSum_def)
  moreover have "365 * y + y sdiv 4 - y sdiv 100 = yearStart y" using y(1) by (simp add: sdiv_pos yearStart_def)
  moreover have "(5 * (e - yearStart y) + 2) sdiv 153 = (5 * (e - yearStart y) + 2) div 153"
    "0 \<le> (5 * (e - yearStart y) + 2) div 153" using y(3) by (simp_all add: sdiv_pos)
  moreover have "(153 * ((5 * (e - yearStart y) + 2) div 153) + 2) sdiv 5 = monthStart ((5 * (e - yearStart y) + 2) div 153)"
    using calculation(4) by (simp add: sdiv_pos monthStart_def)
  ultimately show ?thesis
    unfolding civilFromDays_def Let_def z_def [symmetric] era doe e_def [symmetric] yd by simp
qed

lemma leap_400: "leap (y mod 400 + 1) = leap (y + 1)"
proof -
  have "k dvd y mod 400 + 1 \<longleftrightarrow> k dvd y + 1" if "k dvd 400" for k :: int
  proof -
    have "y + 1 = (y mod 400 + 1) + 400 * (y div 400)" by simp
    then show ?thesis using that by (metis dvd_add_left_iff dvd_mult2)
  qed
  then show ?thesis by (simp add: leap_def)
qed

text \<open>The coordinates of a date counted from March: its year, its month and the days before it in
  the year.\<close>

lemma march:
  assumes "validDate y m d"
  defines "Y \<equiv> if m \<le> 2 then y - 1 else y" and "mp \<equiv> if m \<le> 2 then m + 9 else m - 3"
  shows "daysFromCivil y m d = Y div 400 * 146097 + (yearStart (Y mod 400) + (monthStart mp + d - 1)) - 719468"
    "0 \<le> mp" "mp \<le> 11" "1 \<le> d" "d \<le> (if mp = 11 then 29 else if mp \<in> {1, 3, 6, 8} then 30 else 31)"
    "0 \<le> monthStart mp + d - 1" "monthStart mp + d - 1 < yearLen (Y mod 400)"
proof -
  have v: "1 \<le> m" "m \<le> 12" "1 \<le> d" "d \<le> monthLen y m" using assms(1) by (simp_all add: validDate_def)
  have "m \<in> {1, 2, 3, 4, 5, 6, 7, 8, 9, 10, 11, 12}" using v(1,2) by (simp, presburger)
  then have a: "0 \<le> mp" "mp \<le> 11" "d \<le> (if mp = 11 then 29 else if mp \<in> {1, 3, 6, 8} then 30 else 31)"
    using v(4) by (auto simp: mp_def monthLen_def split: if_splits)
  then show "0 \<le> mp" "mp \<le> 11" "1 \<le> d" "d \<le> (if mp = 11 then 29 else if mp \<in> {1, 3, 6, 8} then 30 else 31)"
    using v(3) by auto
  show "daysFromCivil y m d = Y div 400 * 146097 + (yearStart (Y mod 400) + (monthStart mp + d - 1)) - 719468"
    using days_eq [OF v(1-3), of y] by (simp add: Let_def Y_def mp_def)
  show "0 \<le> monthStart mp + d - 1" using a(1) v(3) by (simp add: monthStart_def)
  have "mp = 11 \<Longrightarrow> d \<le> (if leap (Y mod 400 + 1) then 29 else 28)"
    using v(2,4) unfolding leap_400 by (auto simp: mp_def Y_def monthLen_def split: if_splits)
  then show "monthStart mp + d - 1 < yearLen (Y mod 400)"
    using a twelve [OF a(1,2)] by (auto simp: yearLen_def monthStart_def split: if_splits)
qed

lemma civil_days:
  assumes "validDate y m d"
  shows "civilFromDays (daysFromCivil y m d) = (y, m, d)"
proof -
  define Y mp where "Y = (if m \<le> 2 then y - 1 else y)" and "mp = (if m \<le> 2 then m + 9 else m - 3)"
  note mar = march [OF assms, folded Y_def mp_def]
  let ?y = "Y mod 400" and ?doy = "monthStart mp + d - 1"
  let ?e = "yearStart ?y + ?doy"
  have en: "0 \<le> yearStart ?y" "yearStart ?y + yearLen ?y \<le> 146097"
    using ends [of ?y] by (simp_all add: endsOk_def)
  have e: "0 \<le> ?e" "?e < 146097" using en mar(6,7) by linarith+
  have z: "daysFromCivil y m d + 719468 = ?e + Y div 400 * 146097" using mar(1) by simp
  have qr: "(?e + Y div 400 * 146097) div 146097 = Y div 400" "(?e + Y div 400 * 146097) mod 146097 = ?e"
    using e div_pos_pos_trivial [OF e] mod_pos_pos_trivial [OF e] by simp_all
  have yd: "yearOfDay ?e = ?y" using mar(6,7) by (intro yearOfDay) simp_all
  have doy: "?e - yearStart ?y = ?doy" by simp
  have mo: "(5 * ?doy + 2) div 153 = mp" using monthOfDay [OF mar(2-5)] by simp
  have Y: "?y + Y div 400 * 400 = Y" by simp
  have m: "(if mp \<ge> 10 then mp - 9 else mp + 3) = m" "(if m \<le> 2 then Y + 1 else Y) = y"
    using assms by (auto simp: mp_def Y_def validDate_def)
  show ?thesis unfolding civil_eq Let_def z qr yd doy mo Y m by simp
qed

definition monthOk :: "int \<Rightarrow> bool" where
  "monthOk doy \<longleftrightarrow> (let mp = (5 * doy + 2) div 153; d = doy - monthStart mp + 1 in
     0 \<le> mp \<and> mp \<le> 11 \<and> 1 \<le> d \<and>
     d \<le> (if mp = 11 then (if doy = 365 then 29 else 28) else if mp \<in> {1, 3, 6, 8} then 30 else 31))"

lemma months_all: "list_all monthOk [0..365]"
  by code_simp

lemma days_civil:
  assumes "civilFromDays z = (y, m, d)"
  shows "validDate y m d \<and> daysFromCivil y m d = z"
proof -
  define w where "w = z + 719468"
  define e where "e = w mod 146097"
  have e: "0 \<le> e" "e < 146097" by (simp_all add: e_def)
  obtain yoe where y: "0 \<le> yoe" "yoe \<le> 399" "yearStart yoe \<le> e" "e < yearStart yoe + yearLen yoe"
    using yearOfDay_ex [OF e] by blast
  define doy where "doy = e - yearStart yoe"
  define mp where "mp = (5 * doy + 2) div 153"
  define Y where "Y = yoe + w div 146097 * 400"
  have doy: "0 \<le> doy" "doy < yearLen yoe" using y by (simp_all add: doy_def)
  then have "doy \<le> 365" by (simp add: yearLen_def split: if_splits)
  with months_all doy(1) have "monthOk doy" by (auto simp: list_all_iff)
  then have mo: "0 \<le> mp" "mp \<le> 11" "1 \<le> doy - monthStart mp + 1"
    "doy - monthStart mp + 1 \<le> (if mp = 11 then (if doy = 365 then 29 else 28) else if mp \<in> {1, 3, 6, 8} then 30 else 31)"
    unfolding monthOk_def Let_def mp_def [symmetric] by blast+
  have c: "m = (if mp \<ge> 10 then mp - 9 else mp + 3)" "y = (if m \<le> 2 then Y + 1 else Y)" "d = doy - monthStart mp + 1"
    using assms unfolding civil_eq Let_def w_def [symmetric] e_def [symmetric] yearOfDay [OF y] doy_def [symmetric]
      mp_def [symmetric] Y_def [symmetric] by auto
  have Ym: "Y mod 400 = yoe" "Y div 400 = w div 146097"
    using y(1,2) by (simp_all add: Y_def mod_pos_pos_trivial div_pos_pos_trivial)
  have lp: "doy = 365 \<Longrightarrow> leap (Y + 1)" using doy(2) leap_400 [of Y] Ym(1) by (auto simp: yearLen_def split: if_splits)
  have v: "validDate y m d"
    using twelve [OF mo(1,2)] mo(3,4) lp by (auto simp: validDate_def c monthLen_def split: if_splits)
  have bk: "(if m \<le> 2 then y - 1 else y) = Y" "(if m \<le> 2 then m + 9 else m - 3) = mp"
    using mo(1,2) by (auto simp: c)
  have "daysFromCivil y m d = w div 146097 * 146097 + (yearStart yoe + (monthStart mp + d - 1)) - 719468"
    using march(1) [OF v] unfolding bk Ym .
  also have "\<dots> = w div 146097 * 146097 + e - 719468" by (simp add: c(3) doy_def)
  also have "\<dots> = z" by (simp add: e_def w_def)
  finally show ?thesis using v by simp
qed

subsection \<open>Order\<close>

definition yearDays :: "int \<Rightarrow> int" where
  "yearDays Y = Y div 400 * 146097 + yearStart (Y mod 400)"

lemma yearDays_step: "yearDays (Y + 1) = yearDays Y + yearLen (Y mod 400)"
proof -
  have r: "0 \<le> Y mod 400" "Y mod 400 \<le> 399" using pos_mod_bound [of 400 Y] by simp_all
  note en = ends [OF r, unfolded endsOk_def]
  have Y: "Y + 1 = (Y mod 400 + 1) + Y div 400 * 400" by simp
  show ?thesis
  proof (cases "Y mod 400 = 399")
    case True
    then have e: "Y + 1 = 400 * (Y div 400 + 1)" using Y by simp
    have "(Y + 1) mod 400 = 0" "(Y + 1) div 400 = Y div 400 + 1" by (subst e, simp)+
    then show ?thesis using en True by (simp add: yearDays_def yearStart_def)
  next
    case False
    then have m: "0 \<le> Y mod 400 + 1" "Y mod 400 + 1 < 400" using r by simp_all
    have "(Y + 1) mod 400 = (Y mod 400 + 1) mod 400" "(Y + 1) div 400 = Y div 400 + (Y mod 400 + 1) div 400"
      by (subst Y, rule mod_mult_self1, subst Y, rule div_mult_self1, simp)
    then have "(Y + 1) mod 400 = Y mod 400 + 1" "(Y + 1) div 400 = Y div 400"
      using mod_pos_pos_trivial [OF m] div_pos_pos_trivial [OF m] by simp_all
    then show ?thesis using en False by (simp add: yearDays_def)
  qed
qed

lemma yearDays_mono: "Y < Y' \<Longrightarrow> yearDays Y + yearLen (Y mod 400) \<le> yearDays Y'"
proof (induction Y' rule: int_gr_induct)
  case (step Z)
  then show ?case using yearDays_step [of Z] by (simp add: yearLen_def split: if_splits)
qed (simp add: yearDays_step)

lemma monthStart_less:
  assumes "0 \<le> mp" "mp < mp'" "mp' \<le> 11" "d \<le> (if mp = 11 then 29 else if mp \<in> {1, 3, 6, 8} then 30 else 31)"
  shows "monthStart mp + d \<le> monthStart mp'"
proof -
  have "monthStart (mp + 1) \<le> monthStart mp'" using assms(2) by (simp add: monthStart_def zdiv_mono1)
  moreover have "monthStart mp + d \<le> monthStart (mp + 1)"
    using twelve [of mp] assms by (auto simp: monthStart_def)
  ultimately show ?thesis by simp
qed

text \<open>On real dates the day number follows the calendar.\<close>

lemma days_mono:
  assumes "validDate y m d" "validDate y' m' d'" "y < y' \<or> y = y' \<and> (m < m' \<or> m = m' \<and> d < d')"
  shows "daysFromCivil y m d < daysFromCivil y' m' d'"
proof -
  define Y mp where "Y = (if m \<le> 2 then y - 1 else y)" and "mp = (if m \<le> 2 then m + 9 else m - 3)"
  define Y' mp' where "Y' = (if m' \<le> 2 then y' - 1 else y')" and "mp' = (if m' \<le> 2 then m' + 9 else m' - 3)"
  note a = march [OF assms(1), folded Y_def mp_def] and b = march [OF assms(2), folded Y'_def mp'_def]
  have m: "1 \<le> m" "m \<le> 12" "1 \<le> m'" "m' \<le> 12" using assms(1,2) by (simp_all add: validDate_def)
  have "Y < Y' \<or> Y = Y' \<and> (mp < mp' \<or> mp = mp' \<and> d < d')"
    using assms(3) m unfolding Y_def Y'_def mp_def mp'_def by (cases "m \<le> 2"; cases "m' \<le> 2") auto
  then consider "Y < Y'" | "Y = Y'" "mp < mp'" | "Y = Y'" "mp = mp'" "d < d'" by blast
  then show ?thesis
  proof cases
    case 1
    then show ?thesis using yearDays_mono [OF 1] a(1,7) b(1,6) by (simp add: yearDays_def)
  next
    case 2
    then show ?thesis using monthStart_less [OF a(2) 2(2) b(3) a(5)] a(1) b(1,4) by simp
  next
    case 3
    then show ?thesis using a(1) b(1) by simp
  qed
qed

lemma days_less_iff:
  assumes "validDate y m d" "validDate y' m' d'"
  shows "daysFromCivil y m d < daysFromCivil y' m' d' \<longleftrightarrow> y < y' \<or> y = y' \<and> (m < m' \<or> m = m' \<and> d < d')"
  using days_mono [OF assms] days_mono [OF assms(2,1)] by (metis less_asym' linorder_less_linear)

subsection \<open>The machine version\<close>

lemma wrap64_id: "inInt64 n \<Longrightarrow> wrap64 n = n"
  by (simp add: wrap64_def inInt64_def MinInt64_def MaxInt64_def)

lemma wrap64_add: "wrap64 (wrap64 a + b) = wrap64 (a + b)"
proof -
  have "wrap64 a + b + 2 ^ 63 = (a + 2 ^ 63) mod 2 ^ 64 + b" by (simp add: wrap64_def)
  then have "(wrap64 a + b + 2 ^ 63) mod 2 ^ 64 = (a + 2 ^ 63 + b) mod 2 ^ 64"
    by (simp only: mod_add_left_eq)
  moreover have "a + 2 ^ 63 + b = a + b + 2 ^ 63" by simp
  ultimately have "(wrap64 a + b + 2 ^ 63) mod 2 ^ 64 = (a + b + 2 ^ 63) mod 2 ^ 64" by (simp only:)
  then show ?thesis by (simp add: wrap64_def)
qed

lemma wrap64_add2: "wrap64 (a + wrap64 b) = wrap64 (a + b)"
  using wrap64_add [of b a] by (simp add: add.commute)

lemma wrap64_sub: "wrap64 (wrap64 a - b) = wrap64 (a - b)"
  using wrap64_add [of a "- b"] by simp

lemma small_wrap: "\<bar>n\<bar> \<le> 2 ^ 62 \<Longrightarrow> wrap64 n = n"
  by (rule wrap64_id) (simp add: inInt64_def MinInt64_def MaxInt64_def abs_le_iff)

text \<open>Only the last operations can wrap, so the machine result is the true day number modulo
  \<open>2 ^ 64\<close> for every year a machine word can nearly hold.\<close>

lemma days64_wrap:
  assumes "\<bar>y0\<bar> \<le> 2 ^ 61" "1 \<le> m" "m \<le> 12" "1 \<le> d" "d \<le> 31"
  shows "daysFromCivil64 y0 m d = wrap64 (daysFromCivil y0 m d)"
proof -
  define y where "y = (if m \<le> 2 then y0 - 1 else y0)"
  define mp where "mp = (m + 9) smod 12"
  define era where "era = (if y < 0 then y - 399 else y) sdiv 400"
  define yoe where "yoe = y - era * 400"
  define doy where "doy = (153 * mp + 2) sdiv 5 + d - 1"
  define doe where "doe = yoe * 365 + yoe sdiv 4 - yoe sdiv 100 + doy"
  have y: "wrap64 (y0 - 1) = y0 - 1" "wrap64 (y - 399) = y - 399" "\<bar>y\<bar> \<le> 2 ^ 61 + 1"
    using assms(1) by (auto simp: y_def intro!: small_wrap)
  have e: "era = y div 400" unfolding era_def by (rule floor_sdiv) simp_all
  have yo: "yoe = y mod 400" unfolding yoe_def e by (simp add: minus_div_mult_eq_mod)
  have yb: "0 \<le> yoe" "yoe < 400" unfolding yo by simp_all
  have eb: "\<bar>era\<bar> \<le> 2 ^ 53"
  proof -
    have "y = 400 * era + yoe" using yoe_def by simp
    then show ?thesis using y(3) yb by simp
  qed
  have mb: "0 \<le> mp" "mp < 12" using assms(2) by (simp_all add: mp_def smod_pos)
  have qb: "0 \<le> (153 * mp + 2) sdiv 5" "(153 * mp + 2) sdiv 5 \<le> 337"
    using mb zdiv_mono1 [of "153 * mp + 2" "153 * 11 + 2" 5] by (simp_all add: sdiv_pos)
  have cb: "0 \<le> yoe sdiv 4" "yoe sdiv 4 \<le> 400" "0 \<le> yoe sdiv 100" "yoe sdiv 100 \<le> 400"
    using yb zdiv_mono1 [of yoe 400 4] zdiv_mono1 [of yoe 400 100] by (simp_all add: sdiv_pos)
  have w: "wrap64 (m + 9) = m + 9" "wrap64 mp = mp" "wrap64 era = era" "wrap64 (era * 400) = era * 400" "wrap64 yoe = yoe"
    "wrap64 (153 * mp) = 153 * mp" "wrap64 (153 * mp + 2) = 153 * mp + 2"
    "wrap64 ((153 * mp + 2) sdiv 5) = (153 * mp + 2) sdiv 5"
    "wrap64 ((153 * mp + 2) sdiv 5 + d) = (153 * mp + 2) sdiv 5 + d" "wrap64 doy = doy"
    "wrap64 (yoe * 365) = yoe * 365" "wrap64 (yoe sdiv 4) = yoe sdiv 4" "wrap64 (yoe sdiv 100) = yoe sdiv 100"
    "wrap64 (yoe * 365 + yoe sdiv 4) = yoe * 365 + yoe sdiv 4"
    "wrap64 (yoe * 365 + yoe sdiv 4 - yoe sdiv 100) = yoe * 365 + yoe sdiv 4 - yoe sdiv 100" "wrap64 doe = doe"
    using assms mb eb yb qb cb by (auto simp: doy_def doe_def abs_le_iff intro!: small_wrap)
  have "daysFromCivil64 y0 m d = wrap64 (wrap64 (wrap64 (era * 146097) + doe) - 719468)"
    unfolding daysFromCivil64_def Let_def y(1) y_def [symmetric] y(2) era_def [symmetric] w(1) mp_def [symmetric]
    by (simp add: w yoe_def [symmetric] doy_def [symmetric] doe_def [symmetric])
  also have "\<dots> = wrap64 (era * 146097 + doe - 719468)"
    using wrap64_sub [of "wrap64 (era * 146097) + doe" 719468] wrap64_add [of "era * 146097 + (- 719468)" doe]
      wrap64_add [of "era * 146097" "doe - 719468"] by (simp add: wrap64_sub add_diff_eq)
  also have "era * 146097 + doe - 719468 = daysFromCivil y0 m d"
    unfolding daysFromCivil_def Let_def y_def [symmetric] era_def [symmetric] mp_def [symmetric] yoe_def [symmetric]
    by (simp add: doy_def doe_def)
  finally show ?thesis .
qed

lemma days_bounds:
  assumes "1 \<le> m" "m \<le> 12" "1 \<le> d" "d \<le> 31"
  shows "yearDays (y - 1) + 306 - 719468 \<le> daysFromCivil y m d \<and> daysFromCivil y m d \<le> yearDays y + 367 - 719468"
proof -
  have st: "yearDays (y - 1) + 365 \<le> yearDays y"
    using yearDays_step [of "y - 1"] by (simp add: yearLen_def split: if_splits)
  have ms: "0 \<le> monthStart (m - 3) \<and> monthStart (m - 3) \<le> 275" if "2 < m"
    using that assms(2) zdiv_mono1 [of "153 * (m - 3) + 2" "153 * 9 + 2" 5] by (simp add: monthStart_def)
  have ml: "306 \<le> monthStart (m + 9) \<and> monthStart (m + 9) \<le> 337" if "m \<le> 2"
    using that assms(1) zdiv_mono1 [of "153 * (m + 9) + 2" "153 * 11 + 2" 5]
      zdiv_mono1 [of "153 * 10 + 2" "153 * (m + 9) + 2" 5] by (simp add: monthStart_def)
  show ?thesis
  proof (cases "m \<le> 2")
    case True
    then have "daysFromCivil y m d = yearDays (y - 1) + monthStart (m + 9) + d - 1 - 719468"
      using days_eq [OF assms(1-3), of y] by (simp add: yearDays_def Let_def)
    then show ?thesis using ml [OF True] st assms(3,4) by linarith
  next
    case False
    then have "daysFromCivil y m d = yearDays y + monthStart (m - 3) + d - 1 - 719468"
      using days_eq [OF assms(1-3), of y] by (simp add: yearDays_def Let_def)
    then show ?thesis using ms False st assms(3,4) by linarith
  qed
qed

lemma yearDays_le: "Y \<le> Y' \<Longrightarrow> yearDays Y \<le> yearDays Y'"
  using yearDays_mono [of Y Y'] by (cases "Y = Y'") (auto simp: yearLen_def split: if_splits)

lemma end_years: "yearDays maxYear + 367 - 719468 \<le> MaxInt64" "MinInt64 \<le> yearDays (minYear - 1) + 306 - 719468"
  by code_simp+

text \<open>C22: In the range of years the parser admits the machine arithmetic never gives a wrong day
  number, whatever it does in between. The range is exact below: one year earlier the day number
  no longer fits. Above it is not: the year after the last one admitted is still converted
  correctly.\<close>

theorem daysFromCivil64_exact:
  "(minYear \<le> y \<and> y \<le> maxYear \<and> 1 \<le> m \<and> m \<le> 12 \<and> 1 \<le> d \<and> d \<le> 31 \<longrightarrow> daysFromCivil64 y m d = daysFromCivil y m d) \<and>
   daysFromCivil64 (minYear - 1) 1 1 \<noteq> daysFromCivil (minYear - 1) 1 1 \<and>
   daysFromCivil64 (maxYear + 1) 12 31 = daysFromCivil (maxYear + 1) 12 31"
proof (intro conjI impI)
  assume a: "minYear \<le> y \<and> y \<le> maxYear \<and> 1 \<le> m \<and> m \<le> 12 \<and> 1 \<le> d \<and> d \<le> 31"
  then have "yearDays (minYear - 1) \<le> yearDays (y - 1)" "yearDays y \<le> yearDays maxYear" by (simp_all add: yearDays_le)
  then have "inInt64 (daysFromCivil y m d)"
    using days_bounds [of m d y] end_years a by (simp add: inInt64_def)
  moreover have "\<bar>y\<bar> \<le> 2 ^ 61" using a by (auto simp: minYear_def maxYear_def abs_le_iff)
  ultimately show "daysFromCivil64 y m d = daysFromCivil y m d" using days64_wrap [of y m d] a by (simp add: wrap64_id)
qed (code_simp+)

theorem daysFromCivil64_exact_witness:
  "daysFromCivil64 25252734927766554 12 31 = 9223372036854056436 \<and>
   minYear \<le> 25252734927766554 \<and> 25252734927766554 \<le> maxYear"
proof -
  have "daysFromCivil 25252734927766554 12 31 = 9223372036854056436" by code_simp
  then show ?thesis using daysFromCivil64_exact [of 25252734927766554 12 31] by (simp add: minYear_def maxYear_def)
qed

text \<open>C13: On the calendar without a gap, the day number and the civil date are inverse to each
  other, every day number is that of a real date, and the day number follows the order of the
  dates.\<close>

theorem civil_roundtrip:
  "(case civilFromDays z of (y, m, d) \<Rightarrow> validDate y m d \<and> daysFromCivil y m d = z) \<and>
   (validDate y m d \<longrightarrow> civilFromDays (daysFromCivil y m d) = (y, m, d)) \<and>
   (validDate y m d \<and> validDate y' m' d' \<longrightarrow>
      (daysFromCivil y m d < daysFromCivil y' m' d' \<longleftrightarrow> y < y' \<or> y = y' \<and> (m < m' \<or> m = m' \<and> d < d')))"
proof (intro conjI impI)
  obtain y1 m1 d1 where c: "civilFromDays z = (y1, m1, d1)" using prod_cases3 by blast
  from days_civil [OF this] c
  show "case civilFromDays z of (y, m, d) \<Rightarrow> validDate y m d \<and> daysFromCivil y m d = z" by simp
qed (simp_all add: civil_days days_less_iff)

theorem civil_roundtrip_witness:
  "validDate 2024 2 29 \<and> validDate 2024 3 1 \<and> civilFromDays (daysFromCivil 2024 2 29) = (2024, 2, 29) \<and>
   daysFromCivil 2024 2 29 < daysFromCivil 2024 3 1"
proof -
  have "validDate 2024 2 29" "validDate 2024 3 1" by code_simp+
  then show ?thesis using civil_roundtrip [of 0 2024 2 29 2024 3 1] by simp
qed

end
