(* ===== verification/DecimalMag.thy ===== *)
theory DecimalMag
  imports Dec
begin

text \<open>
  The exact decimal form of a rational (\<open>xdm/decimal.go\<close>): the scale is found by shifting out
  the twos of the denominator and stripping the fives by repeated squaring. The counts the Go
  code keeps in an \<open>int64\<close> are natural numbers here; they are at most the bit length of the
  denominator.
\<close>

subsection \<open>The algorithm\<close>

record decimalMagnitude =
  Coefficient :: nat
  Scale :: nat

fun trailingZeroBits :: "nat \<Rightarrow> nat" where
  "trailingZeroBits d = (if d = 0 \<or> odd d then 0 else Suc (trailingZeroBits (d div 2)))"

declare trailingZeroBits.simps [simp del]

fun bitLen :: "nat \<Rightarrow> nat" where
  "bitLen n = (if n = 0 then 0 else Suc (bitLen (n div 2)))"

declare bitLen.simps [simp del]

lemma bitLen_mono: "m \<le> n \<Longrightarrow> bitLen m \<le> bitLen n"
proof (induction m arbitrary: n rule: bitLen.induct)
  case (1 m)
  show ?case
  proof (cases "m = 0")
    case True
    then show ?thesis by (simp add: bitLen.simps [of 0])
  next
    case False
    then have "bitLen (m div 2) \<le> bitLen (n div 2)" "n \<noteq> 0" using 1 by (auto simp: div_le_mono)
    then show ?thesis using False by (simp add: bitLen.simps [of m] bitLen.simps [of n])
  qed
qed

lemma bitLen_double: "0 < n \<Longrightarrow> bitLen (2 * n) = Suc (bitLen n)"
  by (subst bitLen.simps) simp

lemma bitLen_square: "2 \<le> p \<Longrightarrow> bitLen p < bitLen (p * p)"
  using bitLen_mono [of "2 * p" "p * p"] bitLen_double [of p] by simp

text \<open>The powers \<open>5, 5\<^sup>2, 5\<^sup>4, \<dots>\<close> up to the size of \<open>d\<close>; the loop starts at 5, so the guard
  on \<open>p\<close> never decides.\<close>

function squares :: "nat \<Rightarrow> nat \<Rightarrow> nat list" where
  "squares d p = (if p < 2 \<or> bitLen (p * p) > bitLen d then [p] else p # squares d (p * p))"
  by pat_completeness auto
termination
proof (relation "measure (\<lambda>(d, p). bitLen d - bitLen p)", goal_cases)
  case (2 d p)
  then have "bitLen p < bitLen (p * p)" "bitLen (p * p) \<le> bitLen d" using bitLen_square [of p] by auto
  then show ?case by simp
qed simp

declare squares.simps [simp del]

text \<open>Dividing off one power as often as it goes; \<open>d\<close> is positive and \<open>p\<close> at least 5.\<close>

function stripPow :: "nat \<Rightarrow> nat \<Rightarrow> nat \<Rightarrow> nat \<Rightarrow> nat \<times> nat" where
  "stripPow p i d b =
     (if p < 2 \<or> d = 0 \<or> d mod p \<noteq> 0 then (d, b) else stripPow p i (d div p) (b + 2 ^ i))"
  by pat_completeness auto
termination
  by (relation "measure (\<lambda>(p, i, d, b). d)") auto

declare stripPow.simps [simp del]

text \<open>The outer loop, from the largest power down.\<close>

fun stripAll :: "nat list \<Rightarrow> nat \<Rightarrow> nat \<Rightarrow> nat \<times> nat" where
  "stripAll pows d b =
     fold (\<lambda>i (d, b). stripPow (pows ! i) i d b) (rev [0..<length pows]) (d, b)"

declare stripAll.simps [simp del]

definition DecimalMagnitudeOf :: "rat \<Rightarrow> decimalMagnitude option" where
  "DecimalMagnitudeOf r =
     (let d0 = nat (ratDen r);
          a = trailingZeroBits d0;
          d1 = d0 div 2 ^ a;
          (d, b) = stripAll (squares d1 5) d1 0 in
      if d \<noteq> 1 then None
      else
        let scale = (if b > a then b else a);
            coef = nat \<bar>ratNum r\<bar>;
            coef = (if scale - a > 0 then coef * 2 ^ (scale - a) else coef);
            coef = (if scale - b > 0 then coef * 5 ^ (scale - b) else coef) in
        Some \<lparr>Coefficient = coef, Scale = scale\<rparr>)"

subsection \<open>Twos and fives\<close>

lemma trailing_zeros:
  "0 < d \<Longrightarrow> 2 ^ trailingZeroBits d * (d div 2 ^ trailingZeroBits d) = d \<and> odd (d div 2 ^ trailingZeroBits d)"
proof (induction d rule: trailingZeroBits.induct)
  case (1 d)
  show ?case
  proof (cases "odd d")
    case True
    then show ?thesis by (simp add: trailingZeroBits.simps)
  next
    case False
    then have e: "d = 2 * (d div 2)" and z: "0 < d div 2" using 1(2) by auto
    have t: "trailingZeroBits d = Suc (trailingZeroBits (d div 2))"
      using False 1(2) by (subst trailingZeroBits.simps) simp
    have "d div 2 ^ trailingZeroBits d = d div 2 div 2 ^ trailingZeroBits (d div 2)"
      by (simp add: t div_mult2_eq)
    then show ?thesis using 1(1) [OF _ z] False 1(2) e t by (metis mult.assoc power_Suc neq0_conv)
  qed
qed

lemma squares_pow: "i < length (squares d (5 ^ 2 ^ k)) \<Longrightarrow> squares d (5 ^ 2 ^ k) ! i = 5 ^ 2 ^ (k + i)"
proof (induction i arbitrary: k)
  case 0
  then show ?case by (subst squares.simps) simp
next
  case (Suc i)
  have sq: "(5 :: nat) ^ 2 ^ k * 5 ^ 2 ^ k = 5 ^ 2 ^ Suc k"
    by (simp add: power_add [symmetric] mult_2)
  show ?case
    using Suc.prems Suc.IH [of "Suc k"]
    by (subst squares.simps, subst (asm) squares.simps) (auto simp: sq split: if_splits)
qed

lemma squares_pow5: "i < length (squares d 5) \<Longrightarrow> squares d 5 ! i = 5 ^ 2 ^ i"
  using squares_pow [of i d 0] by simp

lemma squares_nonempty [simp]: "squares d p \<noteq> []"
  by (subst squares.simps) simp

lemma stripPow_inv:
  assumes "stripPow (5 ^ 2 ^ i) i d b = (d', b')" "0 < d"
  shows "d' * 5 ^ b' = d * 5 ^ b \<and> 0 < d' \<and> \<not> 5 ^ 2 ^ i dvd d'"
  using assms
proof (induction "5 ^ 2 ^ i :: nat" i d b arbitrary: d' b' rule: stripPow.induct)
  case (1 i d b)
  have p: "\<not> (5 :: nat) ^ 2 ^ i < 2"
    using self_le_power [of "5 :: nat" "2 ^ i"] by simp
  show ?case
  proof (cases "d mod 5 ^ 2 ^ i = 0")
    case True
    then obtain q where q: "d = 5 ^ 2 ^ i * q" by (auto elim: dvdE simp: mod_eq_0_iff_dvd)
    then have pos: "0 < d div 5 ^ 2 ^ i" using 1(3) by simp
    have "stripPow (5 ^ 2 ^ i) i (d div 5 ^ 2 ^ i) (b + 2 ^ i) = (d', b')"
      using 1(2,3) True p by (subst (asm) stripPow.simps) simp
    from 1(1) [OF _ this pos] p True 1(3) q show ?thesis
      by (simp add: power_add mult_ac)
  next
    case False
    then show ?thesis using 1(2,3) p by (subst (asm) stripPow.simps) (auto simp: mod_eq_0_iff_dvd)
  qed
qed

lemma strip_fold:
  assumes "\<forall>i \<in> set is. pows ! i = 5 ^ 2 ^ i" "0 < d"
    "fold (\<lambda>i (d, b). stripPow (pows ! i) i d b) is (d, b) = (d', b')"
  shows "d' * 5 ^ b' = d * 5 ^ b \<and> 0 < d' \<and> (is \<noteq> [] \<longrightarrow> \<not> 5 ^ 2 ^ last is dvd d')"
  using assms
proof (induction "is" arbitrary: d b)
  case (Cons i "is")
  obtain d1 b1 where s: "stripPow (5 ^ 2 ^ i) i d b = (d1, b1)" by fastforce
  have i1: "d1 * 5 ^ b1 = d * 5 ^ b" "0 < d1" "\<not> 5 ^ 2 ^ i dvd d1"
    using stripPow_inv [OF s Cons.prems(2)] by auto
  have f: "fold (\<lambda>i (d, b). stripPow (pows ! i) i d b) is (d1, b1) = (d', b')"
    using Cons.prems(1,3) s by simp
  have r: "d' * 5 ^ b' = d1 * 5 ^ b1" "0 < d'" "is \<noteq> [] \<longrightarrow> \<not> 5 ^ 2 ^ last is dvd d'"
    using Cons.IH [OF _ i1(2) f] Cons.prems(1) by auto
  show ?case using r i1 f by (cases "is") auto
qed simp

lemma stripAll_5:
  assumes "stripAll (squares d 5) d 0 = (d', b)" "0 < d"
  shows "d = d' * 5 ^ b \<and> 0 < d' \<and> \<not> 5 dvd d'"
proof -
  let ?is = "rev [0..<length (squares d 5)]"
  have l: "last ?is = 0" "?is \<noteq> []"
    by (simp_all add: last_rev)
  have "d' * 5 ^ b = d * 5 ^ 0 \<and> 0 < d' \<and> (?is \<noteq> [] \<longrightarrow> \<not> 5 ^ 2 ^ last ?is dvd d')"
    using assms by (intro strip_fold [of _ "squares d 5"]) (auto simp: stripAll.simps squares_pow5)
  then show ?thesis using l by simp
qed

subsection \<open>Correctness\<close>

lemma scaled_int_iff: "10 ^ k * r \<in> \<int> \<longleftrightarrow> ratDen r dvd 10 ^ k"
proof
  assume "10 ^ k * r \<in> \<int>"
  then obtain z :: int where "10 ^ k * r = of_int z" by (rule Ints_cases)
  then have "10 ^ k * of_int (ratNum r) / of_int (ratDen r) = (of_int z :: rat)"
    using arg_cong [OF rat_num_den [of r], of "\<lambda>x. 10 ^ k * x"] by simp
  then have "(10 ^ k * of_int (ratNum r) :: rat) = of_int z * of_int (ratDen r)"
    using ratDen_pos [of r] by (simp add: field_simps)
  then have "10 ^ k * ratNum r = z * ratDen r" by (metis of_int_eq_iff of_int_mult of_int_numeral of_int_power)
  then have "ratDen r dvd ratNum r * 10 ^ k" by (metis dvd_triv_right mult.commute)
  then show "ratDen r dvd 10 ^ k"
    using rat_coprime [of r] by (metis coprime_commute coprime_dvd_mult_right_iff)
next
  assume "ratDen r dvd 10 ^ k"
  then obtain z where z: "10 ^ k = ratDen r * z" by blast
  have "(10 ^ k :: rat) = of_int (ratDen r * z)" using z by (metis of_int_numeral of_int_power)
  then have "10 ^ k * r = of_int z * of_int (ratNum r)"
    using rat_num_den [of r] ratDen_pos [of r] by (simp add: field_simps)
  then show "10 ^ k * r \<in> \<int>" by simp
qed

lemma coprime_5: "\<not> 5 dvd (d :: nat) \<Longrightarrow> coprime d 5"
proof (rule coprimeI)
  fix c :: nat
  assume d: "\<not> 5 dvd d" "c dvd d" "c dvd 5"
  then have "c \<le> 5" "c \<noteq> 5" "c \<noteq> 0" by (auto dest: dvd_imp_le intro: ccontr)
  then have "c \<in> {1, 2, 3, 4}" by auto
  then show "is_unit c" using d(3) by auto
qed

lemma coprime_2_5: "coprime (2 :: nat) 5"
  by (rule coprime_5) simp

lemma dvd_pow10: "2 ^ a * 5 ^ b dvd (10 :: nat) ^ k \<longleftrightarrow> a \<le> k \<and> b \<le> k"
proof -
  have c: "coprime ((2 :: nat) ^ a) (5 ^ b)" "coprime ((2 :: nat) ^ a) (5 ^ k)" "coprime ((5 :: nat) ^ b) (2 ^ k)"
    using coprime_2_5 by (simp_all add: coprime_commute)
  have t: "(10 :: nat) ^ k = 2 ^ k * 5 ^ k" using power_mult_distrib [of "2 :: nat" 5 k] by simp
  have "2 ^ a * 5 ^ b dvd (10 :: nat) ^ k \<longleftrightarrow> 2 ^ a dvd (10 :: nat) ^ k \<and> 5 ^ b dvd (10 :: nat) ^ k"
    using c(1) by (metis divides_mult dvd_mult_left dvd_mult_right)
  also have "\<dots> \<longleftrightarrow> 2 ^ a dvd (2 :: nat) ^ k \<and> 5 ^ b dvd (5 :: nat) ^ k"
    using c(2,3) by (simp add: t coprime_dvd_mult_left_iff coprime_dvd_mult_right_iff)
  also have "\<dots> \<longleftrightarrow> a \<le> k \<and> b \<le> k" by (simp add: power_dvd_imp_le le_imp_power_dvd dvd_power_iff)
  finally show ?thesis .
qed

lemma leftover_dvd:
  assumes "odd (d :: nat)" "\<not> 5 dvd d" "d dvd 10 ^ k"
  shows "d = 1"
proof -
  have "coprime d 2" "coprime d 5"
    using assms(1,2) coprime_5 by auto
  then have "coprime d (2 * 5)" by (simp only: coprime_mult_right_iff)
  then have "coprime d (10 ^ k)" by simp
  then have "d dvd 1" using coprime_common_divisor [of d "10 ^ k" d] assms(3) by simp
  then show ?thesis by simp
qed

lemma decimal_spec:
  "(case DecimalMagnitudeOf r of
      None \<Rightarrow> \<forall>k. 10 ^ k * r \<notin> \<int>
    | Some m \<Rightarrow> of_nat (Coefficient m) = \<bar>r\<bar> * 10 ^ Scale m \<and> (\<forall>k. 10 ^ k * r \<in> \<int> \<longleftrightarrow> Scale m \<le> k))"
proof -
  let ?d0 = "nat (ratDen r)"
  define a where "a = trailingZeroBits ?d0"
  define d1 where "d1 = ?d0 div 2 ^ a"
  obtain d b where s: "stripAll (squares d1 5) d1 0 = (d, b)" by fastforce
  have pos: "0 < ?d0" using ratDen_pos [of r] by simp
  have two: "2 ^ a * d1 = ?d0" "odd d1" using trailing_zeros [OF pos] by (simp_all add: a_def d1_def)
  then have "0 < d1" using pos by (cases d1) auto
  then have five: "d1 = d * 5 ^ b" "0 < d" "\<not> 5 dvd d" using stripAll_5 [OF s] by auto
  have den: "?d0 = d * (2 ^ a * 5 ^ b)" using two(1) five(1) by (simp add: mult_ac)
  have int_iff: "10 ^ k * r \<in> \<int> \<longleftrightarrow> ?d0 dvd 10 ^ k" for k
    unfolding scaled_int_iff using ratDen_pos [of r] by (metis int_dvd_int_iff nat_0_le order_less_imp_le of_nat_numeral of_nat_power)
  have res: "DecimalMagnitudeOf r =
      (if d \<noteq> 1 then None
       else Some \<lparr>Coefficient = nat \<bar>ratNum r\<bar> * 2 ^ (max a b - a) * 5 ^ (max a b - b), Scale = max a b\<rparr>)"
    using s by (auto simp: DecimalMagnitudeOf_def Let_def max_def simp flip: a_def d1_def)
  show ?thesis
  proof (cases "d = 1")
    case False
    have "\<not> ?d0 dvd 10 ^ k" for k
    proof
      assume "?d0 dvd 10 ^ k"
      then have "d dvd 10 ^ k" unfolding den by (rule dvd_mult_left)
      moreover have "odd d" using two(2) five(1) by simp
      ultimately show False using leftover_dvd five(3) False by blast
    qed
    then show ?thesis using res False int_iff by simp
  next
    case True
    let ?x = "max a b - a" and ?y = "max a b - b"
    let ?c = "nat \<bar>ratNum r\<bar> * 2 ^ ?x * 5 ^ ?y"
    have "nat (ratDen r) = 2 ^ a * 5 ^ b" using den True by simp
    then have "ratDen r = int (2 ^ a * 5 ^ b)" using ratDen_pos [of r] by (metis nat_0_le order_less_imp_le)
    then have dr: "of_int (ratDen r) = (2 ^ a * 5 ^ b :: rat)" by simp
    have "\<bar>r\<bar> = \<bar>of_int (ratNum r)\<bar> / of_int (ratDen r)"
      using arg_cong [OF rat_num_den [of r], of abs] ratDen_pos [of r] by simp
    then have num: "\<bar>of_int (ratNum r)\<bar> = \<bar>r\<bar> * (2 ^ a * 5 ^ b)" unfolding dr by simp
    have "(2 :: rat) ^ a * 5 ^ b * (2 ^ ?x * 5 ^ ?y) = 2 ^ (a + ?x) * 5 ^ (b + ?y)"
      by (simp only: power_add mult_ac)
    also have "\<dots> = 10 ^ max a b" using power_mult_distrib [of "2 :: rat" 5 "max a b"] by simp
    finally have "of_nat ?c = \<bar>r\<bar> * 10 ^ max a b" using num by (simp add: mult.assoc)
    then show ?thesis using res True int_iff dvd_pow10 den by simp
  qed
qed

text \<open>C20: \<open>DecimalMagnitudeOf\<close> answers exactly when the value has a finite decimal expansion, and
  then with the exact form: the magnitude is the coefficient over ten to the scale, and no
  smaller scale makes the scaled value an integer.\<close>

theorem DecimalMagnitudeOf_exact:
  "(case DecimalMagnitudeOf r of
      None \<Rightarrow> \<forall>k. 10 ^ k * r \<notin> \<int>
    | Some m \<Rightarrow> of_nat (Coefficient m) = \<bar>r\<bar> * 10 ^ Scale m \<and> (\<forall>k. 10 ^ k * r \<in> \<int> \<longleftrightarrow> Scale m \<le> k))"
  by (rule decimal_spec)

end
