(* ===== verification/DecText.thy ===== *)
theory DecText
  imports DecimalMag
begin

text \<open>
  Rendering of decimals and of the seconds of a time (\<open>formatDecimal\<close>, \<open>decimalScale\<close>,
  \<open>secondsScale\<close> of \<open>xdm/atomic.go\<close> and \<open>formatSeconds\<close> of \<open>xdm/datetime.go\<close>), with
  \<open>big.Rat.FloatString\<close> as it rounds and pads.
\<close>

subsection \<open>Rendering\<close>

definition sgnStr :: "rat \<Rightarrow> string" where
  "sgnStr r = (if r < 0 then ''-'' else [])"

definition FloatString :: "rat \<Rightarrow> nat \<Rightarrow> string" where
  "FloatString r prec =
     (if ratIsInt r then
        sgnStr r @ decStr (nat \<bar>ratNum r\<bar>) @ (if prec > 0 then CHR ''.'' # replicate prec (CHR ''0'') else [])
      else
        let den = nat (ratDen r);
            q = nat \<bar>ratNum r\<bar> div den;
            f = nat \<bar>ratNum r\<bar> mod den * 10 ^ prec;
            (q, f) = (if den \<le> 2 * (f mod den)
                      then (if f div den + 1 \<ge> 10 ^ prec then (q + 1, f div den + 1 - 10 ^ prec) else (q, f div den + 1))
                      else (q, f div den)) in
        sgnStr r @ decStr q @ (if prec > 0 then CHR ''.'' # pad prec (decStr f) else []))"

definition nonTerminatingScale :: nat where "nonTerminatingScale = 18"

definition decimalScale :: "rat \<Rightarrow> nat \<times> bool" where
  "decimalScale r =
     (case DecimalMagnitudeOf r of
        None \<Rightarrow> (nonTerminatingScale, False)
      | Some m \<Rightarrow> if Scale m = 0 then (1, True) else (Scale m, True))"

definition secondsScale :: "rat \<Rightarrow> nat" where
  "secondsScale r = fst (decimalScale r)"

text \<open>\<open>strings.TrimRight(s, "0")\<close> and \<open>strings.TrimSuffix(s, ".")\<close>.\<close>

definition trimZeros :: "string \<Rightarrow> string" where
  "trimZeros s = rev (dropWhile (\<lambda>c. c = CHR ''0'') (rev s))"

definition trimPoint :: "string \<Rightarrow> string" where
  "trimPoint s = (if s \<noteq> [] \<and> last s = CHR ''.'' then butlast s else s)"

definition intStr :: "int \<Rightarrow> string" where
  "intStr n = (if n < 0 then CHR ''-'' # decStr (nat (- n)) else decStr (nat n))"

definition formatDecimal :: "rat \<Rightarrow> string" where
  "formatDecimal r =
     (if ratIsInt r then intStr (ratNum r)
      else
        let s = FloatString r (fst (decimalScale r));
            s = (if CHR ''.'' \<in> set s then trimPoint (trimZeros s) else s) in
        if s = [] \<or> s = ''-'' then ''0'' else s)"

text \<open>\<open>IndexByte(s, '.')\<close> and the padding to two digits before the point.\<close>

definition formatSeconds :: "rat \<Rightarrow> string" where
  "formatSeconds sec =
     (if ratIsInt sec then pad 2 (intStr (ratNum sec))
      else
        let s = trimPoint (trimZeros (FloatString sec (secondsScale sec)));
            i = length (takeWhile (\<lambda>c. c \<noteq> CHR ''.'') s) in
        if i = 1 \<and> i < length s then CHR ''0'' # s
        else if i = length s \<and> length s = 1 then CHR ''0'' # s
        else s)"

subsection \<open>Exactness\<close>

lemma nat_num_den: "\<bar>r\<bar> = of_nat (nat \<bar>ratNum r\<bar>) / of_nat (nat (ratDen r))"
proof -
  have "\<bar>r\<bar> = of_int \<bar>ratNum r\<bar> / of_int (ratDen r)"
    using arg_cong [OF rat_num_den [of r], of abs] ratDen_pos [of r] by simp
  then show ?thesis using ratDen_pos [of r] by simp
qed

text \<open>With the exact scale \<open>FloatString\<close> does not round: the fraction digits are the value.\<close>

lemma FloatString_exact:
  assumes "DecimalMagnitudeOf r = Some m" "\<not> ratIsInt r"
  obtains q f where "FloatString r (Scale m) = sgnStr r @ decStr q @ CHR ''.'' # pad (Scale m) (decStr f)"
    "0 < Scale m" "f < 10 ^ Scale m" "f mod 10 \<noteq> 0"
    "\<bar>r\<bar> = of_nat q + of_nat f / 10 ^ Scale m"
proof -
  let ?s = "Scale m" and ?n = "nat \<bar>ratNum r\<bar>" and ?d = "nat (ratDen r)"
  note ex = decimal_spec [of r, unfolded assms(1) option.case]
  have dpos: "0 < ?d" using ratDen_pos [of r] by simp
  have spos: "0 < ?s"
  proof (rule ccontr)
    assume "\<not> 0 < ?s"
    then have "10 ^ 0 * r \<in> \<int>" using ex by blast
    then show False using assms(2) ratIsInt_iff by simp
  qed
  have "10 ^ ?s * r \<in> \<int>" using ex by blast
  then have "ratDen r dvd 10 ^ ?s" using scaled_int_iff by blast
  then have dv: "?d dvd 10 ^ ?s"
    using ratDen_pos [of r] by (metis int_dvd_int_iff nat_0_le of_nat_numeral of_nat_power order_less_imp_le)
  define q where "q = ?n div ?d"
  define f where "f = ?n mod ?d * 10 ^ ?s div ?d"
  have fm: "?n mod ?d * 10 ^ ?s mod ?d = 0" using dv by (simp add: mod_eq_0_iff_dvd)
  then have fd: "f * ?d = ?n mod ?d * 10 ^ ?s" unfolding f_def by (metis add.right_neutral div_mult_mod_eq)
  have fs: "FloatString r ?s = sgnStr r @ decStr q @ CHR ''.'' # pad ?s (decStr f)"
    using assms(2) spos fm dpos by (simp add: FloatString_def q_def f_def Let_def)
  have "?n mod ?d < ?d" using dpos by simp
  then have "f * ?d < 10 ^ ?s * ?d" unfolding fd using dpos by simp
  then have fl: "f < 10 ^ ?s" using dpos by simp
  have "(of_nat f :: rat) * of_nat ?d = of_nat (?n mod ?d) * 10 ^ ?s"
    using arg_cong [OF fd, of "of_nat :: nat \<Rightarrow> rat"] by simp
  then have ff: "(of_nat f :: rat) / 10 ^ ?s = of_nat (?n mod ?d) / of_nat ?d"
    using dpos by (simp add: field_simps)
  have "(of_nat ?n :: rat) = of_nat q * of_nat ?d + of_nat (?n mod ?d)"
    by (metis div_mult_mod_eq of_nat_add of_nat_mult q_def)
  then have "\<bar>r\<bar> = (of_nat q * of_nat ?d + of_nat (?n mod ?d)) / of_nat ?d"
    using nat_num_den [of r] by (simp only:)
  then have v: "\<bar>r\<bar> = of_nat q + of_nat f / 10 ^ ?s"
    unfolding ff using dpos by (simp add: add_divide_distrib)
  have "f mod 10 \<noteq> 0"
  proof
    assume "f mod 10 = 0"
    then obtain g where g: "f = 10 * g" by (metis mod_eq_0_iff_dvd dvdE)
    obtain t where t: "?s = Suc t" using spos by (cases ?s) auto
    have "\<bar>r\<bar> * 10 ^ t = of_nat (q * 10 ^ t + g)" using v g t by (simp add: field_simps)
    then have "\<bar>10 ^ t * r\<bar> \<in> \<int>" by (simp add: abs_mult mult.commute)
    then have "10 ^ t * r \<in> \<int>" by (metis Ints_minus abs_if minus_minus)
    then show False using ex t by auto
  qed
  with that fs spos fl v show ?thesis by blast
qed

lemma trimZeros_digits: "s \<noteq> [] \<Longrightarrow> last s \<noteq> CHR ''0'' \<Longrightarrow> trimZeros s = s"
  by (cases s rule: rev_cases) (auto simp: trimZeros_def)

lemma pad_last: "f mod 10 \<noteq> 0 \<Longrightarrow> last (pad w (decStr f)) = digitChar (f mod 10)"
  by (subst decStr.simps) (auto simp: pad_def)

lemma digitChar_ne: "0 < n \<Longrightarrow> n < 10 \<Longrightarrow> digitChar n \<noteq> CHR ''0''"
  using digitChar(2) [of n] by (metis digitVal_0 nat_neq_iff)

lemma digitChar_nopoint: "n < 10 \<Longrightarrow> digitChar n \<noteq> CHR ''.''"
  using digitChar(1) [of n] isDigit_sign(4) by metis

text \<open>The text of a terminating value: no rounding, no trailing zero, and the digits are the
  value.\<close>

lemma exact_text:
  assumes "DecimalMagnitudeOf r = Some m" "\<not> ratIsInt r"
  obtains q fp where "trimPoint (trimZeros (FloatString r (Scale m))) = sgnStr r @ decStr q @ CHR ''.'' # fp"
    "FloatString r (Scale m) = sgnStr r @ decStr q @ CHR ''.'' # fp"
    "fp \<noteq> []" "list_all isDigit fp" "last fp \<noteq> CHR ''0''" "ratOfDigits (decStr q) fp = \<bar>r\<bar>" "0 < Scale m"
    "of_nat q \<le> \<bar>r\<bar>"
proof -
  obtain q f where f: "FloatString r (Scale m) = sgnStr r @ decStr q @ CHR ''.'' # pad (Scale m) (decStr f)"
    "0 < Scale m" "f < 10 ^ Scale m" "f mod 10 \<noteq> 0" "\<bar>r\<bar> = of_nat q + of_nat f / 10 ^ Scale m"
    using FloatString_exact [OF assms] by blast
  let ?fp = "pad (Scale m) (decStr f)"
  have len: "length ?fp = Scale m" using decStr_length_le [OF f(3,2)] by simp
  have ne: "?fp \<noteq> []" using len f(2) by (metis list.size(3) less_irrefl)
  have la: "last ?fp = digitChar (f mod 10)" using pad_last [OF f(4)] .
  have nz: "last ?fp \<noteq> CHR ''0''" "last ?fp \<noteq> CHR ''.''"
    unfolding la using f(4) digitChar_ne [of "f mod 10"] digitChar_nopoint [of "f mod 10"] by simp_all
  have "ratOfDigits (decStr q) ?fp = \<bar>r\<bar>"
    using len f(5) by (simp add: ratOfDigits_def digitsVal_append field_simps)
  moreover have "trimPoint (trimZeros (FloatString r (Scale m))) = sgnStr r @ decStr q @ CHR ''.'' # ?fp"
    using f(1) ne nz by (simp add: trimZeros_digits trimPoint_def)
  ultimately show thesis using that [of q ?fp] f(1,2,5) ne nz(1) by simp
qed

lemma decimalScale_exact: "DecimalMagnitudeOf r = Some m \<Longrightarrow> 0 < Scale m \<Longrightarrow> fst (decimalScale r) = Scale m"
  by (simp add: decimalScale_def)

text \<open>C21: A decimal with a finite expansion is rendered exactly and canonically: an optional minus,
  an integer part with no leading zero, and a fraction, when there is one, whose last digit is
  not zero; reading the digits back gives the value.\<close>

theorem formatDecimal_exact:
  assumes "DecimalMagnitudeOf r \<noteq> None"
  shows "\<exists>q fp. formatDecimal r = sgnStr r @ decStr q @ (if fp = [] then [] else CHR ''.'' # fp) \<and>
    list_all isDigit fp \<and> (fp \<noteq> [] \<longrightarrow> last fp \<noteq> CHR ''0'') \<and> ratOfDigits (decStr q) fp = \<bar>r\<bar>"
proof (cases "ratIsInt r")
  case True
  then have r: "r = of_int (ratNum r)" using rat_num_den [of r] by (simp add: ratIsInt_def)
  have "r < 0 \<longleftrightarrow> ratNum r < 0" using r by (metis of_int_less_0_iff)
  moreover have "ratOfDigits (decStr (nat \<bar>ratNum r\<bar>)) [] = \<bar>r\<bar>"
    using r by (simp add: ratOfDigits_def flip: of_int_abs)
  ultimately show ?thesis using True
    by (intro exI [of _ "nat \<bar>ratNum r\<bar>"] exI [of _ "[]"]) (auto simp: formatDecimal_def intStr_def sgnStr_def)
next
  case False
  obtain m where m: "DecimalMagnitudeOf r = Some m" using assms by blast
  obtain q fp where t: "trimPoint (trimZeros (FloatString r (Scale m))) = sgnStr r @ decStr q @ CHR ''.'' # fp"
    "FloatString r (Scale m) = sgnStr r @ decStr q @ CHR ''.'' # fp"
    "fp \<noteq> []" "list_all isDigit fp" "last fp \<noteq> CHR ''0''" "ratOfDigits (decStr q) fp = \<bar>r\<bar>" "0 < Scale m"
    using exact_text [OF m False] by blast
  have "decStr q @ CHR ''.'' # fp \<noteq> ''-''" by (cases "decStr q") auto
  then have "formatDecimal r = sgnStr r @ decStr q @ CHR ''.'' # fp"
    using t(1,2,3) False decimalScale_exact [OF m t(7)] by (auto simp: formatDecimal_def Let_def sgnStr_def)
  then show ?thesis using t(3-6) by (intro exI [of _ q] exI [of _ fp]) simp
qed

theorem formatDecimal_exact_witness:
  "DecimalMagnitudeOf (1 / 8) \<noteq> None \<and> formatDecimal (1 / 8) = ''0.125'' \<and>
   (\<exists>q fp. formatDecimal (1 / 8) = decStr q @ (if fp = [] then [] else CHR ''.'' # fp) \<and>
      ratOfDigits (decStr q) fp = 1 / 8)"
proof -
  have d: "DecimalMagnitudeOf (1 / 8) \<noteq> None" by code_simp
  obtain q fp where "formatDecimal (1 / 8) = sgnStr (1 / 8) @ decStr q @ (if fp = [] then [] else CHR ''.'' # fp)"
    "ratOfDigits (decStr q) fp = \<bar>1 / 8\<bar>"
    using formatDecimal_exact [OF d] by blast
  then have "\<exists>q fp. formatDecimal (1 / 8) = decStr q @ (if fp = [] then [] else CHR ''.'' # fp) \<and>
      ratOfDigits (decStr q) fp = 1 / 8"
    by (intro exI [of _ q] exI [of _ fp]) (simp add: sgnStr_def)
  moreover have "formatDecimal (1 / 8) = ''0.125''" by code_simp
  ultimately show ?thesis using d by blast
qed

end
