(* ===== verification/DateTime.thy ===== *)
theory DateTime
  imports Calendar DecText
begin

text \<open>
  \<open>xdm/datetime.go\<close>: the value behind \<open>xs:date\<close>, \<open>xs:time\<close> and \<open>xs:dateTime\<close>, its parser,
  its canonical text and its position on the common timeline. An error is its code; the seconds
  are an exact rational. Go's slices and indices are \<open>take\<close>, \<open>drop\<close> and \<open>!\<close>, behind the
  same length checks.
\<close>

subsection \<open>Values and codes\<close>

datatype typeCode = TypeDate | TypeTime | TypeDateTime | TypeGYear | TypeGYearMonth | TypeGMonth | TypeGMonthDay | TypeGDay
  | TypeDuration | TypeYearMonthDuration | TypeDayTimeDuration

record dateTime =
  Year :: int
  Month :: int
  Day :: int
  Hour :: int
  Minute :: int
  Second :: rat
  TZOffset :: int
  HasTZ :: bool

definition FORG0001 :: string where "FORG0001 = ''FORG0001''"
definition FODT0001 :: string where "FODT0001 = ''FODT0001''"
definition FODT0002 :: string where "FODT0002 = ''FODT0002''"

definition isXMLSpace :: "char \<Rightarrow> bool" where
  "isXMLSpace c \<longleftrightarrow> c = CHR '' '' \<or> c = CHR 0x09 \<or> c = CHR 0x0D \<or> c = CHR 0x0A"

definition TrimXMLSpace :: "string \<Rightarrow> string" where
  "TrimXMLSpace s = rev (dropWhile isXMLSpace (rev (dropWhile isXMLSpace s)))"

subsection \<open>Parsing\<close>

definition atoiDigits :: "string \<Rightarrow> string + int" where
  "atoiDigits s =
     (if \<not> list_all isDigit s then Inl FORG0001
      else case Atoi s of Inl _ \<Rightarrow> Inl FORG0001 | Inr n \<Rightarrow> Inr n)"

definition parseDatePart :: "dateTime \<Rightarrow> string \<Rightarrow> string + dateTime \<times> string" where
  "parseDatePart dt s0 =
     (let neg = (s0 \<noteq> [] \<and> hd s0 = CHR ''-''); s = (if neg then tl s0 else s0); ds = digitRun s in
      if length ds < 4 then Inl FORG0001
      else if length ds > 4 \<and> s ! 0 = CHR ''0'' then Inl FORG0001
      else case Atoi ds of
          Inl e \<Rightarrow> Inl (if e = ErrRange then FODT0001 else FORG0001)
        | Inr y0 \<Rightarrow>
            if y0 = 0 then Inl FORG0001
            else
              let y = (if neg then - y0 else y0) in
              if y > maxYear \<or> y < minYear then Inl FODT0001
              else
                let t = afterDigits s in
                if length t < 6 \<or> t ! 0 \<noteq> CHR ''-'' \<or> t ! 3 \<noteq> CHR ''-'' then Inl FORG0001
                else
                  bindE (atoiDigits (take 2 (drop 1 t))) (\<lambda>m.
                  bindE (atoiDigits (take 2 (drop 4 t))) (\<lambda>d.
                  Inr (dt\<lparr>Year := y, Month := m, Day := d\<rparr>, drop 6 t))))"

text \<open>The seconds: the digits from the sixth character on, a point and its digits.\<close>

definition parseTimePart :: "dateTime \<Rightarrow> string \<Rightarrow> string + dateTime \<times> string" where
  "parseTimePart dt s =
     (if length s < 8 \<or> s ! 2 \<noteq> CHR '':'' \<or> s ! 5 \<noteq> CHR '':'' then Inl FORG0001
      else
        bindE (atoiDigits (take 2 s)) (\<lambda>h.
        bindE (atoiDigits (take 2 (drop 3 s))) (\<lambda>mi.
          let ds = digitRun (drop 6 s); rest = afterDigits (drop 6 s) in
          if length ds < 2 then Inl FORG0001
          else if rest \<noteq> [] \<and> hd rest = CHR ''.'' then
            Inr (dt\<lparr>Hour := h, Minute := mi, Second := ratOfDigits ds (digitRun (tl rest))\<rparr>, afterDigits (tl rest))
          else Inr (dt\<lparr>Hour := h, Minute := mi, Second := ratOfDigits ds []\<rparr>, rest))))"

definition parseTZ :: "dateTime \<Rightarrow> string \<Rightarrow> string + dateTime" where
  "parseTZ dt s =
     (if s = [] then Inr (dt\<lparr>HasTZ := False\<rparr>)
      else if s = ''Z'' then Inr (dt\<lparr>HasTZ := True, TZOffset := 0\<rparr>)
      else if length s \<noteq> 6 \<or> (s ! 0 \<noteq> CHR ''+'' \<and> s ! 0 \<noteq> CHR ''-'') \<or> s ! 3 \<noteq> CHR '':'' then Inl FORG0001
      else
        bindE (atoiDigits (take 2 (drop 1 s))) (\<lambda>h.
        bindE (atoiDigits (take 2 (drop 4 s))) (\<lambda>m.
          if h > 14 \<or> m > 59 \<or> h = 14 \<and> m \<noteq> 0 then Inl FORG0001
          else
            let off = h * 60 + m in
            Inr (dt\<lparr>HasTZ := True, TZOffset := if s ! 0 = CHR ''-'' then - off else off\<rparr>))))"

definition valid :: "dateTime \<Rightarrow> bool" where
  "valid dt =
     (if Month dt < 1 \<or> Month dt > 12 then False
      else if Day dt < 1 \<or> Day dt > daysInMonth (Year dt) (Month dt) then False
      else if Hour dt = 24 \<and> (Minute dt \<noteq> 0 \<or> Second dt \<noteq> 0) then False
      else if Hour dt \<noteq> 24 \<and> (Hour dt < 0 \<or> Hour dt > 23) then False
      else if Minute dt < 0 \<or> Minute dt > 59 then False
      else if Second dt < 0 \<or> Second dt \<ge> 60 then False
      else True)"

definition normalizeHour24 :: "dateTime \<Rightarrow> typeCode \<Rightarrow> dateTime" where
  "normalizeHour24 dt t =
     (if Hour dt \<noteq> 24 then dt
      else
        let dt = dt\<lparr>Hour := 0\<rparr> in
        if t = TypeTime then dt
        else if Year dt = 0 \<and> Month dt = 0 \<and> Day dt = 0 then dt
        else
          let dt = dt\<lparr>Day := Day dt + 1\<rparr> in
          if Day dt > daysInMonth (Year dt) (Month dt) then
            let dt = dt\<lparr>Day := 1, Month := Month dt + 1\<rparr> in
            if Month dt > 12 then
              let dt = dt\<lparr>Month := 1, Year := Year dt + 1\<rparr> in
              if Year dt = 0 then dt\<lparr>Year := 1\<rparr> else dt
            else dt
          else dt)"

definition newDateTime :: dateTime where
  "newDateTime = \<lparr>Year = 0, Month = 0, Day = 0, Hour = 0, Minute = 0, Second = 0, TZOffset = 0, HasTZ = False\<rparr>"

definition ParseDateTime :: "string \<Rightarrow> typeCode \<Rightarrow> string + dateTime" where
  "ParseDateTime s0 t =
     (let s = TrimXMLSpace s0;
          parsed =
            (case t of
               TypeDate \<Rightarrow> parseDatePart newDateTime s
             | TypeTime \<Rightarrow> parseTimePart (newDateTime\<lparr>Year := 1972, Month := 12, Day := 31\<rparr>) s
             | TypeDateTime \<Rightarrow>
                 bindE (parseDatePart newDateTime s) (\<lambda>(dt, aft).
                   if aft = [] \<or> hd aft \<noteq> CHR ''T'' then Inl FORG0001
                   else parseTimePart dt (tl aft))
             | _ \<Rightarrow> Inl FORG0001) in
      bindE parsed (\<lambda>(dt, rest).
      bindE (parseTZ dt rest) (\<lambda>dt.
        if \<not> valid dt then Inl FORG0001 else Inr (normalizeHour24 dt t))))"

subsection \<open>Text\<close>

text \<open>\<open>%0wd\<close> of an integer.\<close>

definition padInt :: "nat \<Rightarrow> int \<Rightarrow> string" where
  "padInt w n = (if n < 0 then CHR ''-'' # pad (w - 1) (decStr (nat (- n))) else pad w (decStr (nat n)))"

definition formatTZ :: "int \<Rightarrow> string" where
  "formatTZ off0 =
     (if off0 = 0 then ''Z''
      else
        let sign = (if off0 < 0 then ''-'' else ''+''); off = (if off0 < 0 then - off0 else off0) in
        sign @ padInt 2 (off sdiv 60) @ '':'' @ padInt 2 (off smod 60))"

definition writeDate :: "dateTime \<Rightarrow> string" where
  "writeDate dt =
     (if Year dt < 0 then ''-'' @ padInt 4 (- Year dt) else padInt 4 (Year dt)) @
     ''-'' @ padInt 2 (Month dt) @ ''-'' @ padInt 2 (Day dt)"

definition writeTime :: "dateTime \<Rightarrow> string" where
  "writeTime dt = padInt 2 (Hour dt) @ '':'' @ padInt 2 (Minute dt) @ '':'' @ formatSeconds (Second dt)"

definition Lexical :: "dateTime \<Rightarrow> typeCode \<Rightarrow> string" where
  "Lexical dt t =
     (case t of
        TypeDate \<Rightarrow> writeDate dt
      | TypeTime \<Rightarrow> writeTime dt
      | TypeDateTime \<Rightarrow> writeDate dt @ ''T'' @ writeTime dt
      | _ \<Rightarrow> []) @ (if HasTZ dt then formatTZ (TZOffset dt) else [])"

subsection \<open>The timeline\<close>

definition ToSeconds :: "dateTime \<Rightarrow> int \<Rightarrow> rat" where
  "ToSeconds dt implicitTZ =
     of_int (daysFromCivil (Year dt) (Month dt) (Day dt) * 86400) + of_int (Hour dt * 3600 + Minute dt * 60)
       + Second dt - of_int ((if HasTZ dt then TZOffset dt else implicitTZ) * 60)"

definition CompareDT :: "dateTime \<Rightarrow> dateTime \<Rightarrow> int \<Rightarrow> int" where
  "CompareDT a b implicitTZ =
     (let x = ToSeconds a implicitTZ; y = ToSeconds b implicitTZ in if x < y then -1 else if x = y then 0 else 1)"

end
