(* ===== verification/DateArith.thy ===== *)
theory DateArith
  imports DateTime
begin

text \<open>
  Arithmetic on dates, times and durations: \<open>temporalArithmetic\<close> of \<open>xpath/cast.go\<close> with
  everything it calls, and the timezone adjustment of \<open>xpath/fn_date.go\<close>. The month count of a
  duration is a machine integer, so negation and absolute value wrap.
\<close>

subsection \<open>Values\<close>

record duration =
  Negative :: bool
  Months :: int
  Seconds :: rat

text \<open>A number as the code reads it: \<open>IsNaN\<close>, \<open>isInfinite\<close> and \<open>ratOf\<close>.\<close>

datatype number = NumNaN | NumInf | NumRat rat

datatype atomic = ADate typeCode dateTime | ADur typeCode duration | ANum number | AOther

datatype arithOp = OpAdd | OpSub | OpMul | OpDiv | OpOther

definition XPTY0004 :: string where "XPTY0004 = ''XPTY0004''"
definition FOCA0005 :: string where "FOCA0005 = ''FOCA0005''"
definition FOAR0001 :: string where "FOAR0001 = ''FOAR0001''"
definition FODT0003 :: string where "FODT0003 = ''FODT0003''"

definition SignedMonths :: "duration \<Rightarrow> int" where
  "SignedMonths d = (if Negative d then wrap64 (- Months d) else Months d)"

definition SignedSeconds :: "duration \<Rightarrow> rat" where
  "SignedSeconds d = (if Negative d then - Seconds d else Seconds d)"

definition isDateLike :: "typeCode \<Rightarrow> bool" where
  "isDateLike t \<longleftrightarrow> t = TypeDate \<or> t = TypeTime \<or> t = TypeDateTime"

definition isOperandDuration :: "typeCode \<Rightarrow> bool" where
  "isOperandDuration t \<longleftrightarrow> t = TypeYearMonthDuration \<or> t = TypeDayTimeDuration"

subsection \<open>Durations\<close>

definition absInt :: "int \<Rightarrow> int" where
  "absInt n = (if n < 0 then wrap64 (- n) else n)"

definition durationFromSigned :: "int \<Rightarrow> rat \<Rightarrow> duration" where
  "durationFromSigned months secs =
     \<lparr>Negative = months < 0 \<or> months = 0 \<and> secs < 0, Months = absInt months, Seconds = \<bar>secs\<bar>\<rparr>"

definition addDurations :: "typeCode \<times> duration \<Rightarrow> typeCode \<times> duration \<Rightarrow> bool \<Rightarrow> string + atomic" where
  "addDurations a b subtract =
     (case (a, b) of ((ta, da), (tb, db)) \<Rightarrow>
        if ta \<noteq> tb then Inl XPTY0004
        else
          let total = (if subtract then SignedMonths da - SignedMonths db else SignedMonths da + SignedMonths db);
              secs = (if subtract then SignedSeconds da - SignedSeconds db else SignedSeconds da + SignedSeconds db) in
          if \<not> inInt64 total then Inl FODT0002
          else Inr (ADur ta (durationFromSigned total secs)))"

text \<open>Rounding to the nearest integer, halves up; \<open>QuoRem\<close> truncates.\<close>

definition roundRat :: "rat \<Rightarrow> int" where
  "roundRat r =
     (let num = ratNum r; den = ratDen r; q = num sdiv den; rm = num smod den in
      if rm = 0 then q
      else if r < 0 then (if 2 * \<bar>rm\<bar> > den then q - 1 else q)
      else (if 2 * \<bar>rm\<bar> \<ge> den then q + 1 else q))"

definition scaleDuration :: "typeCode \<times> duration \<Rightarrow> number \<Rightarrow> arithOp \<Rightarrow> string + atomic" where
  "scaleDuration d n opr =
     (case d of (t, dv) \<Rightarrow>
        if opr \<noteq> OpMul \<and> opr \<noteq> OpDiv then Inl XPTY0004
        else if t \<noteq> TypeYearMonthDuration \<and> t \<noteq> TypeDayTimeDuration then Inl XPTY0004
        else
          (case n of
             NumNaN \<Rightarrow> Inl FOCA0005
           | NumInf \<Rightarrow> if opr = OpDiv then Inr (ADur t (durationFromSigned 0 0)) else Inl FODT0002
           | NumRat f \<Rightarrow>
               if opr = OpDiv \<and> f = 0 then Inl FODT0002
               else
                 let factor = (if opr = OpDiv then 1 / f else f);
                     months = roundRat (of_int (SignedMonths dv) * factor) in
                 if \<not> inInt64 months then Inl FODT0002
                 else Inr (ADur t (durationFromSigned months (SignedSeconds dv * factor)))))"

text \<open>Rounding to 18 decimal digits, halves away from zero.\<close>

definition roundToDecimalPrecision :: "rat \<Rightarrow> rat" where
  "roundToDecimalPrecision r =
     (if ratIsInt r then r
      else
        let scaled = r * 10 ^ 18; num = ratNum scaled; den = ratDen scaled; q = num sdiv den; rm = num smod den in
        of_int (if 2 * \<bar>rm\<bar> \<ge> den then (if r < 0 then q - 1 else q + 1) else q) / 10 ^ 18)"

definition divideDurations :: "typeCode \<times> duration \<Rightarrow> typeCode \<times> duration \<Rightarrow> string + atomic" where
  "divideDurations a b =
     (case (a, b) of ((ta, da), (tb, db)) \<Rightarrow>
        if ta \<noteq> tb then Inl XPTY0004
        else if ta = TypeYearMonthDuration then
          if SignedMonths db = 0 then Inl FOAR0001
          else Inr (ANum (NumRat (roundToDecimalPrecision (of_int (SignedMonths da) / of_int (SignedMonths db)))))
        else if SignedSeconds db = 0 then Inl FOAR0001
        else Inr (ANum (NumRat (roundToDecimalPrecision (SignedSeconds da / SignedSeconds db)))))"

subsection \<open>Dates\<close>

definition dateTimeFromSeconds :: "rat \<Rightarrow> bool \<Rightarrow> int \<Rightarrow> string + dateTime" where
  "dateTimeFromSeconds total0 hasTZ tz =
     (let total = (if hasTZ then total0 + of_int (tz * 60) else total0);
          secsInt = ratNum total sdiv ratDen total;
          frac = total - of_int secsInt;
          (secsInt, frac) = (if frac < 0 then (secsInt - 1, frac + 1) else (secsInt, frac)) in
      if \<not> inInt64 secsInt then Inl FODT0001
      else
        let days = floorDiv secsInt 86400;
            rm = secsInt - days * 86400;
            (y, m, d) = civilFromDays days in
        Inr \<lparr>Year = y, Month = m, Day = d, Hour = rm sdiv 3600, Minute = (rm smod 3600) sdiv 60,
             Second = of_int (rm smod 60) + frac, TZOffset = (if hasTZ then tz else 0), HasTZ = hasTZ\<rparr>)"

text \<open>The months first, with the day clamped to the month reached; then the seconds.\<close>

definition addMonths :: "dateTime \<Rightarrow> int \<Rightarrow> string + dateTime" where
  "addMonths dt months =
     (if months = 0 then Inr dt
      else
        let total = Year dt * 12 + (Month dt - 1) + months in
        if \<not> inInt64 total then Inl FODT0001
        else
          let y = total sdiv 12; m = total smod 12 + 1;
              (y, m) = (if m < 1 then (y - 1, m + 12) else (y, m));
              maxDay = daysInMonthOf y m in
          Inr (dt\<lparr>Year := y, Month := m, Day := if Day dt > maxDay then maxDay else Day dt\<rparr>))"

definition addSeconds :: "typeCode \<Rightarrow> dateTime \<Rightarrow> dateTime \<Rightarrow> rat \<Rightarrow> string + dateTime" where
  "addSeconds t src dt secs =
     (if secs = 0 then Inr dt
      else
        bindE (dateTimeFromSeconds (ToSeconds dt 0 + secs) (HasTZ dt) (TZOffset dt)) (\<lambda>res.
          let res = (if t = TypeDate then res\<lparr>Hour := 0, Minute := 0, Second := 0\<rparr> else res) in
          Inr (if t = TypeTime then res\<lparr>Year := Year src, Month := Month src, Day := Day src\<rparr> else res)))"

definition addDurationToDate :: "typeCode \<times> dateTime \<Rightarrow> typeCode \<times> duration \<Rightarrow> bool \<Rightarrow> string + atomic" where
  "addDurationToDate d dur subtract =
     (case (d, dur) of ((t, src), (tdur, dv)) \<Rightarrow>
        let months = (if subtract then wrap64 (- SignedMonths dv) else SignedMonths dv);
            secs = (if subtract then - SignedSeconds dv else SignedSeconds dv) in
        if t = TypeTime \<and> tdur \<noteq> TypeDayTimeDuration then Inl XPTY0004
        else
          bindE (addMonths src months) (\<lambda>out.
          bindE (addSeconds t src out secs) (\<lambda>out. Inr (ADate t out))))"

definition temporalArithmetic :: "atomic \<Rightarrow> atomic \<Rightarrow> arithOp \<Rightarrow> string + atomic" where
  "temporalArithmetic a b opr =
     (case (a, b) of
        (ADur ta da, ADur tb db) \<Rightarrow>
          if isOperandDuration ta \<and> isOperandDuration tb then
            if opr = OpDiv then divideDurations (ta, da) (tb, db)
            else if opr \<noteq> OpAdd \<and> opr \<noteq> OpSub then Inl XPTY0004
            else addDurations (ta, da) (tb, db) (opr = OpSub)
          else Inl XPTY0004
      | (ADur ta da, ANum n) \<Rightarrow> if isOperandDuration ta then scaleDuration (ta, da) n opr else Inl XPTY0004
      | (ANum n, ADur tb db) \<Rightarrow>
          if isOperandDuration tb \<and> opr = OpMul then scaleDuration (tb, db) n OpMul else Inl XPTY0004
      | (ADate ta da, ADate tb db) \<Rightarrow>
          if isDateLike ta \<and> isDateLike tb then
            if opr \<noteq> OpSub then Inl XPTY0004
            else if ta \<noteq> tb then Inl XPTY0004
            else
              let diff = ToSeconds da 0 - ToSeconds db 0 in
              Inr (ADur TypeDayTimeDuration \<lparr>Negative = diff < 0, Months = 0, Seconds = \<bar>diff\<bar>\<rparr>)
          else Inl XPTY0004
      | (ADate ta da, ADur tb db) \<Rightarrow>
          if isDateLike ta \<and> isOperandDuration tb then
            if opr \<noteq> OpAdd \<and> opr \<noteq> OpSub then Inl XPTY0004
            else addDurationToDate (ta, da) (tb, db) (opr = OpSub)
          else Inl XPTY0004
      | (ADur ta da, ADate tb db) \<Rightarrow>
          if isOperandDuration ta \<and> isDateLike tb \<and> opr = OpAdd then addDurationToDate (tb, db) (ta, da) False
          else Inl XPTY0004
      | _ \<Rightarrow> Inl XPTY0004)"

subsection \<open>Timezones\<close>

definition shiftToTimezone :: "dateTime \<Rightarrow> int \<Rightarrow> string + dateTime" where
  "shiftToTimezone src target = dateTimeFromSeconds (ToSeconds src 0) True target"

text \<open>The second argument: absent, the empty sequence, or a duration of so many seconds.\<close>

datatype zoneArg = ZoneAbsent | ZoneEmpty | ZoneSeconds rat

definition zoneMinutes :: "rat \<Rightarrow> string + int" where
  "zoneMinutes secs =
     (if \<not> ratIsInt secs then Inl FODT0003
      else if ratNum secs smod 60 \<noteq> 0 then Inl FODT0003
      else if \<bar>ratNum secs sdiv 60\<bar> > 14 * 60 then Inl FODT0003
      else Inr (ratNum secs sdiv 60))"

definition adjustToTimezone :: "typeCode \<Rightarrow> int \<Rightarrow> dateTime \<Rightarrow> zoneArg \<Rightarrow> string + dateTime" where
  "adjustToTimezone t implicitTZ src z =
     bindE (case z of ZoneSeconds s \<Rightarrow> zoneMinutes s | _ \<Rightarrow> Inr implicitTZ) (\<lambda>target.
     bindE
       (if z = ZoneEmpty then Inr (src\<lparr>HasTZ := False, TZOffset := 0\<rparr>)
        else if \<not> HasTZ src then Inr (src\<lparr>HasTZ := True, TZOffset := target\<rparr>)
        else shiftToTimezone src target) (\<lambda>out.
     Inr (if t = TypeDate then out\<lparr>Hour := 0, Minute := 0, Second := 0\<rparr> else out)))"

subsection \<open>Comparison and map keys\<close>

text \<open>\<open>compareValues\<close> on two values of one date type: times are placed on the reference date.\<close>

definition onReferenceDate :: "dateTime \<Rightarrow> dateTime" where
  "onReferenceDate dt = dt\<lparr>Year := 1972, Month := 12, Day := 31\<rparr>"

definition compareDates :: "typeCode \<Rightarrow> dateTime \<Rightarrow> dateTime \<Rightarrow> int \<Rightarrow> int" where
  "compareDates t a b tz =
     (if t = TypeTime then CompareDT (onReferenceDate a) (onReferenceDate b) tz else CompareDT a b tz)"

text \<open>The part of \<open>MapKeyOf\<close> for the date types: the instant of a zoned value, otherwise the text.\<close>

datatype dateKey = KeyInstant typeCode rat | KeyText string

definition dateMapKey :: "typeCode \<Rightarrow> dateTime \<Rightarrow> dateKey" where
  "dateMapKey t dt = (if HasTZ dt then KeyInstant t (ToSeconds dt 0) else KeyText (Lexical dt t))"

end
