(* ===== verification/DateText.thy ===== *)
theory DateText
  imports DateTime
begin

text \<open>
  Parsing undoes printing: every date, time and dateTime the parser can produce is read back from
  its canonical text, whatever its year, fraction of a second and timezone.
\<close>

subsection \<open>Two-digit fields\<close>

lemma two_cons: "0 \<le> n \<Longrightarrow> n < 100 \<Longrightarrow> padInt 2 n = [digitChar (nat n div 10), digitChar (nat n mod 10)]"
proof -
  assume n: "0 \<le> n" "n < 100"
  show ?thesis
  proof (cases "nat n < 10")
    case True
    then have "digitChar 0 = CHR ''0''" by (simp add: digitChar_def char_of_eq_iff)
    then show ?thesis using n True by (simp add: padInt_def pad_def decStr_small)
  next
    case False
    then show ?thesis using n by (simp add: padInt_def pad_def decStr_two)
  qed
qed

lemma digitsVal_two: "n < 100 \<Longrightarrow> digitsVal [digitChar (n div 10), digitChar (n mod 10)] = n"
  by (simp add: digitsVal_def)

lemma atoi_two: "0 \<le> n \<Longrightarrow> n < 100 \<Longrightarrow> atoiDigits [digitChar (nat n div 10), digitChar (nat n mod 10)] = Inr n"
  using digitsVal_two [of "nat n"] small_inInt64 [of "nat n"]
  by (auto simp: atoiDigits_def Atoi_digits)

lemma digit_not_sign:
  "isDigit c \<Longrightarrow> c \<noteq> CHR ''-'' \<and> c \<noteq> CHR ''+'' \<and> c \<noteq> CHR '':'' \<and> c \<noteq> CHR ''.'' \<and> c \<noteq> CHR ''T'' \<and> c \<noteq> CHR ''Z''"
  by auto

subsection \<open>Dates\<close>

definition dateOk :: "dateTime \<Rightarrow> bool" where
  "dateOk v \<longleftrightarrow> Year v \<noteq> 0 \<and> minYear \<le> Year v \<and> Year v \<le> maxYear \<and> 1 \<le> Month v \<and> Month v \<le> 12 \<and>
     1 \<le> Day v \<and> Day v \<le> daysInMonth (Year v) (Month v)"

lemma dim_le: "daysInMonth y m \<le> 31"
  by (simp add: daysInMonth_def)

text \<open>The year's digits.\<close>

lemma year_digits:
  assumes "0 < n" "n < 10 ^ 18"
  shows "list_all isDigit (pad 4 (decStr n))" "4 \<le> length (pad 4 (decStr n))"
    "length (pad 4 (decStr n)) > 4 \<Longrightarrow> pad 4 (decStr n) ! 0 \<noteq> CHR ''0''"
    "Atoi (pad 4 (decStr n)) = Inr (int n)"
proof -
  show "list_all isDigit (pad 4 (decStr n))" "4 \<le> length (pad 4 (decStr n))" by simp_all
  show "length (pad 4 (decStr n)) > 4 \<Longrightarrow> pad 4 (decStr n) ! 0 \<noteq> CHR ''0''"
    using decStr_head [of n] assms(1) by (auto simp: hd_conv_nth)
  have "pad 4 (decStr n) \<noteq> []" by (simp add: pad_def)
  then show "Atoi (pad 4 (decStr n)) = Inr (int n)"
    using Atoi_digits [of "pad 4 (decStr n)"] small_inInt64 [OF assms(2)] by simp
qed

lemma parse_date:
  assumes "dateOk v"
  shows "parseDatePart dt (writeDate v @ rest) = Inr (dt\<lparr>Year := Year v, Month := Month v, Day := Day v\<rparr>, rest)"
proof -
  define n where "n = nat \<bar>Year v\<bar>"
  define ys where "ys = pad 4 (decStr n)"
  have n: "0 < n" "n < 10 ^ 18" using assms by (auto simp: dateOk_def n_def minYear_def maxYear_def)
  note ys = year_digits [OF n, folded ys_def]
  have m: "0 \<le> Month v" "Month v < 100" "0 \<le> Day v" "Day v < 100"
    using assms dim_le [of "Year v" "Month v"] by (auto simp: dateOk_def)
  define t where "t = CHR ''-'' # digitChar (nat (Month v) div 10) # digitChar (nat (Month v) mod 10) # CHR ''-'' #
    digitChar (nat (Day v) div 10) # digitChar (nat (Day v) mod 10) # rest"
  have w: "writeDate v @ rest = (if Year v < 0 then ''-'' else []) @ ys @ t"
    using assms two_cons [OF m(1,2)] two_cons [OF m(3,4)]
    by (auto simp: writeDate_def ys_def n_def padInt_def dateOk_def t_def)
  have hd: "ys \<noteq> []" "hd ys \<noteq> CHR ''-''" using ys(1,2) by (cases ys; force)+
  have t: "\<not> (length t < 6 \<or> t ! 0 \<noteq> CHR ''-'' \<or> t ! 3 \<noteq> CHR ''-'')" "drop 6 t = rest"
    "atoiDigits (take 2 (drop 1 t)) = Inr (Month v)" "atoiDigits (take 2 (drop 4 t)) = Inr (Day v)"
    using atoi_two [OF m(1,2)] atoi_two [OF m(3,4)] by (simp_all add: t_def)
  have "t = [] \<or> \<not> isDigit (hd t)" by (simp add: t_def)
  then have run: "digitRun (ys @ t) = ys" "afterDigits (ys @ t) = t"
    using ys(1) digitRun_stop [of t] by simp_all
  define s where "s = (if Year v < 0 then ''-'' else []) @ ys @ t"
  have sg: "(s \<noteq> [] \<and> hd s = CHR ''-'') = (Year v < 0)" "(if Year v < 0 then tl s else s) = ys @ t"
    using hd by (simp_all add: s_def)
  have lead: "(length ys > 4 \<and> (ys @ t) ! 0 = CHR ''0'') = False" using ys(3) hd(1) by (auto simp: nth_append)
  have yr: "(if Year v < 0 then - int n else int n) = Year v" "int n \<noteq> 0"
    "\<not> (Year v > maxYear \<or> Year v < minYear)" "\<not> length ys < 4"
    using assms n ys(2) by (auto simp: n_def dateOk_def)
  show ?thesis
    unfolding w s_def [symmetric] parseDatePart_def Let_def sg run lead ys(4)
    using yr t by simp
qed

subsection \<open>Seconds\<close>

lemma digit_zero: "digitChar 0 = CHR ''0''"
  by (simp add: digitChar_def char_of_eq_iff)

lemma takeWhile_point: "list_all isDigit ip \<Longrightarrow> takeWhile (\<lambda>c. c \<noteq> CHR ''.'') (ip @ CHR ''.'' # fp) = ip"
  by (induction ip) auto

lemma seconds_text:
  assumes "0 \<le> sec" "sec < 60" "DecimalMagnitudeOf sec \<noteq> None"
  obtains q fp where "formatSeconds sec = padInt 2 (int q) @ (if fp = [] then [] else CHR ''.'' # fp)" "q < 60"
    "list_all isDigit fp" "ratOfDigits (padInt 2 (int q)) fp = sec"
proof (cases "ratIsInt sec")
  case True
  then have s: "sec = of_int (ratNum sec)" using rat_num_den [of sec] by (simp add: ratIsInt_def)
  have "(0 :: rat) \<le> of_int (ratNum sec)" "of_int (ratNum sec) < (60 :: rat)" using assms(1,2) s by simp_all
  then have n: "0 \<le> ratNum sec" "ratNum sec < 60" by simp_all
  have "formatSeconds sec = padInt 2 (int (nat (ratNum sec)))"
    using True n by (simp add: formatSeconds_def intStr_def padInt_def)
  moreover have "ratOfDigits (padInt 2 (int (nat (ratNum sec)))) [] = sec"
    using s n by (simp add: ratOfDigits_def padInt_def)
  ultimately show ?thesis using that [of "nat (ratNum sec)" "[]"] n by simp
next
  case False
  obtain m where m: "DecimalMagnitudeOf sec = Some m" using assms(3) by blast
  obtain q fp where t: "trimPoint (trimZeros (FloatString sec (Scale m))) = sgnStr sec @ decStr q @ CHR ''.'' # fp"
    "fp \<noteq> []" "list_all isDigit fp" "ratOfDigits (decStr q) fp = \<bar>sec\<bar>" "0 < Scale m" "of_nat q \<le> \<bar>sec\<bar>"
    using exact_text [OF m False] by metis
  have q: "q < 60"
  proof -
    have "(of_nat q :: rat) < of_nat 60" using t(6) assms(1,2) by simp
    then show ?thesis by (simp only: of_nat_less_iff)
  qed
  have sg: "sgnStr sec = []" using assms(1) by (simp add: sgnStr_def)
  have sc: "secondsScale sec = Scale m" using decimalScale_exact [OF m t(5)] by (simp add: secondsScale_def)
  have tw: "takeWhile (\<lambda>c. c \<noteq> CHR ''.'') (decStr q @ CHR ''.'' # fp) = decStr q" by (rule takeWhile_point) simp
  have "formatSeconds sec = padInt 2 (int q) @ CHR ''.'' # fp"
  proof (cases "q < 10")
    case True
    then show ?thesis using False t(1) sg sc tw by (simp add: formatSeconds_def Let_def padInt_def pad_def decStr_small)
  next
    case False
    then have "length (decStr q) = 2" using q by (simp add: decStr_two)
    then show ?thesis using \<open>\<not> ratIsInt sec\<close> t(1) sg sc tw by (simp add: formatSeconds_def Let_def padInt_def)
  qed
  moreover have "ratOfDigits (padInt 2 (int q)) fp = sec"
    using t(4) assms(1) by (simp add: ratOfDigits_def padInt_def digitsVal_append)
  ultimately show ?thesis using that [of q fp] q t(2,3) by simp
qed

subsection \<open>Times and timezones\<close>

definition timeOk :: "dateTime \<Rightarrow> bool" where
  "timeOk v \<longleftrightarrow> 0 \<le> Hour v \<and> Hour v < 24 \<and> 0 \<le> Minute v \<and> Minute v < 60 \<and> 0 \<le> Second v \<and> Second v < 60 \<and>
     DecimalMagnitudeOf (Second v) \<noteq> None"

lemma parse_time:
  assumes "timeOk v" "rest = [] \<or> \<not> isDigit (hd rest) \<and> hd rest \<noteq> CHR ''.''"
  shows "parseTimePart dt (writeTime v @ rest) = Inr (dt\<lparr>Hour := Hour v, Minute := Minute v, Second := Second v\<rparr>, rest)"
proof -
  obtain q fp where f: "formatSeconds (Second v) = padInt 2 (int q) @ (if fp = [] then [] else CHR ''.'' # fp)" "q < 60"
    "list_all isDigit fp" "ratOfDigits (padInt 2 (int q)) fp = Second v"
    using seconds_text assms(1) timeOk_def by metis
  have b: "0 \<le> Hour v" "Hour v < 100" "0 \<le> Minute v" "Minute v < 100" "0 \<le> int q" "int q < 100"
    using assms(1) f(2) by (simp_all add: timeOk_def)
  define ds where "ds = padInt 2 (int q)"
  have dsd: "list_all isDigit ds" "length ds = 2" using two_cons [OF b(5,6)] f(2) by (simp_all add: ds_def)
  define t where "t = ds @ (if fp = [] then [] else CHR ''.'' # fp) @ rest"
  have w: "writeTime v @ rest = digitChar (nat (Hour v) div 10) # digitChar (nat (Hour v) mod 10) # CHR '':'' #
      digitChar (nat (Minute v) div 10) # digitChar (nat (Minute v) mod 10) # CHR '':'' # t" (is "_ = ?s")
    using two_cons [OF b(1,2)] two_cons [OF b(3,4)] by (simp add: writeTime_def f(1) ds_def t_def)
  have s: "\<not> (length ?s < 8 \<or> ?s ! 2 \<noteq> CHR '':'' \<or> ?s ! 5 \<noteq> CHR '':'')" "drop 6 ?s = t"
    "atoiDigits (take 2 ?s) = Inr (Hour v)" "atoiDigits (take 2 (drop 3 ?s)) = Inr (Minute v)"
    using atoi_two [OF b(1,2)] atoi_two [OF b(3,4)] dsd(2) by (simp_all add: t_def)
  have rs: "digitRun rest = []" "afterDigits rest = rest" using digitRun_stop [of rest] assms(2) by auto
  have ps: "digitRun (CHR ''.'' # xs) = []" "afterDigits (CHR ''.'' # xs) = CHR ''.'' # xs" for xs
    by (simp_all add: digitRun_def afterDigits_def)
  show ?thesis
  proof (cases "fp = []")
    case True
    then have "digitRun t = ds" "afterDigits t = rest" using dsd(1) rs by (simp_all add: t_def)
    then show ?thesis unfolding w parseTimePart_def s(2) using s(1,3,4) dsd(2) assms(2) f(4) True
      by (auto simp: Let_def ds_def)
  next
    case False
    have "digitRun t = ds" "afterDigits t = CHR ''.'' # fp @ rest" using False dsd(1) ps by (simp_all add: t_def)
    moreover have "digitRun (fp @ rest) = fp" "afterDigits (fp @ rest) = rest" using f(3) rs by simp_all
    ultimately show ?thesis unfolding w parseTimePart_def s(2) using s(1,3,4) dsd(2) f(4)
      by (simp add: Let_def ds_def)
  qed
qed

definition tzOk :: "dateTime \<Rightarrow> bool" where
  "tzOk v \<longleftrightarrow> (if HasTZ v then -840 \<le> TZOffset v \<and> TZOffset v \<le> 840 else TZOffset v = 0)"

definition tzText :: "dateTime \<Rightarrow> string" where
  "tzText v = (if HasTZ v then formatTZ (TZOffset v) else [])"

lemma tz_head: "tzText v = [] \<or> hd (tzText v) \<in> {CHR ''Z'', CHR ''+'', CHR ''-''}"
  by (auto simp: tzText_def formatTZ_def Let_def)

lemma parse_tz:
  assumes "tzOk v" "HasTZ dt = False" "TZOffset dt = 0"
  shows "parseTZ dt (tzText v) = Inr (dt\<lparr>HasTZ := HasTZ v, TZOffset := TZOffset v\<rparr>)"
proof (cases "HasTZ v \<and> TZOffset v \<noteq> 0")
  case False
  then show ?thesis using assms by (auto simp: tzText_def formatTZ_def parseTZ_def tzOk_def)
next
  case True
  define off where "off = \<bar>TZOffset v\<bar>"
  have o: "0 < off" "off \<le> 840" "HasTZ v" using assms(1) True by (auto simp: tzOk_def off_def)
  have dm: "off sdiv 60 = off div 60" "off smod 60 = off mod 60" using o(1) by (simp_all add: sdiv_pos smod_pos)
  have h: "0 \<le> off div 60" "off div 60 < 100" "off div 60 \<le> 14" using o zdiv_mono1 [of off 840 60] by (simp_all add: pos_imp_zdiv_nonneg_iff)
  have m: "0 \<le> off mod 60" "off mod 60 < 100" "off mod 60 \<le> 59" using pos_mod_bound [of 60 off] by simp_all
  have mz: "off div 60 = 14 \<Longrightarrow> off mod 60 = 0" using o(2) by presburger
  have ov: "off div 60 * 60 + off mod 60 = off" by simp
  define sg where "sg = (if TZOffset v < 0 then CHR ''-'' else CHR ''+'')"
  have w: "tzText v = sg # digitChar (nat (off div 60) div 10) # digitChar (nat (off div 60) mod 10) # CHR '':'' #
      digitChar (nat (off mod 60) div 10) # digitChar (nat (off mod 60) mod 10) # []" (is "_ = ?s")
  proof -
    have "(if TZOffset v < 0 then - TZOffset v else TZOffset v) = off" by (simp add: off_def)
    moreover have "(if TZOffset v < 0 then ''-'' else ''+'') = [sg]" by (simp add: sg_def)
    ultimately have "formatTZ (TZOffset v) = [sg] @ padInt 2 (off div 60) @ '':'' @ padInt 2 (off mod 60)"
      using True unfolding formatTZ_def Let_def by (simp only: dm if_False)
    then show ?thesis using o(3) two_cons [OF h(1,2)] two_cons [OF m(1,2)] by (simp add: tzText_def)
  qed
  have s: "?s \<noteq> []" "?s \<noteq> ''Z''" "\<not> (length ?s \<noteq> 6 \<or> (?s ! 0 \<noteq> CHR ''+'' \<and> ?s ! 0 \<noteq> CHR ''-'') \<or> ?s ! 3 \<noteq> CHR '':'')"
    "atoiDigits (take 2 (drop 1 ?s)) = Inr (off div 60)" "atoiDigits (take 2 (drop 4 ?s)) = Inr (off mod 60)"
    "(?s ! 0 = CHR ''-'') = (TZOffset v < 0)"
    using atoi_two [OF h(1,2)] atoi_two [OF m(1,2)] by (simp_all add: sg_def)
  have rng: "\<not> (off div 60 > 14 \<or> off mod 60 > 59 \<or> off div 60 = 14 \<and> off mod 60 \<noteq> 0)" using h m mz by auto
  have "(if TZOffset v < 0 then - off else off) = TZOffset v" by (simp add: off_def)
  moreover have "parseTZ dt ?s = Inr (dt\<lparr>HasTZ := True, TZOffset := if ?s ! 0 = CHR ''-'' then - off else off\<rparr>)"
    unfolding parseTZ_def using s(1-5) rng ov by (simp add: Let_def)
  ultimately show ?thesis unfolding w s(6) using o(3) by simp
qed

subsection \<open>The round trip\<close>

text \<open>The values of each type: the fields the type does not have are those the parser leaves.\<close>

definition dtValue :: "typeCode \<Rightarrow> dateTime \<Rightarrow> bool" where
  "dtValue t v \<longleftrightarrow> tzOk v \<and>
     (case t of
        TypeDate \<Rightarrow> dateOk v \<and> Hour v = 0 \<and> Minute v = 0 \<and> Second v = 0
      | TypeTime \<Rightarrow> timeOk v \<and> Year v = 1972 \<and> Month v = 12 \<and> Day v = 31
      | TypeDateTime \<Rightarrow> dateOk v \<and> timeOk v
      | _ \<Rightarrow> False)"

lemma Trim_id: "list_all (\<lambda>c. \<not> isXMLSpace c) s \<Longrightarrow> TrimXMLSpace s = s"
proof -
  assume a: "list_all (\<lambda>c. \<not> isXMLSpace c) s"
  have "dropWhile isXMLSpace xs = xs" if "\<forall>c \<in> set xs. \<not> isXMLSpace c" for xs
    using that by (cases xs) auto
  from this [of s] this [of "rev s"] show ?thesis using a by (simp add: TrimXMLSpace_def list_all_iff)
qed

lemma digit_nospace: "isDigit c \<Longrightarrow> \<not> isXMLSpace c"
  by (auto simp: isDigit_def isXMLSpace_def)

lemma digits_nospace: "list_all isDigit s \<Longrightarrow> list_all (\<lambda>c. \<not> isXMLSpace c) s"
  by (auto simp: list_all_iff digit_nospace)

lemma padInt_nospace: "list_all (\<lambda>c. \<not> isXMLSpace c) (padInt w n)"
  by (auto simp: padInt_def isXMLSpace_def [of "CHR ''-''"] intro!: digits_nospace)

lemma sep_nospace: "\<not> isXMLSpace (CHR ''-'')" "\<not> isXMLSpace (CHR '':'')" "\<not> isXMLSpace (CHR ''.'')"
  "\<not> isXMLSpace (CHR ''T'')" "\<not> isXMLSpace (CHR ''Z'')" "\<not> isXMLSpace (CHR ''+'')"
  by (simp_all add: isXMLSpace_def)

lemma tz_nospace: "list_all (\<lambda>c. \<not> isXMLSpace c) (tzText v)"
  by (auto simp: tzText_def formatTZ_def Let_def padInt_nospace sep_nospace)

lemma date_nospace: "list_all (\<lambda>c. \<not> isXMLSpace c) (writeDate v)"
  by (auto simp: writeDate_def padInt_nospace sep_nospace)

lemma time_nospace: "timeOk v \<Longrightarrow> list_all (\<lambda>c. \<not> isXMLSpace c) (writeTime v)"
proof -
  assume "timeOk v"
  then obtain q fp where "formatSeconds (Second v) = padInt 2 (int q) @ (if fp = [] then [] else CHR ''.'' # fp)"
    "list_all isDigit fp"
    using seconds_text timeOk_def by metis
  then show ?thesis by (auto simp: writeTime_def padInt_nospace sep_nospace digits_nospace)
qed

lemma Lexical_parts: "t \<in> {TypeDate, TypeTime, TypeDateTime} \<Longrightarrow>
  Lexical v t = (case t of TypeDate \<Rightarrow> writeDate v | TypeTime \<Rightarrow> writeTime v | _ \<Rightarrow> writeDate v @ ''T'' @ writeTime v) @ tzText v"
  by (auto simp: Lexical_def tzText_def)

lemma valid_date: "dateOk v \<Longrightarrow> timeOk v \<or> (Hour v = 0 \<and> Minute v = 0 \<and> Second v = 0) \<Longrightarrow> valid v"
  by (auto simp: valid_def dateOk_def timeOk_def)

lemma ref_date: "daysInMonth 1972 12 = 31"
  by (simp add: daysInMonth_def)

lemma hour24_id: "Hour v \<noteq> 24 \<Longrightarrow> normalizeHour24 v t = v"
  by (simp add: normalizeHour24_def)

text \<open>C14: Every \<open>xs:date\<close>, \<open>xs:time\<close> and \<open>xs:dateTime\<close> value is read back from its
  canonical text.\<close>

theorem Lexical_roundtrip:
  assumes "dtValue t v"
  shows "ParseDateTime (Lexical v t) t = Inr v"
proof -
  have tz: "tzOk v" using assms by (simp add: dtValue_def)
  have rest: "tzText v = [] \<or> \<not> isDigit (hd (tzText v)) \<and> hd (tzText v) \<noteq> CHR ''.''"
    using tz_head [of v] by auto
  consider "t = TypeDate" "dateOk v" "Hour v = 0" "Minute v = 0" "Second v = 0"
    | "t = TypeTime" "timeOk v" "Year v = 1972" "Month v = 12" "Day v = 31"
    | "t = TypeDateTime" "dateOk v" "timeOk v"
    using assms by (cases t) (auto simp: dtValue_def)
  then show ?thesis
  proof cases
    case 1
    have "TrimXMLSpace (Lexical v t) = writeDate v @ tzText v"
      using Trim_id date_nospace tz_nospace 1(1) by (simp add: Lexical_parts)
    then show ?thesis using 1 parse_date [OF 1(2)] parse_tz [OF tz] valid_date [OF 1(2)] hour24_id
      by (auto simp: ParseDateTime_def newDateTime_def valid_def split: if_splits)
  next
    case 2
    have "TrimXMLSpace (Lexical v t) = writeTime v @ tzText v"
      using Trim_id time_nospace [OF 2(2)] tz_nospace 2(1) by (simp add: Lexical_parts)
    moreover have "valid v" using 2 ref_date by (auto simp: valid_def timeOk_def)
    moreover have "Hour v \<noteq> 24" using 2(2) by (simp add: timeOk_def)
    ultimately show ?thesis using 2 parse_time [OF 2(2) rest] parse_tz [OF tz] hour24_id
      by (auto simp: ParseDateTime_def newDateTime_def valid_def split: if_splits)
  next
    case 3
    have "TrimXMLSpace (Lexical v t) = writeDate v @ CHR ''T'' # writeTime v @ tzText v"
      using Trim_id date_nospace time_nospace [OF 3(3)] tz_nospace sep_nospace 3(1) by (simp add: Lexical_parts)
    moreover have "Hour v \<noteq> 24" using 3(3) by (simp add: timeOk_def)
    ultimately show ?thesis
      using 3 parse_date [OF 3(2)] parse_time [OF 3(3) rest] parse_tz [OF tz] valid_date [OF 3(2)] hour24_id
      by (auto simp: ParseDateTime_def newDateTime_def valid_def split: if_splits)
  qed
qed

definition wDateTime :: dateTime where
  "wDateTime = \<lparr>Year = -44, Month = 3, Day = 15, Hour = 11, Minute = 5, Second = 121 / 4, TZOffset = -90, HasTZ = True\<rparr>"

theorem Lexical_roundtrip_witness:
  "dtValue TypeDateTime wDateTime \<and> Lexical wDateTime TypeDateTime = ''-0044-03-15T11:05:30.25-01:30'' \<and>
   ParseDateTime ''-0044-03-15T11:05:30.25-01:30'' TypeDateTime = Inr wDateTime"
proof -
  have d: "dtValue TypeDateTime wDateTime" by code_simp
  moreover have "Lexical wDateTime TypeDateTime = ''-0044-03-15T11:05:30.25-01:30''" by code_simp
  ultimately show ?thesis using Lexical_roundtrip [OF d] by simp
qed

end
