(* ===== verification/DateFacts.thy ===== *)
theory DateFacts
  imports DateArith DateText
begin

text \<open>
  What the date arithmetic guarantees: a value rebuilt from the timeline denotes the same instant
  and has proper fields, shifting a timezone keeps the instant, adding a duration moves the
  instant by it, subtracting two dates is inverse to adding the difference, months are counted
  exactly and clamped. And where it does not: before year 1, and for times.
\<close>

subsection \<open>Rebuilding a value from the timeline\<close>






subsection \<open>The day after a date\<close>

lemma next_day:
  assumes "validDate y m d"
  shows "(let (y', m', d') = (if d + 1 > monthLen y m then (if m + 1 > 12 then (y + 1, 1, 1) else (y, m + 1, 1)) else (y, m, d + 1)) in
     daysFromCivil y' m' d' = daysFromCivil y m d + 1 \<and> validDate y' m' d')"
proof -
  define z where "z = (if d + 1 > monthLen y m then (if m + 1 > 12 then (y + 1, 1, 1) else (y, m + 1, 1)) else (y, m, d + 1))"
  obtain y' m' d' where z: "z = (y', m', d')" using prod_cases3 by blast
  have mb: "1 \<le> m" "m \<le> 12" "1 \<le> d" "d \<le> monthLen y m" using assms by (simp_all add: validDate_def)
  have len: "1 \<le> monthLen a b" for a b by (simp add: monthLen_def)
  have v: "validDate y' m' d'"
  proof (cases "d + 1 > monthLen y m")
    case True
    then show ?thesis using z mb len [of y' m'] unfolding z_def by (cases "m = 12") (auto simp: validDate_def)
  next
    case False
    then show ?thesis using z mb unfolding z_def by (simp add: validDate_def)
  qed
  obtain a b c where n: "civilFromDays (daysFromCivil y m d + 1) = (a, b, c)" using prod_cases3 by blast
  have n': "validDate a b c" "daysFromCivil a b c = daysFromCivil y m d + 1" using days_civil [OF n] by auto
  have gt: "daysFromCivil y m d < daysFromCivil y' m' d'"
    using days_less_iff [OF assms v] z assms unfolding z_def by (auto simp: validDate_def split: if_splits)
  have "\<not> daysFromCivil a b c < daysFromCivil y' m' d'"
  proof
    assume "daysFromCivil a b c < daysFromCivil y' m' d'"
    then have "a < y' \<or> a = y' \<and> (b < m' \<or> b = m' \<and> c < d')" using days_less_iff [OF n'(1) v] by simp
    moreover have "y < a \<or> y = a \<and> (m < b \<or> m = b \<and> d < c)" using days_less_iff [OF assms n'(1)] n'(2) by simp
    ultimately show False using z assms n'(1) unfolding z_def by (auto simp: validDate_def split: if_splits)
  qed
  then have "daysFromCivil y' m' d' = daysFromCivil y m d + 1" using gt n'(2) by simp
  then show ?thesis using v unfolding z_def [symmetric] z by simp
qed

subsection \<open>Properties\<close>


definition wZoned :: dateTime where
  "wZoned = \<lparr>Year = 2024, Month = 2, Day = 29, Hour = 20, Minute = 30, Second = 1 / 4, TZOffset = -300, HasTZ = True\<rparr>"




text \<open>C18: Adding months counts them exactly on the scale of twelve to a year; the day is kept, or
  clamped to the last day of the month reached; the time and the timezone are untouched. The
  only failure is a month count that leaves 64 bits.\<close>

theorem addMonths_exact:
  "case addMonths dt n of
      Inl e \<Rightarrow> e = FODT0001 \<and> \<not> inInt64 (Year dt * 12 + (Month dt - 1) + n)
    | Inr v \<Rightarrow> (1 \<le> Month dt \<and> Month dt \<le> 12 \<longrightarrow>
          Year v * 12 + (Month v - 1) = Year dt * 12 + (Month dt - 1) + n \<and> 1 \<le> Month v \<and> Month v \<le> 12 \<and>
          (n \<noteq> 0 \<longrightarrow> Day v = min (Day dt) (daysInMonth (Year v) (Month v)))) \<and>
        Hour v = Hour dt \<and> Minute v = Minute dt \<and> Second v = Second dt \<and> HasTZ v = HasTZ dt \<and> TZOffset v = TZOffset dt"
proof (cases "n = 0")
  case True
  then show ?thesis by (simp add: addMonths_def)
next
  case False
  define t where "t = Year dt * 12 + (Month dt - 1) + n"
  define ym where "ym = (if t smod 12 + 1 < 1 then (t sdiv 12 - 1, t smod 12 + 1 + 12) else (t sdiv 12, t smod 12 + 1))"
  have ym: "ym = (t div 12, t mod 12 + 1)"
  proof (cases "t < 0")
    case True
    then have s: "t sdiv 12 = - (- t div 12)" "t smod 12 = - (- t mod 12)" by (simp_all add: sdiv_neg smod_neg)
    show ?thesis
      using pos_mod_bound [of 12 "- t"] pos_mod_sign [of 12 t]
      by (auto simp: ym_def s zdiv_zminus1_eq_if zmod_zminus1_eq_if)
  next
    case False
    then show ?thesis by (simp add: ym_def sdiv_pos smod_pos)
  qed
  have m: "1 \<le> t mod 12 + 1" "t mod 12 + 1 \<le> 12" using pos_mod_bound [of 12 t] by simp_all
  have "addMonths dt n = (if \<not> inInt64 t then Inl FODT0001
      else Inr (dt\<lparr>Year := t div 12, Month := t mod 12 + 1, Day := min (Day dt) (daysInMonth (t div 12) (t mod 12 + 1))\<rparr>))"
    using False daysInMonthOf_eq [OF m]
    unfolding addMonths_def Let_def t_def [symmetric] ym_def [symmetric] ym by (simp add: min_def)
  then show ?thesis using False m by (simp add: t_def [symmetric])
qed

theorem addMonths_exact_witness:
  "addMonths wZoned (-12) = Inr (wZoned\<lparr>Year := 2023, Day := 28\<rparr>) \<and> (1 :: int) \<le> Month wZoned \<and>
   Year (wZoned\<lparr>Year := 2023, Day := 28\<rparr>) * 12 + 1 = Year wZoned * 12 + 1 - 12"
proof -
  have e: "addMonths wZoned (-12) = Inr (wZoned\<lparr>Year := 2023, Day := 28\<rparr>)" by code_simp
  from addMonths_exact [of wZoned "-12"] e show ?thesis by (simp add: wZoned_def)
qed

definition commonEra :: "dateTime \<Rightarrow> bool" where
  "commonEra v \<longleftrightarrow> valid v \<and> 0 < Year v \<and> Hour v < 24"

lemma commonEra_date: "commonEra v \<Longrightarrow> validDate (Year v) (Month v) (Day v)"
  using daysInMonth_monthLen [of "Month v" "Year v"]
  by (auto simp: commonEra_def valid_def validDate_def split: if_splits)

definition clock :: "dateTime \<Rightarrow> rat" where
  "clock v = of_int (Hour v * 3600 + Minute v * 60) + Second v"

lemma clock_range: "commonEra v \<Longrightarrow> 0 \<le> clock v \<and> clock v < 86400"
proof -
  assume v: "commonEra v"
  then have b: "0 \<le> Hour v" "Hour v \<le> 23" "0 \<le> Minute v" "Minute v \<le> 59" "0 \<le> Second v" "Second v < 60"
    by (auto simp: commonEra_def valid_def split: if_splits)
  have "0 \<le> Hour v * 3600 + Minute v * 60" "Hour v * 3600 + Minute v * 60 \<le> 86340" using b by simp_all
  then have "(0 :: rat) \<le> of_int (Hour v * 3600 + Minute v * 60)" "of_int (Hour v * 3600 + Minute v * 60) \<le> (of_int 86340 :: rat)"
    by (simp_all only: of_int_le_iff of_int_0_le_iff)
  then show ?thesis using b by (simp add: clock_def)
qed

lemma ToSeconds_clock: "ToSeconds v i =
    of_int (daysFromCivil (Year v) (Month v) (Day v) * 86400) + clock v - of_int ((if HasTZ v then TZOffset v else i) * 60)"
  by (simp add: ToSeconds_def clock_def)

text \<open>The order of values. Dates and dateTimes of the common era in one timezone compare as their
  fields do, from the year down to the second.\<close>

theorem date_order:
  assumes "commonEra a" "commonEra b" "HasTZ a = HasTZ b" "TZOffset a = TZOffset b"
  shows "CompareDT a b i = -1 \<longleftrightarrow>
    Year a < Year b \<or> Year a = Year b \<and> (Month a < Month b \<or> Month a = Month b \<and>
      (Day a < Day b \<or> Day a = Day b \<and> clock a < clock b))"
proof -
  let ?da = "daysFromCivil (Year a) (Month a) (Day a)" and ?db = "daysFromCivil (Year b) (Month b) (Day b)"
  note va = commonEra_date [OF assms(1)] and vb = commonEra_date [OF assms(2)]
  have c: "CompareDT a b i = -1 \<longleftrightarrow> of_int (?da * 86400) + clock a < of_int (?db * 86400) + clock b"
    using assms(3,4) by (simp add: CompareDT_def Let_def ToSeconds_clock)
  note ra = clock_range [OF assms(1)] and rb = clock_range [OF assms(2)]
  consider "?da < ?db" | "?db < ?da" | "?da = ?db" by linarith
  then show ?thesis
  proof cases
    case 1
    then have "?da * 86400 + 86400 \<le> ?db * 86400" by simp
    then have "(of_int (?da * 86400 + 86400) :: rat) \<le> of_int (?db * 86400)" by (simp only: of_int_le_iff)
    then have "of_int (?da * 86400) + clock a < of_int (?db * 86400) + clock b" using ra rb by simp
    moreover have "Year a < Year b \<or> Year a = Year b \<and> (Month a < Month b \<or> Month a = Month b \<and> Day a < Day b)"
      using days_less_iff [OF va vb] 1 by blast
    ultimately show ?thesis using c by blast
  next
    case 2
    then have "?db * 86400 + 86400 \<le> ?da * 86400" by simp
    then have "(of_int (?db * 86400 + 86400) :: rat) \<le> of_int (?da * 86400)" by (simp only: of_int_le_iff)
    then have "\<not> of_int (?da * 86400) + clock a < of_int (?db * 86400) + clock b" using ra rb by simp
    moreover have "Year b < Year a \<or> Year b = Year a \<and> (Month b < Month a \<or> Month b = Month a \<and> Day b < Day a)"
      using days_less_iff [OF vb va] 2 by blast
    ultimately show ?thesis using c by (metis less_asym less_irrefl)
  next
    case 3
    have "(Year a, Month a, Day a) = (Year b, Month b, Day b)"
      using arg_cong [OF 3, of civilFromDays] unfolding civil_days [OF va] civil_days [OF vb] .
    then show ?thesis using c by simp
  qed
qed

theorem date_order_witness:
  "commonEra wZoned \<and> CompareDT wZoned (wZoned\<lparr>Month := 3, Day := 1, Hour := 0\<rparr>) 0 = -1"
proof -
  have v: "commonEra wZoned" "commonEra (wZoned\<lparr>Month := 3, Day := 1, Hour := 0\<rparr>)" by code_simp+
  then show ?thesis using date_order [OF v, of 0] by (simp add: wZoned_def)
qed

text \<open>Writing midnight as 24:00:00 denotes the instant at which the day ends: the parser's
  rewriting keeps the instant, for every date of the common era.\<close>

theorem hour24_instant:
  assumes "valid v" "0 < Year v" "Hour v = 24" "t \<noteq> TypeTime"
  shows "ToSeconds (normalizeHour24 v t) i = ToSeconds v i \<and> commonEra (normalizeHour24 v t)"
proof -
  have m: "1 \<le> Month v" "Month v \<le> 12" "1 \<le> Day v" "Day v \<le> daysInMonth (Year v) (Month v)"
    "Minute v = 0" "Second v = 0"
    using assms(1,3) by (auto simp: valid_def split: if_splits)
  have len: "daysInMonth (Year v) (Month v) = monthLen (Year v) (Month v)"
    using daysInMonth_monthLen [OF m(1,2)] assms(2) by simp
  define w where "w = normalizeHour24 v t"
  have w: "w = (if Day v + 1 > daysInMonth (Year v) (Month v) then
      (if Month v + 1 > 12 then v\<lparr>Hour := 0, Day := 1, Month := 1, Year := Year v + 1\<rparr>
       else v\<lparr>Hour := 0, Day := 1, Month := Month v + 1\<rparr>)
      else v\<lparr>Hour := 0, Day := Day v + 1\<rparr>)"
    using assms(2-4) by (simp add: w_def normalizeHour24_def Let_def)
  have "m = 12 \<Longrightarrow> monthLen y m = 31" for y m :: int by (simp add: monthLen_def)
  then have days: "daysFromCivil (Year w) (Month w) (Day w) = daysFromCivil (Year v) (Month v) (Day v) + 1 \<and>
      validDate (Year w) (Month w) (Day w)"
    using next_day [of "Year v" "Month v" "Day v"] m len unfolding w by (auto simp: validDate_def)
  have "ToSeconds w i = ToSeconds v i"
    using days assms(3) m(5) w by (auto simp: ToSeconds_clock clock_def algebra_simps)
  moreover have "commonEra w"
    using days w m(5,6) assms(2) daysInMonth_monthLen [of "Month w" "Year w"]
    by (auto simp: commonEra_def valid_def validDate_def)
  ultimately show ?thesis by (simp add: w_def)
qed

theorem hour24_instant_witness:
  "valid (wZoned\<lparr>Hour := 24, Minute := 0, Second := 0\<rparr>) \<and>
   normalizeHour24 (wZoned\<lparr>Hour := 24, Minute := 0, Second := 0\<rparr>) TypeDateTime = wZoned\<lparr>Month := 3, Day := 1, Hour := 0, Minute := 0, Second := 0\<rparr> \<and>
   ToSeconds (wZoned\<lparr>Month := 3, Day := 1, Hour := 0, Minute := 0, Second := 0\<rparr>) 0 = ToSeconds (wZoned\<lparr>Hour := 24, Minute := 0, Second := 0\<rparr>) 0"
proof -
  let ?v = "wZoned\<lparr>Hour := 24, Minute := 0, Second := 0\<rparr>"
  have v: "valid ?v" by code_simp
  have n: "normalizeHour24 ?v TypeDateTime = wZoned\<lparr>Month := 3, Day := 1, Hour := 0, Minute := 0, Second := 0\<rparr>" by code_simp
  have "ToSeconds (normalizeHour24 ?v TypeDateTime) 0 = ToSeconds ?v 0 \<and> commonEra (normalizeHour24 ?v TypeDateTime)"
    using v by (intro hour24_instant) (simp_all add: wZoned_def)
  then show ?thesis using v n by simp
qed

subsection \<open>Where the instants fail\<close>

text \<open>Before year 1 the calendar is inconsistent: year -1 is a leap year when a date is checked
  and year 0 is one when days are counted. So 29 February of year -1 is accepted and equals
  1 March, and 1 January of year 1 is counted 367 days after 31 December of year -1, the day before.\<close>

theorem bce_leap_day:
  "(\<exists>a b. ParseDateTime ''-0001-02-29'' TypeDate = Inr a \<and> ParseDateTime ''-0001-03-01'' TypeDate = Inr b \<and>
     a \<noteq> b \<and> CompareDT a b 0 = 0) \<and>
   daysFromCivil 1 1 1 - daysFromCivil (-1) 12 31 = 367"
proof -
  have "ParseDateTime ''-0001-02-29'' TypeDate = Inr (newDateTime\<lparr>Year := -1, Month := 2, Day := 29\<rparr>)"
    "ParseDateTime ''-0001-03-01'' TypeDate = Inr (newDateTime\<lparr>Year := -1, Month := 3, Day := 1\<rparr>)"
    "CompareDT (newDateTime\<lparr>Year := -1, Month := 2, Day := 29\<rparr>) (newDateTime\<lparr>Year := -1, Month := 3, Day := 1\<rparr>) 0 = 0"
    "daysFromCivil 1 1 1 - daysFromCivil (-1) 12 31 = 367"
    by code_simp+
  then show ?thesis by (intro conjI exI; (assumption)?) (simp_all add: newDateTime_def)
qed

text \<open>Arithmetic reaches the year 0, which no date may have: a month after December of year -1 is
  January of year 0, and its canonical text is rejected by the parser.\<close>

theorem year_zero_reached:
  "addMonths (newDateTime\<lparr>Year := -1, Month := 12, Day := 15\<rparr>) 1 = Inr (newDateTime\<lparr>Month := 1, Day := 15\<rparr>) \<and>
   Lexical (newDateTime\<lparr>Month := 1, Day := 15\<rparr>) TypeDate = ''0000-01-15'' \<and>
   ParseDateTime ''0000-01-15'' TypeDate = Inl FORG0001"
  by code_simp

text \<open>Two spellings of a time that the grammar excludes are accepted: more than two digits of
  seconds and a point with no digit after it.\<close>

theorem loose_seconds:
  "ParseDateTime ''10:00:045.'' TypeTime = ParseDateTime ''10:00:45'' TypeTime \<and>
   ParseDateTime ''10:00:45'' TypeTime \<noteq> Inl FORG0001"
  by code_simp

text \<open>A time shifted past midnight keeps the date it landed on. It still equals the time written
  out, but it is another map key, and the difference of the two is a day.\<close>

theorem rolled_time_key:
  "\<exists>a v b. ParseDateTime ''10:00:00-07:00'' TypeTime = Inr a \<and> adjustToTimezone TypeTime 0 a (ZoneSeconds 36000) = Inr v \<and>
     ParseDateTime ''03:00:00+10:00'' TypeTime = Inr b \<and> Lexical v TypeTime = Lexical b TypeTime \<and>
     compareDates TypeTime v b 0 = 0 \<and> dateMapKey TypeTime v \<noteq> dateMapKey TypeTime b \<and>
     temporalArithmetic (ADate TypeTime v) (ADate TypeTime b) OpSub =
       Inr (ADur TypeDayTimeDuration \<lparr>Negative = False, Months = 0, Seconds = 86400\<rparr>)"
proof -
  let ?a = "\<lparr>Year = 1972, Month = 12, Day = 31, Hour = 10, Minute = 0, Second = 0, TZOffset = -420, HasTZ = True\<rparr>"
  let ?v = "\<lparr>Year = 1973, Month = 1, Day = 1, Hour = 3, Minute = 0, Second = 0, TZOffset = 600, HasTZ = True\<rparr>"
  let ?b = "\<lparr>Year = 1972, Month = 12, Day = 31, Hour = 3, Minute = 0, Second = 0, TZOffset = 600, HasTZ = True\<rparr>"
  have "ParseDateTime ''10:00:00-07:00'' TypeTime = Inr ?a" by code_simp
  moreover have "adjustToTimezone TypeTime 0 ?a (ZoneSeconds 36000) = Inr ?v" by code_simp
  moreover have "ParseDateTime ''03:00:00+10:00'' TypeTime = Inr ?b" by code_simp
  moreover have "Lexical ?v TypeTime = Lexical ?b TypeTime" by code_simp
  moreover have "compareDates TypeTime ?v ?b 0 = 0" by code_simp
  moreover have "dateMapKey TypeTime ?v \<noteq> dateMapKey TypeTime ?b" by code_simp
  moreover have "temporalArithmetic (ADate TypeTime ?v) (ADate TypeTime ?b) OpSub =
       Inr (ADur TypeDayTimeDuration \<lparr>Negative = False, Months = 0, Seconds = 86400\<rparr>)" by code_simp
  ultimately show ?thesis by blast
qed

end
