(* ===== verification/DurText.thy ===== *)
theory DurText
  imports DateText DateArith "HOL-Library.Code_Target_Nat"
begin

text \<open>
  The text of durations (\<open>xdm/duration.go\<close>): the parser, which takes the components in their fixed
  order, and the canonical form; and that parsing undoes printing.
\<close>

text \<open>The bounds as literals, for evaluation.\<close>

lemma inInt64_code [code]: "inInt64 n \<longleftrightarrow> - 9223372036854775808 \<le> n \<and> n \<le> 9223372036854775807"
  by (simp add: inInt64_def MinInt64_def MaxInt64_def)

lemma MaxInt64_code [code]: "MaxInt64 = 9223372036854775807"
  by (simp add: MaxInt64_def)

subsection \<open>Parsing\<close>

text \<open>The loop of \<open>validDecimalLexical\<close> with its three counters.\<close>

fun decimalLoop :: "string \<Rightarrow> nat \<Rightarrow> nat \<Rightarrow> nat \<Rightarrow> bool" where
  "decimalLoop [] digits dots afterDot = (digits > 0 \<and> (dots = 0 \<or> afterDot > 0))"
| "decimalLoop (c # s) digits dots afterDot =
     (if isDigit c then decimalLoop s (digits + 1) dots (if dots > 0 then afterDot + 1 else afterDot)
      else if c = CHR ''.'' then
        (if dots + 1 > 1 \<or> digits = 0 then False else decimalLoop s digits (dots + 1) afterDot)
      else False)"

definition validDecimalLexical :: "string \<Rightarrow> bool" where
  "validDecimalLexical s = (if s = [] then False else decimalLoop s 0 0 0)"

definition isNumChar :: "char \<Rightarrow> bool" where
  "isNumChar c \<longleftrightarrow> isDigit c \<or> c = CHR ''.''"

text \<open>\<open>big.Rat.SetString\<close> of a valid lexical decimal.\<close>

definition ratOfDecimal :: "string \<Rightarrow> rat" where
  "ratOfDecimal s = ratOfDigits (digitRun s) (tl (afterDigits s))"

text \<open>A component: an error, or nothing of that unit, or its value and what follows.\<close>

definition takeComponent :: "string \<Rightarrow> char \<Rightarrow> string + (rat \<times> string) option" where
  "takeComponent s u =
     (let lex = takeWhile isNumChar s; rest = dropWhile isNumChar s in
      if lex = [] \<or> rest = [] \<or> hd rest \<noteq> u then Inr None
      else if \<not> validDecimalLexical lex then Inl FORG0001
      else Inr (Some (ratOfDecimal lex, tl rest)))"

text \<open>One round of the loops: the accumulated value grows by the component times its scale.\<close>

definition component :: "char \<Rightarrow> rat \<Rightarrow> bool \<Rightarrow> string \<times> rat \<times> bool \<Rightarrow> string + string \<times> rat \<times> bool" where
  "component u scale isfrac st =
     (case st of (s, acc, saw) \<Rightarrow>
        bindE (takeComponent s u) (\<lambda>r.
          case r of
            None \<Rightarrow> Inr (s, acc, saw)
          | Some (v, rest) \<Rightarrow>
              if \<not> isfrac \<and> \<not> ratIsInt v then Inl FORG0001 else Inr (rest, acc + v * scale, True)))"

text \<open>\<open>strings.Cut\<close> at the first T.\<close>

definition cutT :: "string \<Rightarrow> string \<times> string \<times> bool" where
  "cutT s = (let d = takeWhile (\<lambda>c. c \<noteq> CHR ''T'') s; r = dropWhile (\<lambda>c. c \<noteq> CHR ''T'') s in
     if r = [] then (s, [], False) else (d, tl r, True))"

definition ParseDuration :: "string \<Rightarrow> typeCode \<Rightarrow> string + duration" where
  "ParseDuration s0 t =
     (let s = TrimXMLSpace s0; neg = (s \<noteq> [] \<and> hd s = CHR ''-''); s = (if neg then tl s else s) in
      if s = [] \<or> hd s \<noteq> CHR ''P'' then Inl FORG0001
      else
        let (datePart, timePart, hasT) = cutT (tl s) in
        if hasT \<and> timePart = [] then Inl FORG0001
        else if datePart = [] \<and> \<not> hasT then Inl FORG0001
        else
          bindE (component CHR ''Y'' 12 False (datePart, 0, False)) (\<lambda>st.
          bindE (component CHR ''M'' 1 False st) (\<lambda>(s, months, saw).
          bindE (component CHR ''D'' 86400 False (s, 0, saw)) (\<lambda>(s, secs, saw).
          if s \<noteq> [] then Inl FORG0001
          else if \<not> inInt64 (ratNum months sdiv ratDen months) then Inl FODT0002
          else
            bindE
              (if hasT then
                 bindE (component CHR ''H'' 3600 False (timePart, secs, saw)) (\<lambda>st.
                 bindE (component CHR ''M'' 60 False st) (\<lambda>st.
                 bindE (component CHR ''S'' 1 True st) (\<lambda>(s, secs, saw).
                 if s \<noteq> [] then Inl FORG0001 else Inr (secs, saw))))
               else Inr (secs, saw)) (\<lambda>(secs, saw).
            if \<not> saw then Inl FORG0001
            else if t = TypeYearMonthDuration \<and> secs \<noteq> 0 then Inl FORG0001
            else if t = TypeDayTimeDuration \<and> ratNum months sdiv ratDen months \<noteq> 0 then Inl FORG0001
            else Inr \<lparr>Negative = neg, Months = ratNum months sdiv ratDen months, Seconds = secs\<rparr>)))))"

subsection \<open>Text\<close>

text \<open>\<open>Quo(Num, Denom * n)\<close>.\<close>

definition quoUnit :: "rat \<Rightarrow> int \<Rightarrow> int" where
  "quoUnit r n = ratNum r sdiv (ratDen r * n)"

definition intComp :: "int \<Rightarrow> char \<Rightarrow> string" where
  "intComp n u = (if n \<noteq> 0 then intStr n @ [u] else [])"

definition DurLexical :: "duration \<Rightarrow> typeCode \<Rightarrow> string" where
  "DurLexical d t =
     (let sign = (if Negative d \<and> (Months d \<noteq> 0 \<or> Seconds d \<noteq> 0) then ''-'' else []);
          ym = intComp (Months d sdiv 12) CHR ''Y'' @ intComp (Months d smod 12) CHR ''M'';
          days = quoUnit (Seconds d) 86400;
          r1 = (if days \<noteq> 0 then Seconds d - of_int days * 86400 else Seconds d);
          h = quoUnit r1 3600;
          r2 = (if h \<noteq> 0 then r1 - of_int h * 3600 else r1);
          m = quoUnit r2 60;
          r3 = (if m \<noteq> 0 then r2 - of_int m * 60 else r2);
          ss = (if r3 \<noteq> 0 then trimPoint (trimZeros (FloatString r3 (secondsScale r3))) @ ''S'' else []);
          tt = (if r1 \<noteq> 0 then ''T'' @ intComp h CHR ''H'' @ intComp m CHR ''M'' @ ss else []);
          s = sign @ ''P'' @ ym @ intComp days CHR ''D'' @ tt in
      if last s = CHR ''P'' then (if t = TypeYearMonthDuration then s @ ''0M'' else s @ ''T0S'') else s)"

subsection \<open>Components\<close>

definition numLex :: "string \<Rightarrow> rat \<Rightarrow> bool" where
  "numLex w v \<longleftrightarrow> w \<noteq> [] \<and> list_all isNumChar w \<and> validDecimalLexical w \<and> ratOfDecimal w = v"

lemma decimalLoop_digits: "list_all isDigit s \<Longrightarrow> decimalLoop (s @ r) a 0 0 = decimalLoop r (a + length s) 0 0"
  by (induction s arbitrary: a) auto

lemma decimalLoop_fraction: "list_all isDigit s \<Longrightarrow> decimalLoop s (Suc a) 1 b = (b > 0 \<or> s \<noteq> [])"
  by (induction s arbitrary: a b) auto

lemma digits_num: "list_all isDigit s \<Longrightarrow> list_all isNumChar s"
  by (auto simp: list_all_iff isNumChar_def)

lemma numLex_int: "numLex (decStr n) (of_nat n)"
proof -
  have "decimalLoop (decStr n) 0 0 0" using decimalLoop_digits [of "decStr n" "[]" 0] by simp
  moreover have "digitRun (decStr n) = decStr n" "afterDigits (decStr n) = []"
    using digitRun_append [of "decStr n" "[]"] afterDigits_append [of "decStr n" "[]"]
    by (simp_all add: digitRun_def afterDigits_def)
  ultimately show ?thesis
    by (simp add: numLex_def digits_num validDecimalLexical_def ratOfDecimal_def ratOfDigits_def)
qed

lemma numLex_fraction:
  assumes "fp \<noteq> []" "list_all isDigit fp"
  shows "numLex (decStr q @ CHR ''.'' # fp) (ratOfDigits (decStr q) fp)"
proof -
  have "0 < length (decStr q)" by simp
  then obtain k where k: "length (decStr q) = Suc k" by (cases "length (decStr q)") auto
  have "decimalLoop (decStr q @ CHR ''.'' # fp) 0 0 0"
    using decimalLoop_digits [of "decStr q" "CHR ''.'' # fp" 0] decimalLoop_fraction [of fp k 0] assms k by simp
  moreover have "digitRun (decStr q @ CHR ''.'' # fp) = decStr q" "afterDigits (decStr q @ CHR ''.'' # fp) = CHR ''.'' # fp"
    using digitRun_stop [of "CHR ''.'' # fp"] by simp_all
  ultimately show ?thesis using assms
    by (simp add: numLex_def digits_num validDecimalLexical_def ratOfDecimal_def isNumChar_def [of "CHR ''.''"])
qed

definition misses :: "char \<Rightarrow> string \<Rightarrow> bool" where
  "misses u s \<longleftrightarrow> s = [] \<or> (\<exists>w u' r. list_all isNumChar w \<and> \<not> isNumChar u' \<and> u' \<noteq> u \<and> s = w @ u' # r)"

lemma num_split:
  assumes "list_all isNumChar w" "\<not> isNumChar u"
  shows "takeWhile isNumChar (w @ u # r) = w" "dropWhile isNumChar (w @ u # r) = u # r"
  using assms by (induction w) auto

lemma take_hit: "numLex w v \<Longrightarrow> \<not> isNumChar u \<Longrightarrow> takeComponent (w @ u # r) u = Inr (Some (v, r))"
  using num_split [of w u r] by (simp add: takeComponent_def numLex_def)

lemma take_miss: "misses u s \<Longrightarrow> takeComponent s u = Inr None"
  unfolding misses_def
proof (elim disjE exE conjE)
  fix w u' r
  assume "list_all isNumChar w" "\<not> isNumChar u'" "u' \<noteq> u" "s = w @ u' # r"
  then show ?thesis using num_split [of w u' r] by (simp add: takeComponent_def)
qed (simp add: takeComponent_def)

lemma intStr_nonneg: "0 \<le> n \<Longrightarrow> intStr n = decStr (nat n)"
  by (simp add: intStr_def)

lemma component_step:
  assumes "0 \<le> n" "\<not> isNumChar u" "misses u s"
  shows "component u sc b (intComp n u @ s, acc, saw) = Inr (s, acc + of_int n * sc, saw \<or> n \<noteq> 0)"
proof (cases "n = 0")
  case True
  then show ?thesis using take_miss [OF assms(3)] by (simp add: component_def intComp_def)
next
  case False
  have "takeComponent (decStr (nat n) @ u # s) u = Inr (Some (of_nat (nat n), s))"
    by (rule take_hit [OF numLex_int assms(2)])
  moreover have "ratIsInt (of_nat (nat n))" by (simp add: ratIsInt_iff)
  ultimately show ?thesis using False assms(1) by (simp add: component_def intComp_def intStr_nonneg)
qed

lemma misses_comp:
  assumes "0 \<le> n" "\<not> isNumChar u'" "u' \<noteq> u" "misses u s"
  shows "misses u (intComp n u' @ s)"
proof (cases "n = 0")
  case True
  then show ?thesis using assms(4) by (simp add: intComp_def)
next
  case False
  have "list_all isNumChar (decStr (nat n))" using digits_num [of "decStr (nat n)"] by simp
  moreover have "intComp n u' @ s = decStr (nat n) @ u' # s" using False assms(1) by (simp add: intComp_def intStr_nonneg)
  ultimately show ?thesis using assms(2,3) unfolding misses_def by blast
qed

lemma misses_Nil [simp]: "misses u []"
  by (simp add: misses_def)

lemma units [simp]: "\<not> isNumChar (CHR ''Y'')" "\<not> isNumChar (CHR ''M'')" "\<not> isNumChar (CHR ''D'')"
  "\<not> isNumChar (CHR ''H'')" "\<not> isNumChar (CHR ''S'')" "\<not> isNumChar (CHR ''T'')"
  by (simp_all add: isNumChar_def isDigit_def)

subsection \<open>Splitting the seconds\<close>

lemma quoUnit_floor: "0 \<le> r \<Longrightarrow> 0 < n \<Longrightarrow> quoUnit r n = \<lfloor>r / of_int n\<rfloor>"
proof -
  assume r: "0 \<le> r" and n: "0 < n"
  have "0 \<le> ratNum r" using r rat_num_den [of r] ratDen_pos [of r]
    by (metis of_int_0_le_iff of_int_pos order_less_imp_le zero_le_divide_iff linorder_not_le)
  moreover have "r / of_int n = of_int (ratNum r) / of_int (ratDen r * n)"
    using arg_cong [OF rat_num_den [of r], of "\<lambda>x. x / of_int n"] by simp
  then have "\<lfloor>r / of_int n\<rfloor> = ratNum r div (ratDen r * n)" by (simp only: floor_divide_of_int_eq)
  ultimately show ?thesis using ratDen_pos [of r] n by (simp add: quoUnit_def sdiv_pos)
qed

lemma quo_rem:
  assumes "0 \<le> r" "0 < n"
  shows "0 \<le> quoUnit r n" "0 \<le> r - of_int (quoUnit r n) * of_int n" "r - of_int (quoUnit r n) * of_int n < of_int n"
proof -
  have n: "(0 :: rat) < of_int n" using assms(2) by simp
  note f = quoUnit_floor [OF assms]
  show "0 \<le> quoUnit r n" using f assms n by (simp add: zero_le_floor)
  have "of_int \<lfloor>r / of_int n\<rfloor> \<le> r / of_int n" "r / of_int n < of_int \<lfloor>r / of_int n\<rfloor> + 1"
    using floor_correct [of "r / of_int n"] by simp_all
  then have "of_int \<lfloor>r / of_int n\<rfloor> * of_int n \<le> r" "r < (of_int \<lfloor>r / of_int n\<rfloor> + 1) * of_int n"
    by (simp_all only: pos_le_divide_eq [OF n] pos_divide_less_eq [OF n])
  then show "0 \<le> r - of_int (quoUnit r n) * of_int n" "r - of_int (quoUnit r n) * of_int n < of_int n"
    unfolding f by (simp_all add: distrib_right)
qed

lemma quo_split:
  assumes "0 \<le> r" "0 < n" "q = quoUnit r n" "r' = r - of_int q * of_int n"
  shows "0 \<le> q" "0 \<le> r'" "r' < of_int n"
  using quo_rem [OF assms(1,2)] unfolding assms(3,4) by simp_all

lemma terminating_diff:
  "DecimalMagnitudeOf r \<noteq> None \<Longrightarrow> DecimalMagnitudeOf (r - of_int k) \<noteq> None"
proof
  assume a: "DecimalMagnitudeOf r \<noteq> None" "DecimalMagnitudeOf (r - of_int k) = None"
  then obtain s where "10 ^ s * r \<in> \<int>" using decimal_spec [of r] by (cases "DecimalMagnitudeOf r") auto
  moreover have "10 ^ s * (r - of_int k) = 10 ^ s * r - of_int (10 ^ s * k)" by (simp add: algebra_simps)
  ultimately have "10 ^ s * (r - of_int k) \<in> \<int>" by simp
  then show False using decimal_spec [of "r - of_int k"] a(2) by simp
qed

text \<open>The seconds as printed are a decimal whose value they are.\<close>

lemma seconds_lex:
  assumes "0 \<le> r" "DecimalMagnitudeOf r \<noteq> None"
  shows "numLex (trimPoint (trimZeros (FloatString r (secondsScale r)))) r"
proof (cases "ratIsInt r")
  case True
  then have r: "r = of_int (ratNum r)" using rat_num_den [of r] by (simp add: ratIsInt_def)
  then have n: "0 \<le> ratNum r" using assms(1) by (metis of_int_0_le_iff)
  obtain m where m: "DecimalMagnitudeOf r = Some m" using assms(2) by blast
  have "10 ^ 0 * r \<in> \<int>" using True ratIsInt_iff by simp
  then have "Scale m \<le> 0" using decimal_spec [of r, unfolded m option.case] by blast
  then have "Scale m = 0" by simp
  then have "secondsScale r = 1" using m by (simp add: secondsScale_def decimalScale_def)
  then have "FloatString r (secondsScale r) = decStr (nat (ratNum r)) @ ''.0''"
    using True n assms(1) by (simp add: FloatString_def sgnStr_def)
  then have "trimPoint (trimZeros (FloatString r (secondsScale r))) = decStr (nat (ratNum r))"
    by (simp add: trimZeros_def trimPoint_def)
  moreover have "of_nat (nat (ratNum r)) = r" using r n by simp
  ultimately show ?thesis using numLex_int [of "nat (ratNum r)"] by simp
next
  case False
  obtain m where m: "DecimalMagnitudeOf r = Some m" using assms(2) by blast
  obtain q fp where t: "trimPoint (trimZeros (FloatString r (Scale m))) = sgnStr r @ decStr q @ CHR ''.'' # fp"
    "fp \<noteq> []" "list_all isDigit fp" "ratOfDigits (decStr q) fp = \<bar>r\<bar>" "0 < Scale m"
    using exact_text [OF m False] by metis
  have "secondsScale r = Scale m" using decimalScale_exact [OF m t(5)] by (simp add: secondsScale_def)
  then show ?thesis using t(1,4) numLex_fraction [OF t(2,3), of q] assms(1) by (simp add: sgnStr_def)
qed

subsection \<open>The round trip\<close>

text \<open>The values of the three types: a sign only on a value that is not zero, months that fit, seconds
  that terminate.\<close>

definition durValue :: "typeCode \<Rightarrow> duration \<Rightarrow> bool" where
  "durValue t d \<longleftrightarrow> 0 \<le> Months d \<and> Months d \<le> MaxInt64 \<and> 0 \<le> Seconds d \<and> DecimalMagnitudeOf (Seconds d) \<noteq> None \<and>
     (Negative d \<longrightarrow> Months d \<noteq> 0 \<or> Seconds d \<noteq> 0) \<and>
     (t = TypeYearMonthDuration \<longrightarrow> Seconds d = 0) \<and> (t = TypeDayTimeDuration \<longrightarrow> Months d = 0)"

definition timeStr :: "int \<Rightarrow> int \<Rightarrow> rat \<Rightarrow> string" where
  "timeStr h m r = intComp h CHR ''H'' @ intComp m CHR ''M'' @
     (if r \<noteq> 0 then trimPoint (trimZeros (FloatString r (secondsScale r))) @ ''S'' else [])"

definition dateStr :: "int \<Rightarrow> int \<Rightarrow> int \<Rightarrow> string" where
  "dateStr y m d = intComp y CHR ''Y'' @ intComp m CHR ''M'' @ intComp d CHR ''D''"

lemma numChar_not: "isNumChar c \<Longrightarrow> c \<noteq> CHR ''T'' \<and> c \<noteq> CHR ''P'' \<and> c \<noteq> CHR ''-'' \<and> \<not> isXMLSpace c"
  by (auto simp: isNumChar_def isDigit_def isXMLSpace_def)

lemma intComp_chars: "0 \<le> n \<Longrightarrow> c \<in> set (intComp n u) \<Longrightarrow> isNumChar c \<or> c = u"
proof -
  assume n: "0 \<le> n" and c: "c \<in> set (intComp n u)"
  have "\<forall>c \<in> set (decStr (nat n)). isNumChar c" by (metis decStr_digits digits_num list_all_iff)
  then show ?thesis using c n by (cases "n = 0") (auto simp: intComp_def intStr_nonneg)
qed

lemma parse_dateStr:
  assumes "0 \<le> y" "0 \<le> m" "0 \<le> d"
  shows "component CHR ''Y'' 12 False (dateStr y m d, 0, False) = Inr (intComp m CHR ''M'' @ intComp d CHR ''D'', of_int y * 12, y \<noteq> 0)"
    "component CHR ''M'' 1 False (intComp m CHR ''M'' @ intComp d CHR ''D'', of_int y * 12, y \<noteq> 0) =
       Inr (intComp d CHR ''D'', of_int (12 * y + m), y \<noteq> 0 \<or> m \<noteq> 0)"
    "component CHR ''D'' 86400 False (intComp d CHR ''D'', 0, saw) = Inr ([], of_int d * 86400, saw \<or> d \<noteq> 0)"
proof -
  have "misses CHR ''M'' (intComp d CHR ''D'')" "misses CHR ''Y'' (intComp d CHR ''D'')"
    using misses_comp [OF assms(3), of "CHR ''D''" _ "[]"] by simp_all
  moreover from this have "misses CHR ''Y'' (intComp m CHR ''M'' @ intComp d CHR ''D'')"
    using misses_comp [OF assms(2)] by simp
  ultimately show "component CHR ''Y'' 12 False (dateStr y m d, 0, False) = Inr (intComp m CHR ''M'' @ intComp d CHR ''D'', of_int y * 12, y \<noteq> 0)"
    "component CHR ''M'' 1 False (intComp m CHR ''M'' @ intComp d CHR ''D'', of_int y * 12, y \<noteq> 0) =
       Inr (intComp d CHR ''D'', of_int (12 * y + m), y \<noteq> 0 \<or> m \<noteq> 0)"
    using component_step [OF assms(1)] component_step [OF assms(2)] by (simp_all add: dateStr_def mult.commute)
  show "component CHR ''D'' 86400 False (intComp d CHR ''D'', 0, saw) = Inr ([], of_int d * 86400, saw \<or> d \<noteq> 0)"
    using component_step [OF assms(3), of "CHR ''D''" "[]"] by simp
qed

lemma parse_timeStr:
  assumes "0 \<le> h" "0 \<le> m" "0 \<le> r" "DecimalMagnitudeOf r \<noteq> None"
  shows "bindE (component CHR ''H'' 3600 False (timeStr h m r, a, saw)) (\<lambda>st.
    bindE (component CHR ''M'' 60 False st) (\<lambda>st. bindE (component CHR ''S'' 1 True st) k)) =
    k ([], a + of_int h * 3600 + of_int m * 60 + r, saw \<or> h \<noteq> 0 \<or> m \<noteq> 0 \<or> r \<noteq> 0)"
proof -
  let ?w = "trimPoint (trimZeros (FloatString r (secondsScale r)))"
  define ss where "ss = (if r \<noteq> 0 then ?w @ ''S'' else [])"
  note nl = seconds_lex [OF assms(3,4)]
  have ms: "misses u ss" if "u \<noteq> CHR ''S''" for u
    using nl that unfolding misses_def ss_def numLex_def by (metis append_Cons append_Nil units(5))
  have "misses CHR ''H'' (intComp m CHR ''M'' @ ss)" using misses_comp [OF assms(2)] ms by simp
  then have "component CHR ''H'' 3600 False (timeStr h m r, a, saw) =
      Inr (intComp m CHR ''M'' @ ss, a + of_int h * 3600, saw \<or> h \<noteq> 0)"
    using component_step [OF assms(1)] by (simp add: timeStr_def ss_def)
  moreover have "component CHR ''M'' 60 False (intComp m CHR ''M'' @ ss, a + of_int h * 3600, saw \<or> h \<noteq> 0) =
      Inr (ss, a + of_int h * 3600 + of_int m * 60, (saw \<or> h \<noteq> 0) \<or> m \<noteq> 0)"
    using component_step [OF assms(2)] ms by simp
  moreover have "component CHR ''S'' 1 True (ss, b, sw) = Inr ([], b + r, sw \<or> r \<noteq> 0)" for b sw
  proof (cases "r = 0")
    case True
    then show ?thesis using take_miss [of "CHR ''S''" "[]"] by (simp add: component_def ss_def)
  next
    case False
    then show ?thesis using take_hit [OF nl, of "CHR ''S''" "[]"] by (simp add: component_def ss_def)
  qed
  ultimately show ?thesis by (cases "h = 0"; cases "m = 0"; simp)
qed

lemma timeStr_empty: "0 \<le> h \<Longrightarrow> 0 \<le> m \<Longrightarrow> timeStr h m r = [] \<longleftrightarrow> h = 0 \<and> m = 0 \<and> r = 0"
  by (auto simp: timeStr_def intComp_def)

lemma dateStr_empty: "0 \<le> y \<Longrightarrow> 0 \<le> m \<Longrightarrow> 0 \<le> d \<Longrightarrow> dateStr y m d = [] \<longleftrightarrow> y = 0 \<and> m = 0 \<and> d = 0"
  by (auto simp: dateStr_def intComp_def)

lemma dateStr_chars: "0 \<le> y \<Longrightarrow> 0 \<le> m \<Longrightarrow> 0 \<le> d \<Longrightarrow> c \<in> set (dateStr y m d) \<Longrightarrow>
    isNumChar c \<or> c \<in> {CHR ''Y'', CHR ''M'', CHR ''D''}"
  using intComp_chars [of y c "CHR ''Y''"] intComp_chars [of m c "CHR ''M''"] intComp_chars [of d c "CHR ''D''"]
  by (auto simp: dateStr_def)

lemma timeStr_chars: "0 \<le> h \<Longrightarrow> 0 \<le> m \<Longrightarrow> 0 \<le> r \<Longrightarrow> DecimalMagnitudeOf r \<noteq> None \<Longrightarrow> c \<in> set (timeStr h m r) \<Longrightarrow>
    isNumChar c \<or> c \<in> {CHR ''H'', CHR ''M'', CHR ''S''}"
  using intComp_chars [of h c "CHR ''H''"] intComp_chars [of m c "CHR ''M''"] seconds_lex [of r]
  by (auto simp: timeStr_def numLex_def list_all_iff split: if_splits)

lemma cutT_none: "(\<And>c. c \<in> set s \<Longrightarrow> c \<noteq> CHR ''T'') \<Longrightarrow> cutT s = (s, [], False)"
proof -
  assume "\<And>c. c \<in> set s \<Longrightarrow> c \<noteq> CHR ''T''"
  then have "dropWhile (\<lambda>c. c \<noteq> CHR ''T'') s = []" by (simp add: dropWhile_eq_Nil_conv)
  then show ?thesis by (simp add: cutT_def)
qed

lemma cutT_at: "(\<And>c. c \<in> set s \<Longrightarrow> c \<noteq> CHR ''T'') \<Longrightarrow> cutT (s @ CHR ''T'' # r) = (s, r, True)"
proof -
  assume "\<And>c. c \<in> set s \<Longrightarrow> c \<noteq> CHR ''T''"
  then have "takeWhile (\<lambda>c. c \<noteq> CHR ''T'') (s @ CHR ''T'' # r) = s" "dropWhile (\<lambda>c. c \<noteq> CHR ''T'') (s @ CHR ''T'' # r) = CHR ''T'' # r"
    by (simp_all add: takeWhile_append2 dropWhile_append2)
  then show ?thesis by (simp add: cutT_def)
qed

lemma DurLexical_form:
  assumes v: "durValue t d"
  obtains ds h m r where "0 \<le> ds" "0 \<le> h" "0 \<le> m" "0 \<le> r" "DecimalMagnitudeOf r \<noteq> None"
    "Seconds d = of_int ds * 86400 + of_int h * 3600 + of_int m * 60 + r"
    "DurLexical d t = (if Months d = 0 \<and> Seconds d = 0 then if t = TypeYearMonthDuration then ''P0M'' else ''PT0S''
       else (if Negative d then ''-'' else []) @ ''P'' @ dateStr (Months d div 12) (Months d mod 12) ds @
         (if timeStr h m r = [] then [] else ''T'' @ timeStr h m r))"
proof -
  have s: "0 \<le> Seconds d" and dm: "DecimalMagnitudeOf (Seconds d) \<noteq> None" and mo: "0 \<le> Months d"
    using v by (simp_all add: durValue_def)
  define ds where "ds = quoUnit (Seconds d) 86400"
  define r1 where "r1 = Seconds d - of_int ds * 86400"
  define h where "h = quoUnit r1 3600"
  define r2 where "r2 = r1 - of_int h * 3600"
  define m where "m = quoUnit r2 60"
  define r where "r = r2 - of_int m * 60"
  have q1: "0 \<le> ds" "0 \<le> r1" using quo_split [OF s, of 86400 ds r1] by (simp_all add: ds_def r1_def)
  have q2: "0 \<le> h" "0 \<le> r2" using quo_split [OF q1(2), of 3600 h r2] by (simp_all add: h_def r2_def)
  have q3: "0 \<le> m" "0 \<le> r" using quo_split [OF q2(2), of 60 m r] by (simp_all add: m_def r_def)
  have d1: "DecimalMagnitudeOf r1 \<noteq> None" using terminating_diff [OF dm, of "ds * 86400"] by (simp add: r1_def)
  have d2: "DecimalMagnitudeOf r2 \<noteq> None" using terminating_diff [OF d1, of "h * 3600"] by (simp add: r2_def)
  have d3: "DecimalMagnitudeOf r \<noteq> None" using terminating_diff [OF d2, of "m * 60"] by (simp add: r_def)
  have z: "timeStr h m r = [] \<longleftrightarrow> r1 = 0"
    unfolding timeStr_empty [OF q2(1) q3(1)]
    by (auto simp: r_def r2_def h_def m_def quoUnit_def ratNum_def)
  have sd: "Months d sdiv 12 = Months d div 12" "Months d smod 12 = Months d mod 12"
    using mo by (simp_all add: sdiv_pos smod_pos)
  have c1: "(if ds \<noteq> 0 then Seconds d - of_int ds * 86400 else Seconds d) = r1"
    and c2: "(if h \<noteq> 0 then r1 - of_int h * 3600 else r1) = r2"
    and c3: "(if m \<noteq> 0 then r2 - of_int m * 60 else r2) = r"
    by (simp_all add: r1_def r2_def r_def)
  have form: "DurLexical d t = (let s = (if Negative d then ''-'' else []) @ ''P'' @
      dateStr (Months d div 12) (Months d mod 12) ds @ (if timeStr h m r = [] then [] else ''T'' @ timeStr h m r) in
      if last s = CHR ''P'' then (if t = TypeYearMonthDuration then s @ ''0M'' else s @ ''T0S'') else s)"
  proof -
    have sg: "(Negative d \<and> (Months d \<noteq> 0 \<or> Seconds d \<noteq> 0)) = Negative d" using v by (auto simp: durValue_def)
    have tt: "(if r1 \<noteq> 0 then ''T'' @ intComp h CHR ''H'' @ intComp m CHR ''M'' @
        (if r \<noteq> 0 then trimPoint (trimZeros (FloatString r (secondsScale r))) @ ''S'' else []) else []) =
        (if timeStr h m r = [] then [] else ''T'' @ timeStr h m r)"
      unfolding z by (simp only: timeStr_def if_not_P not_not split: if_splits) simp
    show ?thesis
      unfolding DurLexical_def Let_def ds_def [symmetric] c1 h_def [symmetric] c2 m_def [symmetric] c3 sd sg tt
      by (simp only: dateStr_def append_assoc)
  qed
  define body where "body = dateStr (Months d div 12) (Months d mod 12) ds @ (if timeStr h m r = [] then [] else ''T'' @ timeStr h m r)"
  have y: "0 \<le> Months d div 12" "0 \<le> Months d mod 12" using mo by simp_all
  have sec: "Seconds d = of_int ds * 86400 + of_int h * 3600 + of_int m * 60 + r" by (simp add: r_def r2_def r1_def)
  have empty: "body = [] \<longleftrightarrow> Months d = 0 \<and> Seconds d = 0"
  proof
    assume "body = []"
    then have "dateStr (Months d div 12) (Months d mod 12) ds = []" "timeStr h m r = []" by (simp_all add: body_def split: if_splits)
    then have "Months d div 12 = 0" "Months d mod 12 = 0" "ds = 0" "r1 = 0"
      unfolding z dateStr_empty [OF y q1(1)] by simp_all
    then show "Months d = 0 \<and> Seconds d = 0" by (simp add: r1_def)
  next
    assume a: "Months d = 0 \<and> Seconds d = 0"
    then have "ds = 0" by (simp add: ds_def quoUnit_def ratNum_def)
    moreover from this have "timeStr h m r = []" unfolding z using a by (simp add: r1_def)
    ultimately show "body = []" using a by (simp add: body_def dateStr_def intComp_def)
  qed
  have "c \<noteq> CHR ''P''" if "c \<in> set body" for c
    using dateStr_chars [OF y q1(1), of c] timeStr_chars [OF q2(1) q3 d3, of c] numChar_not [of c] that
    by (auto simp: body_def split: if_splits)
  then have nl: "body \<noteq> [] \<Longrightarrow> last ((if Negative d then ''-'' else []) @ ''P'' @ body) \<noteq> CHR ''P''"
    using last_in_set [of body] by auto
  have neg: "Months d = 0 \<and> Seconds d = 0 \<Longrightarrow> \<not> Negative d" using v by (auto simp: durValue_def)
  have "DurLexical d t = (if Months d = 0 \<and> Seconds d = 0 then if t = TypeYearMonthDuration then ''P0M'' else ''PT0S''
      else (if Negative d then ''-'' else []) @ ''P'' @ body)"
  proof (cases "body = []")
    case True
    then show ?thesis unfolding form body_def [symmetric] Let_def using empty neg by simp
  next
    case False
    have ne: "\<not> (Months d = 0 \<and> Seconds d = 0)" using False empty by simp
    show ?thesis unfolding form body_def [symmetric] Let_def if_not_P [OF nl [OF False]] if_not_P [OF ne] ..
  qed
  from that [OF q1(1) q2(1) q3 d3 sec this [unfolded body_def]] show ?thesis .
qed

lemma durLexical_zero: "ParseDuration ''PT0S'' t = Inr \<lparr>Negative = False, Months = 0, Seconds = 0\<rparr>"
  by (cases t; hypsubst; code_simp)

text \<open>C15: Round trip of durations. For a value of \<open>xs:duration\<close>, \<open>xs:yearMonthDuration\<close> or
  \<open>xs:dayTimeDuration\<close> whose seconds have a finite decimal expansion, the canonical text is accepted by the
  parser and gives the value back.
\<close>

theorem DurLexical_roundtrip:
  assumes v: "durValue t d"
  shows "ParseDuration (DurLexical d t) t = Inr d"
proof (cases "Months d = 0 \<and> Seconds d = 0")
  case True
  then have d: "d = \<lparr>Negative = False, Months = 0, Seconds = 0\<rparr>" using v by (cases d) (simp add: durValue_def)
  show ?thesis
  proof (cases "t = TypeYearMonthDuration")
    case True
    then show ?thesis unfolding d True by code_simp
  next
    case False
    have "DurLexical d t = ''PT0S''" using DurLexical_form [OF v] False d by (metis duration.select_convs(2,3))
    then show ?thesis using durLexical_zero d by simp
  qed
next
  case False
  obtain ds h m r where nn: "0 \<le> ds" "0 \<le> h" "0 \<le> m" "0 \<le> r" "DecimalMagnitudeOf r \<noteq> None"
    and sec: "Seconds d = of_int ds * 86400 + of_int h * 3600 + of_int m * 60 + r"
    and form: "DurLexical d t = (if Months d = 0 \<and> Seconds d = 0 then if t = TypeYearMonthDuration then ''P0M'' else ''PT0S''
       else (if Negative d then ''-'' else []) @ ''P'' @ dateStr (Months d div 12) (Months d mod 12) ds @
         (if timeStr h m r = [] then [] else ''T'' @ timeStr h m r))"
    using DurLexical_form [OF v] by metis
  let ?y = "Months d div 12" and ?mo = "Months d mod 12"
  let ?D = "dateStr ?y ?mo ds" and ?T = "timeStr h m r"
  have "0 \<le> Months d" using v unfolding durValue_def by blast
  then have y: "0 \<le> ?y" "0 \<le> ?mo" by simp_all
  have dch: "c \<in> set ?D \<Longrightarrow> c \<noteq> CHR ''T'' \<and> \<not> isXMLSpace c" for c
    using dateStr_chars [OF y nn(1), of c] numChar_not [of c] by (auto simp: isXMLSpace_def)
  have tch: "c \<in> set ?T \<Longrightarrow> \<not> isXMLSpace c" for c
    using timeStr_chars [OF nn(2-5), of c] numChar_not [of c] by (auto simp: isXMLSpace_def)
  have lex: "DurLexical d t = (if Negative d then ''-'' else []) @ CHR ''P'' # ?D @ (if ?T = [] then [] else CHR ''T'' # ?T)"
    unfolding form if_not_P [OF False] by simp
  have trim: "TrimXMLSpace (DurLexical d t) = DurLexical d t"
    unfolding lex using dch tch by (intro Trim_id) (auto simp: list_all_iff isXMLSpace_def)
  have cut: "cutT (?D @ (if ?T = [] then [] else CHR ''T'' # ?T)) = (?D, ?T, ?T \<noteq> [])"
    using cutT_none [of ?D] cutT_at [of ?D ?T] dch by simp
  have some: "?D \<noteq> [] \<or> ?T \<noteq> []"
    using False sec unfolding dateStr_empty [OF y nn(1)] timeStr_empty [OF nn(2,3)] by auto
  have mn: "of_int (12 * ?y + ?mo) = (of_int (Months d) :: rat)" by (simp only: mult_div_mod_eq)
  have int: "inInt64 (Months d)" using v by (simp add: durValue_def inInt64_def MinInt64_def)
  have nm: "ratNum (of_int (Months d)) sdiv ratDen (of_int (Months d)) = Months d"
    by (simp add: ratNum_def ratDen_def)
  note pd = parse_dateStr [OF y nn(1), unfolded mn]
  have neg: "(DurLexical d t \<noteq> [] \<and> hd (DurLexical d t) = CHR ''-'') = Negative d"
    and strip: "(if Negative d then tl (DurLexical d t) else DurLexical d t) = CHR ''P'' # ?D @ (if ?T = [] then [] else CHR ''T'' # ?T)"
    unfolding lex by simp_all
  have saw: "((?y \<noteq> 0 \<or> ?mo \<noteq> 0) \<or> ds \<noteq> 0) \<or> h \<noteq> 0 \<or> m \<noteq> 0 \<or> r \<noteq> 0"
    using some unfolding dateStr_empty [OF y nn(1)] timeStr_empty [OF nn(2,3)] by (simp only: de_Morgan_conj disj_assoc)
  have ty: "\<not> (t = TypeYearMonthDuration \<and> Seconds d \<noteq> 0)" "\<not> (t = TypeDayTimeDuration \<and> Months d \<noteq> 0)"
    using v unfolding durValue_def by blast+
  have eta: "\<lparr>Negative = Negative d, Months = Months d, Seconds = Seconds d\<rparr> = d" by simp
  show ?thesis
  proof (cases "?T = []")
    case True
    then have z: "h = 0" "m = 0" "r = 0" using timeStr_empty [OF nn(2,3), of r] by simp_all
    then have s0: "of_int ds * 86400 = Seconds d" using sec by simp
    have sw: "(?y \<noteq> 0 \<or> ?mo \<noteq> 0) \<or> ds \<noteq> 0" using saw unfolding z by (simp only: simp_thms)
    have "?D \<noteq> []" using some True by blast
    then show ?thesis
      unfolding ParseDuration_def Let_def trim neg strip
      by (simp only: list.sel append_Nil2 cutT_none [OF conjunct1 [OF dch]] prod.case True pd bindE.simps nm int s0 sw ty eta simp_thms if_True if_False list.distinct)
  next
    case False
    then show ?thesis
      unfolding ParseDuration_def Let_def trim neg strip list.sel cut
      by (simp only: list.sel prod.case False pd bindE.simps nm int bindE_assoc parse_timeStr [OF nn(2-5)] sec [symmetric] saw ty eta simp_thms if_True if_False list.distinct)
  qed
qed



theorem DurLexical_roundtrip_witness:
  "ParseDuration (DurLexical \<lparr>Negative = True, Months = 14, Seconds = 93784 + 1 / 8\<rparr> TypeDuration) TypeDuration =
     Inr \<lparr>Negative = True, Months = 14, Seconds = 93784 + 1 / 8\<rparr> \<and>
   DurLexical \<lparr>Negative = True, Months = 14, Seconds = 93784 + 1 / 8\<rparr> TypeDuration = ''-P1Y2M1DT2H3M4.125S''"
proof -
  have v: "durValue TypeDuration \<lparr>Negative = True, Months = 14, Seconds = 93784 + 1 / 8\<rparr>" by code_simp
  show ?thesis by (intro conjI, rule DurLexical_roundtrip [OF v], code_simp)
qed

subsection \<open>Lexical forms\<close>

text \<open>What the parser lets through although XML Schema's grammar does not: a whole number with a fraction
  point where an integer is required, and a component of the wrong kind in the two subtypes when it is zero.
  A point without digits on both sides, a missing component after T, or a fraction that is not zero are refused.
\<close>

theorem ParseDuration_lexical:
  "ParseDuration ''P1.0Y'' TypeDuration = Inr \<lparr>Negative = False, Months = 12, Seconds = 0\<rparr> \<and>
   ParseDuration ''P0Y'' TypeDayTimeDuration = Inr \<lparr>Negative = False, Months = 0, Seconds = 0\<rparr> \<and>
   ParseDuration ''PT0S'' TypeYearMonthDuration = Inr \<lparr>Negative = False, Months = 0, Seconds = 0\<rparr> \<and>
   ParseDuration ''P1.5Y'' TypeDuration = Inl FORG0001 \<and> ParseDuration ''PT.5S'' TypeDuration = Inl FORG0001 \<and>
   ParseDuration ''PT5.S'' TypeDuration = Inl FORG0001 \<and> ParseDuration ''P1YT'' TypeDuration = Inl FORG0001 \<and>
   ParseDuration ''P1M1Y'' TypeDuration = Inl FORG0001 \<and>
   ParseDuration ''P768614336404564651Y'' TypeDuration = Inl FODT0002"
  by (intro conjI; code_simp)

subsection \<open>Arithmetic of durations\<close>

lemma roundRat_floor: "roundRat r = \<lfloor>r + 1 / 2\<rfloor>"
proof -
  define n where "n = ratNum r"
  define k where "k = ratDen r"
  have k: "0 < k" using ratDen_pos by (simp add: k_def)
  have r: "r = of_int n / of_int k" using rat_num_den [of r] by (simp add: n_def k_def)
  have "r + 1 / 2 = of_int (2 * n + k) / of_int (2 * k)" using k by (simp add: r field_simps)
  then have fl: "\<lfloor>r + 1 / 2\<rfloor> = (2 * n + k) div (2 * k)" by (simp only: floor_divide_of_int_eq)
  have sg: "r < 0 \<longleftrightarrow> n < 0" using k by (simp add: r divide_less_0_iff)
  have main: "(2 * n + k) div (2 * k) = q" if "2 * k * q \<le> 2 * n + k" "2 * n + k < 2 * k * q + 2 * k" for q
  proof (rule int_div_pos_eq)
    show "2 * n + k = 2 * k * q + (2 * n + k - 2 * k * q)" by simp
  qed (use that in simp_all)
  show ?thesis
  proof (cases "n < 0")
    case False
    define q where "q = n div k"
    define t where "t = n mod k"
    have n: "n = k * q + t" and t: "0 \<le> t" "t < k" using k by (simp_all add: q_def t_def)
    have "roundRat r = (if t = 0 then q else if 2 * t \<ge> k then q + 1 else q)"
      using False sg k t(1) by (simp add: roundRat_def n_def [symmetric] k_def [symmetric] sdiv_pos smod_pos q_def t_def Let_def)
    also have "\<dots> = (2 * n + k) div (2 * k)"
      using main [of q] main [of "q + 1"] n t k by (auto simp: algebra_simps)
    finally show ?thesis unfolding fl .
  next
    case True
    define q where "q = - n div k"
    define t where "t = - n mod k"
    have "k * q + t = - n" unfolding q_def t_def by (rule mult_div_mod_eq)
    then have n: "n = - (k * q) - t" by simp
    have t: "0 \<le> t" "t < k" using k unfolding t_def by (rule pos_mod_sign, rule pos_mod_bound)
    have "roundRat r = (if t = 0 then - q else if 2 * t > k then - q - 1 else - q)"
      using True sg k t(1) by (simp add: roundRat_def n_def [symmetric] k_def [symmetric] sdiv_neg smod_neg q_def t_def Let_def)
    also have "\<dots> = (2 * n + k) div (2 * k)"
    proof -
      have e: "2 * n + k = 2 * k * (- q) + k - 2 * t" "2 * k * (- q - 1) = 2 * k * (- q) - 2 * k"
        using n by (simp_all add: algebra_simps)
      show ?thesis
      proof (cases "2 * t > k")
        case True
        then have "(2 * n + k) div (2 * k) = - q - 1" using e t by (intro main) linarith+
        then show ?thesis using True t(1) k by simp
      next
        case False
        then have "(2 * n + k) div (2 * k) = - q" using e t k by (intro main) linarith+
        then show ?thesis using False by simp
      qed
    qed
    finally show ?thesis unfolding fl .
  qed
qed

lemma SignedMonths_fromSigned:
  assumes "inInt64 n" "n \<noteq> MinInt64" "n = 0 \<or> s = 0"
  shows "SignedMonths (durationFromSigned n s) = n" "SignedSeconds (durationFromSigned n s) = s"
proof -
  have w: "wrap64 k = k" if "inInt64 k" for k using that by (simp add: wrap64_id)
  have "inInt64 (- n)" using assms(1,2) by (auto simp: inInt64_def MinInt64_def MaxInt64_def)
  then show "SignedMonths (durationFromSigned n s) = n"
    using assms w [of n] w [of "- n"] by (auto simp: SignedMonths_def durationFromSigned_def absInt_def)
  show "SignedSeconds (durationFromSigned n s) = s"
    using assms(3) by (auto simp: SignedSeconds_def durationFromSigned_def)
qed

definition kindOk :: "typeCode \<Rightarrow> duration \<Rightarrow> bool" where
  "kindOk t d \<longleftrightarrow> t = TypeYearMonthDuration \<and> Seconds d = 0 \<or> t = TypeDayTimeDuration \<and> Months d = 0"

lemma kindOk_signed: "kindOk t d \<Longrightarrow> t = TypeYearMonthDuration \<and> SignedSeconds d = 0 \<or> t = TypeDayTimeDuration \<and> SignedMonths d = 0"
  by (auto simp: kindOk_def SignedSeconds_def SignedMonths_def wrap64_id inInt64_def MinInt64_def MaxInt64_def)

text \<open>C19: Arithmetic on durations. The sum and the difference of two values of one subtype are exact, in months
  or in seconds, or report the overflow of the month count; multiplying by a number gives exact seconds and
  the month count rounded to the nearest integer, halves up. The single exception is the least 64-bit month
  count.
\<close>

theorem duration_arithmetic:
  assumes "kindOk t a" "kindOk t b"
  shows "(case addDurations (t, a) (t, b) False of
      Inl e \<Rightarrow> e = FODT0002 \<and> \<not> inInt64 (SignedMonths a + SignedMonths b)
    | Inr r \<Rightarrow> \<exists>d. r = ADur t d \<and> (SignedMonths a + SignedMonths b \<noteq> MinInt64 \<longrightarrow>
        SignedMonths d = SignedMonths a + SignedMonths b \<and> SignedSeconds d = SignedSeconds a + SignedSeconds b)) \<and>
    (case addDurations (t, a) (t, b) True of
      Inl e \<Rightarrow> e = FODT0002 \<and> \<not> inInt64 (SignedMonths a - SignedMonths b)
    | Inr r \<Rightarrow> \<exists>d. r = ADur t d \<and> (SignedMonths a - SignedMonths b \<noteq> MinInt64 \<longrightarrow>
        SignedMonths d = SignedMonths a - SignedMonths b \<and> SignedSeconds d = SignedSeconds a - SignedSeconds b)) \<and>
    (case scaleDuration (t, a) (NumRat f) OpMul of
      Inl e \<Rightarrow> e = FODT0002 \<and> \<not> inInt64 \<lfloor>of_int (SignedMonths a) * f + 1 / 2\<rfloor>
    | Inr r \<Rightarrow> \<exists>d. r = ADur t d \<and> (\<lfloor>of_int (SignedMonths a) * f + 1 / 2\<rfloor> \<noteq> MinInt64 \<longrightarrow>
        SignedMonths d = \<lfloor>of_int (SignedMonths a) * f + 1 / 2\<rfloor> \<and> SignedSeconds d = SignedSeconds a * f))"
proof -
  have z: "SignedMonths a + SignedMonths b = 0 \<or> SignedSeconds a + SignedSeconds b = 0"
    "SignedMonths a - SignedMonths b = 0 \<or> SignedSeconds a - SignedSeconds b = 0"
    using kindOk_signed [OF assms(1)] kindOk_signed [OF assms(2)] by auto
  have zf: "\<lfloor>of_int (SignedMonths a) * f + 1 / 2\<rfloor> = 0 \<or> SignedSeconds a * f = 0"
    using kindOk_signed [OF assms(1)] floor_unique [of 0 "1 / 2 :: rat"] by auto
  have t: "t = TypeYearMonthDuration \<or> t = TypeDayTimeDuration" using assms(1) by (auto simp: kindOk_def)
  have add: "case (if \<not> inInt64 n then Inl FODT0002 else Inr (ADur t (durationFromSigned n s))) of
      Inl e \<Rightarrow> e = FODT0002 \<and> \<not> inInt64 n
    | Inr r \<Rightarrow> \<exists>d. r = ADur t d \<and> (n \<noteq> MinInt64 \<longrightarrow> SignedMonths d = n \<and> SignedSeconds d = s)" if "n = 0 \<or> s = 0" for n s
    using SignedMonths_fromSigned [of n s] that by (cases "inInt64 n") auto
  show ?thesis
    by (intro conjI) (use add [OF z(1)] add [OF z(2)] add [OF zf] t in \<open>auto simp: addDurations_def scaleDuration_def Let_def roundRat_floor\<close>)
qed

theorem duration_arithmetic_witness:
  "\<exists>d. scaleDuration (TypeYearMonthDuration, \<lparr>Negative = True, Months = 5, Seconds = 0\<rparr>) (NumRat (1 / 2)) OpMul =
     Inr (ADur TypeYearMonthDuration d) \<and> SignedMonths d = -2"
proof -
  let ?a = "\<lparr>Negative = True, Months = 5, Seconds = 0\<rparr>"
  have "kindOk TypeYearMonthDuration ?a" by code_simp
  note th = duration_arithmetic [OF this this, of "1 / 2"]
  have m: "SignedMonths ?a = -5" by code_simp
  have f: "\<lfloor>of_int (-5) * (1 / 2) + 1 / 2 :: rat\<rfloor> = -2" by code_simp
  have i: "inInt64 (-2)" "-2 \<noteq> MinInt64" by code_simp+
  from th show ?thesis unfolding m f using i by (auto split: sum.splits)
qed

text \<open>The month count the parser can produce reaches the least 64-bit integer by subtraction. Its magnitude
  does not fit: the duration prints with two signs, and that text is not a duration.
\<close>

theorem least_month_count:
  "\<exists>a b d. ParseDuration ''-P9223372036854775807M'' TypeYearMonthDuration = Inr a \<and>
     ParseDuration ''P1M'' TypeYearMonthDuration = Inr b \<and>
     addDurations (TypeYearMonthDuration, a) (TypeYearMonthDuration, b) True = Inr (ADur TypeYearMonthDuration d) \<and>
     DurLexical d TypeYearMonthDuration = ''-P-768614336404564650Y-8M'' \<and>
     ParseDuration ''-P-768614336404564650Y-8M'' TypeYearMonthDuration = Inl FORG0001"
proof -
  let ?a = "\<lparr>Negative = True, Months = 9223372036854775807, Seconds = 0\<rparr>"
  let ?b = "\<lparr>Negative = False, Months = 1, Seconds = 0\<rparr>"
  let ?d = "\<lparr>Negative = True, Months = - 9223372036854775808, Seconds = 0\<rparr>"
  have "ParseDuration ''-P9223372036854775807M'' TypeYearMonthDuration = Inr ?a" by code_simp
  moreover have "ParseDuration ''P1M'' TypeYearMonthDuration = Inr ?b" by code_simp
  moreover have "addDurations (TypeYearMonthDuration, ?a) (TypeYearMonthDuration, ?b) True = Inr (ADur TypeYearMonthDuration ?d)" by code_simp
  moreover have "DurLexical ?d TypeYearMonthDuration = ''-P-768614336404564650Y-8M''" by code_simp
  moreover have "ParseDuration ''-P-768614336404564650Y-8M'' TypeYearMonthDuration = Inl FORG0001" by code_simp
  ultimately show ?thesis by blast
qed

end
