(* ===== verification/StreamLattice.thy ===== *)
theory StreamLattice
  imports Prelude
begin

text \<open>
  The streamability lattice of \<open>xslt/streamlattice.go\<close>: posture, sweep and usage, the adjusted
  sweep of an operand, the posture of a choice group, the general combination rules and the table of axis
  steps. Postures form a semilattice with grounded below everything and roaming above; sweeps are linearly
  ordered.
\<close>

subsection \<open>Postures, sweeps, usages\<close>

datatype posture = postureGrounded | postureStriding | postureClimbing | postureCrawling | postureRoaming

datatype sweep = sweepMotionless | sweepConsuming | sweepFreeRanging

datatype usage = usageAbsorption | usageInspection | usageTransmission | usageNavigation

fun sweepNum :: "sweep \<Rightarrow> nat" where
  "sweepNum sweepMotionless = 0"
| "sweepNum sweepConsuming = 1"
| "sweepNum sweepFreeRanging = 2"

lemma sweepNum_inject [simp]: "sweepNum a = sweepNum b \<longleftrightarrow> a = b"
  by (cases a; cases b) simp_all

instantiation sweep :: linorder
begin

definition less_eq_sweep :: "sweep \<Rightarrow> sweep \<Rightarrow> bool" where
  "less_eq_sweep a b \<longleftrightarrow> sweepNum a \<le> sweepNum b"

definition less_sweep :: "sweep \<Rightarrow> sweep \<Rightarrow> bool" where
  "less_sweep a b \<longleftrightarrow> sweepNum a < sweepNum b"

instance
  by standard (auto simp: less_eq_sweep_def less_sweep_def)

end

definition wider :: "sweep \<Rightarrow> sweep \<Rightarrow> sweep" where
  "wider a b = (if a > b then a else b)"

record props =
  posture_of :: posture
  sweep_of :: sweep

definition groundedMotionless :: props where
  "groundedMotionless = \<lparr>posture_of = postureGrounded, sweep_of = sweepMotionless\<rparr>"

definition roamingFreeRanging :: props where
  "roamingFreeRanging = \<lparr>posture_of = postureRoaming, sweep_of = sweepFreeRanging\<rparr>"

definition streamable :: "props \<Rightarrow> bool" where
  "streamable p \<longleftrightarrow> sweep_of p \<noteq> sweepFreeRanging \<and> posture_of p \<noteq> postureRoaming"

subsection \<open>Operands\<close>

record operand =
  oprops :: props
  ousage :: usage
  allowsChildren :: bool
  higherOrder :: bool
  choiceGroup :: bool
  streamedGrounded :: bool

definition adjustedUsage :: "operand \<Rightarrow> usage" where
  "adjustedUsage o' =
     (if ousage o' = usageAbsorption \<and> \<not> allowsChildren o' then usageInspection else ousage o')"

definition adjustedSweep :: "operand \<Rightarrow> sweep" where
  "adjustedSweep o' =
     (if sweep_of (oprops o') = sweepFreeRanging \<or> posture_of (oprops o') = postureRoaming then sweepFreeRanging
      else if streamedGrounded o' \<and> adjustedUsage o' = usageNavigation then sweepFreeRanging
      else if posture_of (oprops o') = postureGrounded then sweep_of (oprops o')
      else
        (case adjustedUsage o' of
           usageNavigation \<Rightarrow> sweepFreeRanging
         | usageAbsorption \<Rightarrow>
             if posture_of (oprops o') = postureClimbing then sweepFreeRanging else sweepConsuming
         | _ \<Rightarrow> sweep_of (oprops o')))"

definition potentiallyConsuming :: "operand \<Rightarrow> bool" where
  "potentiallyConsuming o' \<longleftrightarrow>
     adjustedSweep o' = sweepConsuming \<or> ousage o' = usageTransmission \<and> posture_of (oprops o') \<noteq> postureGrounded"

text \<open>The postures seen are collected in a set, from which grounded is removed.\<close>

definition combinedPosture :: "posture list \<Rightarrow> posture" where
  "combinedPosture ps =
     (if postureRoaming \<in> set ps then postureRoaming
      else
        let seen = removeAll postureGrounded (remdups ps) in
        case seen of
          [] \<Rightarrow> postureGrounded
        | [p] \<Rightarrow> p
        | _ \<Rightarrow> if length seen = 2 \<and> postureStriding \<in> set seen \<and> postureCrawling \<in> set seen
               then postureCrawling else postureRoaming)"

definition combineMany :: "operand list \<Rightarrow> props" where
  "combineMany consuming =
     (let first = posture_of (oprops (hd consuming));
          ps = map (\<lambda>o'. posture_of (oprops o')) consuming;
          widest = foldl (\<lambda>w o'. wider w (adjustedSweep o')) sweepMotionless consuming in
      if \<forall>o' \<in> set consuming. choiceGroup o' then \<lparr>posture_of = combinedPosture ps, sweep_of = widest\<rparr>
      else if (\<forall>o' \<in> set consuming. adjustedSweep o' = sweepMotionless) \<and> (\<forall>p \<in> set ps. p = first)
        then \<lparr>posture_of = first, sweep_of = sweepMotionless\<rparr>
      else roamingFreeRanging)"

definition combineOne :: "operand \<Rightarrow> bool \<Rightarrow> props" where
  "combineOne o' singletonBuiltin =
     (if higherOrder o' then roamingFreeRanging
      else if adjustedUsage o' = usageAbsorption \<or> adjustedUsage o' = usageInspection
        then \<lparr>posture_of = postureGrounded, sweep_of = sweepConsuming\<rparr>
      else if singletonBuiltin \<and> posture_of (oprops o') = postureCrawling
        then \<lparr>posture_of = postureStriding, sweep_of = adjustedSweep o'\<rparr>
      else \<lparr>posture_of = posture_of (oprops o'), sweep_of = adjustedSweep o'\<rparr>)"

definition combine :: "operand list \<Rightarrow> bool \<Rightarrow> props" where
  "combine operands singletonBuiltin =
     (if operands = [] then groundedMotionless
      else if \<exists>o' \<in> set operands. adjustedSweep o' = sweepFreeRanging then roamingFreeRanging
      else
        case filter potentiallyConsuming operands of
          [] \<Rightarrow> groundedMotionless
        | [o'] \<Rightarrow> combineOne o' singletonBuiltin
        | consuming \<Rightarrow> combineMany consuming)"

subsection \<open>Axis steps\<close>

datatype axisKind = axisChild | axisDescendant | axisAttribute | axisSelf | axisDescendantOrSelf
  | axisFollowingSibling | axisFollowing | axisParent | axisAncestor | axisPrecedingSibling | axisPreceding
  | axisAncestorOrSelf | axisNamespace

definition mkProps :: "posture \<Rightarrow> sweep \<Rightarrow> props" where
  "mkProps p s = \<lparr>posture_of = p, sweep_of = s\<rparr>"

definition postureOfAxisStep :: "posture \<Rightarrow> axisKind \<Rightarrow> bool \<Rightarrow> props" where
  "postureOfAxisStep ctx axis selectsElements =
     (case ctx of
        postureGrounded \<Rightarrow> groundedMotionless
      | postureClimbing \<Rightarrow>
          if axis \<in> {axisSelf, axisParent, axisAncestorOrSelf, axisAncestor} then mkProps postureClimbing sweepMotionless
          else if axis \<in> {axisAttribute, axisNamespace} then mkProps postureStriding sweepMotionless
          else roamingFreeRanging
      | postureStriding \<Rightarrow>
          if axis \<in> {axisParent, axisAncestorOrSelf, axisAncestor} then mkProps postureClimbing sweepMotionless
          else if axis \<in> {axisSelf, axisAttribute, axisNamespace} then mkProps postureStriding sweepMotionless
          else if axis = axisChild then mkProps postureStriding sweepConsuming
          else if axis \<in> {axisDescendant, axisDescendantOrSelf} then
            if selectsElements then mkProps postureCrawling sweepConsuming else mkProps postureStriding sweepConsuming
          else roamingFreeRanging
      | postureCrawling \<Rightarrow>
          if axis \<in> {axisParent, axisAncestorOrSelf, axisAncestor} then mkProps postureClimbing sweepMotionless
          else if axis \<in> {axisAttribute, axisNamespace} then mkProps postureStriding sweepMotionless
          else if axis = axisSelf then
            if selectsElements then mkProps postureCrawling sweepMotionless else mkProps postureStriding sweepMotionless
          else roamingFreeRanging
      | postureRoaming \<Rightarrow> roamingFreeRanging)"

subsection \<open>The semilattice of postures\<close>

instantiation posture :: "{semilattice_sup, order_bot, order_top}"
begin

definition less_eq_posture :: "posture \<Rightarrow> posture \<Rightarrow> bool" where
  "less_eq_posture a b \<longleftrightarrow>
     a = b \<or> a = postureGrounded \<or> b = postureRoaming \<or> a = postureStriding \<and> b = postureCrawling"

definition less_posture :: "posture \<Rightarrow> posture \<Rightarrow> bool" where
  "less_posture a b \<longleftrightarrow> a \<le> b \<and> a \<noteq> b"

definition sup_posture :: "posture \<Rightarrow> posture \<Rightarrow> posture" where
  "sup_posture a b = (if a \<le> b then b else if b \<le> a then a else postureRoaming)"

definition bot_posture :: posture where "bot_posture = postureGrounded"

definition top_posture :: posture where "top_posture = postureRoaming"

instance
proof
  fix x y z :: posture
  show "x < y \<longleftrightarrow> x \<le> y \<and> \<not> y \<le> x" by (auto simp: less_posture_def less_eq_posture_def)
  show "x \<le> x" by (simp add: less_eq_posture_def)
  show "x \<le> y \<Longrightarrow> y \<le> z \<Longrightarrow> x \<le> z" by (auto simp: less_eq_posture_def)
  show "x \<le> y \<Longrightarrow> y \<le> x \<Longrightarrow> x = y" by (auto simp: less_eq_posture_def)
  show "x \<le> sup x y" "y \<le> sup x y" by (auto simp: sup_posture_def less_eq_posture_def)
  show "y \<le> x \<Longrightarrow> z \<le> x \<Longrightarrow> sup y z \<le> x"
    by (cases x; cases y; cases z) (simp_all add: sup_posture_def less_eq_posture_def)
  show "bot \<le> x" by (simp add: bot_posture_def less_eq_posture_def)
  show "x \<le> top" by (simp add: top_posture_def less_eq_posture_def)
qed

end

text \<open>What is seen decides.\<close>

lemma combinedPosture_set:
  "combinedPosture ps =
     (if postureRoaming \<in> set ps \<or> postureClimbing \<in> set ps \<and> (postureStriding \<in> set ps \<or> postureCrawling \<in> set ps)
      then postureRoaming
      else if postureClimbing \<in> set ps then postureClimbing
      else if postureCrawling \<in> set ps then postureCrawling
      else if postureStriding \<in> set ps then postureStriding else postureGrounded)"
proof (cases "postureRoaming \<in> set ps")
  case False
  define seen where "seen = removeAll postureGrounded (remdups ps)"
  have d: "distinct seen" and s: "set seen = set ps - {postureGrounded}" by (simp_all add: seen_def distinct_removeAll)
  have mem: "p \<in> set ps \<longleftrightarrow> p \<in> set seen" if "p \<noteq> postureGrounded" for p using s that by auto
  have nr: "postureRoaming \<notin> set seen" "postureGrounded \<notin> set seen" using s False by auto
  have "combinedPosture ps = (case seen of [] \<Rightarrow> postureGrounded | [p] \<Rightarrow> p
        | _ \<Rightarrow> if length seen = 2 \<and> postureStriding \<in> set seen \<and> postureCrawling \<in> set seen
               then postureCrawling else postureRoaming)"
    unfolding combinedPosture_def if_not_P [OF False] Let_def seen_def [symmetric] ..
  moreover consider "seen = []" | p where "seen = [p]" | p q rs where "seen = p # q # rs"
    by (cases seen rule: remdups_adj.cases) auto
  then show ?thesis
  proof cases
    case 1
    then show ?thesis using calculation False by (simp add: mem)
  next
    case (2 p)
    then show ?thesis using calculation False nr by (cases p) (simp_all add: mem)
  next
    case (3 p q rs)
    then have "p \<noteq> q" and rs: "p \<notin> set rs" "q \<notin> set rs" using d by auto
    then show ?thesis using calculation False nr 3
      by (cases p; cases q; cases rs; cases "hd rs") (auto simp: mem)
  qed
qed (simp add: combinedPosture_def)

lemma combinedPosture_upper: "p \<in> set ps \<Longrightarrow> p \<le> combinedPosture ps"
  unfolding combinedPosture_set by (cases p) (auto simp: less_eq_posture_def)

lemma combinedPosture_least: "(\<And>p. p \<in> set ps \<Longrightarrow> p \<le> q) \<Longrightarrow> combinedPosture ps \<le> q"
  unfolding combinedPosture_set less_eq_posture_def by (cases q) auto

text \<open>The posture of a choice group is the least upper bound of the postures of its members in the
  order grounded, then striding below crawling and beside them climbing, then roaming; the order of the members
  and repetitions do not matter.\<close>

theorem combinedPosture_join:
  "combinedPosture ps = fold sup ps bot \<and> (\<forall>q. combinedPosture ps \<le> q \<longleftrightarrow> (\<forall>p. p \<in> set ps \<longrightarrow> p \<le> q))"
proof
  have ub: "combinedPosture ps \<le> q \<longleftrightarrow> (\<forall>p. p \<in> set ps \<longrightarrow> p \<le> q)" for ps q
    using combinedPosture_upper combinedPosture_least by (meson order_trans)
  have "fold sup ps b \<le> q \<longleftrightarrow> b \<le> q \<and> (\<forall>p. p \<in> set ps \<longrightarrow> p \<le> q)" for b q
    by (induction ps arbitrary: b) auto
  then have "fold sup ps bot \<le> q \<longleftrightarrow> combinedPosture ps \<le> q" for q using ub by auto
  then show "combinedPosture ps = fold sup ps bot" by (meson order_antisym order_refl)
  show "\<forall>q. combinedPosture ps \<le> q \<longleftrightarrow> (\<forall>p. p \<in> set ps \<longrightarrow> p \<le> q)" using ub by blast
qed

theorem combinedPosture_join_witness:
  "combinedPosture [postureStriding, postureGrounded, postureCrawling] = postureCrawling \<and>
   combinedPosture [postureStriding, postureCrawling] \<le> postureCrawling"
  using conjunct2 [OF combinedPosture_join, of "[postureStriding, postureCrawling]"]
  by (simp add: combinedPosture_set less_eq_posture_def)

subsection \<open>The general rules\<close>

lemma wider_max: "wider a b = max a b"
  by (auto simp: wider_def max_def)

lemma foldl_wider:
  "foldl (\<lambda>w o'. wider w (f o')) w xs \<le> s \<longleftrightarrow> w \<le> s \<and> (\<forall>x \<in> set xs. f x \<le> s)"
  by (induction xs arbitrary: w) (auto simp: wider_max)

lemma foldl_wider_upper: "x \<in> set xs \<Longrightarrow> f x \<le> foldl (\<lambda>w o'. wider w (f o')) w xs"
  using foldl_wider [of f w xs "foldl (\<lambda>w o'. wider w (f o')) w xs"] by simp

lemma free_top [simp]: "s \<le> sweepFreeRanging"
  by (cases s) (simp_all add: less_eq_sweep_def)

lemma motionless_bot [simp]: "sweepMotionless \<le> s"
  by (cases s) (simp_all add: less_eq_sweep_def)

lemma le_consuming: "s \<le> sweepConsuming \<longleftrightarrow> s \<noteq> sweepFreeRanging"
  by (cases s) (simp_all add: less_eq_sweep_def)

lemma le_motionless [simp]: "s \<le> sweepMotionless \<longleftrightarrow> s = sweepMotionless"
  by (cases s) (simp_all add: less_eq_sweep_def)

lemma combine_cases:
  assumes "operands \<noteq> []" "\<forall>o' \<in> set operands. adjustedSweep o' \<noteq> sweepFreeRanging"
  obtains "\<forall>o' \<in> set operands. \<not> potentiallyConsuming o'" "combine operands sb = groundedMotionless"
    | o' where "filter potentiallyConsuming operands = [o']" "combine operands sb = combineOne o' sb"
    | c where "c = filter potentiallyConsuming operands" "2 \<le> length c" "combine operands sb = combineMany c"
proof -
  let ?c = "filter potentiallyConsuming operands"
  consider "?c = []" | o' where "?c = [o']" | p q rs where "?c = p # q # rs"
    by (cases ?c rule: remdups_adj.cases) auto
  then show ?thesis
  proof cases
    case 1
    then have "\<forall>o' \<in> set operands. \<not> potentiallyConsuming o'" by (simp add: filter_empty_conv)
    moreover have "combine operands sb = groundedMotionless" using 1 assms by (auto simp: combine_def)
    ultimately show ?thesis by (rule that(1))
  next
    case (2 o')
    moreover have "combine operands sb = combineOne o' sb" using 2 assms by (auto simp: combine_def)
    ultimately show ?thesis by (rule that(2))
  next
    case (3 p q rs)
    moreover have "combine operands sb = combineMany ?c" using 3 assms by (auto simp: combine_def)
    ultimately show ?thesis using that(3) [of ?c] by simp
  qed
qed

lemma not_consuming: "\<not> potentiallyConsuming o' \<Longrightarrow> adjustedSweep o' \<noteq> sweepFreeRanging \<Longrightarrow> adjustedSweep o' = sweepMotionless"
  by (cases "adjustedSweep o'") (auto simp: potentiallyConsuming_def)

lemma combineOne_sweep: "adjustedSweep o' \<noteq> sweepFreeRanging \<Longrightarrow> adjustedSweep o' \<le> sweep_of (combineOne o' sb)"
  by (simp add: combineOne_def roamingFreeRanging_def le_consuming)

lemma combineMany_sweep:
  assumes "x \<in> set c"
  shows "adjustedSweep x \<le> sweep_of (combineMany c)"
  using assms foldl_wider_upper [OF assms, of adjustedSweep sweepMotionless]
  by (auto simp: combineMany_def Let_def roamingFreeRanging_def)

lemma foldl_wider_set_le:
  assumes "set xs \<subseteq> set ys"
  shows "foldl (\<lambda>w o'. wider w (f o')) w xs \<le> foldl (\<lambda>w o'. wider w (f o')) w ys"
proof -
  define F where "F = foldl (\<lambda>w o'. wider w (f o')) w ys"
  have "w \<le> F \<and> (\<forall>x \<in> set ys. f x \<le> F)" using foldl_wider [of f w ys F] by (simp only: F_def order_refl)
  then have "w \<le> F \<and> (\<forall>x \<in> set xs. f x \<le> F)" using assms by blast
  then show ?thesis unfolding F_def [symmetric] foldl_wider .
qed

lemma foldl_wider_set:
  "set xs = set ys \<Longrightarrow> foldl (\<lambda>w o'. wider w (f o')) w xs = foldl (\<lambda>w o'. wider w (f o')) w ys"
  by (rule order_antisym) (simp_all add: foldl_wider_set_le)

lemma const_on: "a \<in> S \<Longrightarrow> b \<in> S \<Longrightarrow> (\<forall>x \<in> S. f x = f a) \<longleftrightarrow> (\<forall>x \<in> S. f x = f b)"
  by metis

lemma combineMany_set:
  assumes "set c = set c'" "c \<noteq> []" "c' \<noteq> []"
  shows "combineMany c = combineMany c'"
proof -
  have h: "hd c \<in> set c" using assms(2) by simp
  have h': "hd c' \<in> set c" unfolding assms(1) using assms(3) by simp
  have p: "set (map (\<lambda>o'. posture_of (oprops o')) c) = set (map (\<lambda>o'. posture_of (oprops o')) c')" by (simp only: set_map assms(1))
  have cp: "combinedPosture (map (\<lambda>o'. posture_of (oprops o')) c) = combinedPosture (map (\<lambda>o'. posture_of (oprops o')) c')"
    unfolding combinedPosture_set p ..
  have ball: "(\<forall>q \<in> set (map (\<lambda>o'. posture_of (oprops o')) d). q = z) \<longleftrightarrow> (\<forall>x \<in> set d. posture_of (oprops x) = z)"
    for d :: "'a operand_scheme list" and z by auto
  have same: "(\<forall>x \<in> set c. posture_of (oprops x) = posture_of (oprops (hd c))) \<longleftrightarrow>
      (\<forall>x \<in> set c. posture_of (oprops x) = posture_of (oprops (hd c')))"
    by (rule const_on [OF h h'])
  have hd: "posture_of (oprops (hd c)) = posture_of (oprops (hd c'))"
    if "\<forall>x \<in> set c. posture_of (oprops x) = posture_of (oprops (hd c'))"
    using bspec [OF that h] .
  show ?thesis unfolding combineMany_def Let_def cp ball foldl_wider_set [OF assms(1)] assms(1) [symmetric] same using hd by (simp only: if_False if_True split: if_splits) blast?
qed

lemma combine_perm:
  assumes "mset xs = mset ys"
  shows "combine xs sb = combine ys sb"
proof -
  have s: "set xs = set ys" using assms by (rule mset_eq_setD)
  have f: "mset (filter potentiallyConsuming xs) = mset (filter potentiallyConsuming ys)" using assms by simp
  note fl = mset_eq_length [OF f] and fs = mset_eq_setD [OF f]
  have e: "xs = [] \<longleftrightarrow> ys = []" using s by auto
  consider "filter potentiallyConsuming xs = []" | x where "filter potentiallyConsuming xs = [x]"
    | p q r where "filter potentiallyConsuming xs = p # q # r"
    by (cases "filter potentiallyConsuming xs" rule: remdups_adj.cases) auto
  then have "(case filter potentiallyConsuming xs of [] \<Rightarrow> groundedMotionless | [o'] \<Rightarrow> combineOne o' sb | c \<Rightarrow> combineMany c) =
    (case filter potentiallyConsuming ys of [] \<Rightarrow> groundedMotionless | [o'] \<Rightarrow> combineOne o' sb | c \<Rightarrow> combineMany c)"
  proof cases
    case 1
    then have "filter potentiallyConsuming ys = []" using f by simp
    then show ?thesis using 1 by simp
  next
    case (2 x)
    have "mset (filter potentiallyConsuming ys) = {#x#}" using f [symmetric] unfolding 2 by (simp del: mset_filter)
    then have "filter potentiallyConsuming ys = [x]" by (simp only: mset_single_iff)
    then show ?thesis using 2 by simp
  next
    case (3 p q r)
    then obtain p' q' r' where y: "filter potentiallyConsuming ys = p' # q' # r'"
      using fl by (cases "filter potentiallyConsuming ys" rule: remdups_adj.cases) auto
    have "combineMany (p # q # r) = combineMany (p' # q' # r')"
      by (rule combineMany_set) (use fs 3 y in simp_all)
    then show ?thesis using 3 y by simp
  qed
  then show ?thesis unfolding combine_def e s by simp
qed

lemma combine_streamable:
  assumes "streamable (combine operands sb)"
  shows "(\<forall>x. x \<in> set operands \<longrightarrow> adjustedSweep x \<noteq> sweepFreeRanging)"
    "(let c = filter potentiallyConsuming operands in
         c = [] \<or> (\<exists>x. c = [x] \<and> \<not> higherOrder x) \<or>
         (\<forall>x. x \<in> set c \<longrightarrow> choiceGroup x) \<or>
         (\<forall>x. x \<in> set c \<longrightarrow> adjustedSweep x = sweepMotionless \<and> posture_of (oprops x) = posture_of (oprops (hd c))))"
proof -
  have ns: "\<not> streamable roamingFreeRanging" by (simp add: streamable_def roamingFreeRanging_def)
  show nf: "\<forall>x. x \<in> set operands \<longrightarrow> adjustedSweep x \<noteq> sweepFreeRanging"
    using assms ns by (auto simp: combine_def split: if_splits)
  show "(let c = filter potentiallyConsuming operands in
         c = [] \<or> (\<exists>x. c = [x] \<and> \<not> higherOrder x) \<or>
         (\<forall>x. x \<in> set c \<longrightarrow> choiceGroup x) \<or>
         (\<forall>x. x \<in> set c \<longrightarrow> adjustedSweep x = sweepMotionless \<and> posture_of (oprops x) = posture_of (oprops (hd c))))"
  proof (cases "operands = []")
    case False
    from False show ?thesis
    proof (rule combine_cases [of operands sb])
      show "\<forall>o' \<in> set operands. adjustedSweep o' \<noteq> sweepFreeRanging" using nf by blast
    next
      assume "\<forall>o' \<in> set operands. \<not> potentiallyConsuming o'"
      then have "filter potentiallyConsuming operands = []" by (simp add: filter_empty_conv)
      then show ?thesis by (simp add: Let_def)
    next
      fix x
      assume x: "filter potentiallyConsuming operands = [x]" "combine operands sb = combineOne x sb"
      then have "\<not> higherOrder x" using assms ns by (auto simp: combineOne_def)
      then show ?thesis using x(1) by (simp add: Let_def)
    next
      fix c
      assume c: "c = filter potentiallyConsuming operands" "combine operands sb = combineMany c"
      then have "(\<forall>x \<in> set c. choiceGroup x) \<or> (\<forall>x \<in> set c. adjustedSweep x = sweepMotionless) \<and>
        (\<forall>p \<in> set (map (\<lambda>o'. posture_of (oprops o')) c). p = posture_of (oprops (hd c)))"
        using assms ns by (auto simp: combineMany_def Let_def split: if_splits)
      then show ?thesis unfolding Let_def c(1) [symmetric] by auto
    qed
  qed simp
qed

lemma combine_sweep:
  assumes "x \<in> set operands"
  shows "adjustedSweep x \<le> sweep_of (combine operands sb)"
proof (cases "\<forall>o' \<in> set operands. adjustedSweep o' \<noteq> sweepFreeRanging")
  case False
  then have "combine operands sb = roamingFreeRanging" using assms by (auto simp: combine_def)
  then show ?thesis by (simp add: roamingFreeRanging_def)
next
  case True
  have ne: "operands \<noteq> []" using assms by auto
  have small: "adjustedSweep x \<le> s" if "\<not> potentiallyConsuming x" for s
    using not_consuming [OF that] True assms by simp
  from ne True show ?thesis
  proof (rule combine_cases [of operands sb])
    assume "\<forall>o' \<in> set operands. \<not> potentiallyConsuming o'"
    then show ?thesis using small assms by blast
  next
    fix y
    assume y: "filter potentiallyConsuming operands = [y]" "combine operands sb = combineOne y sb"
    show ?thesis
    proof (cases "potentiallyConsuming x")
      case True
      then have "x \<in> set (filter potentiallyConsuming operands)" using assms by simp
      then have "x = y" unfolding y(1) by simp
      then show ?thesis using y(2) combineOne_sweep \<open>\<forall>o' \<in> set operands. adjustedSweep o' \<noteq> sweepFreeRanging\<close> assms by simp
    qed (rule small)
  next
    fix c
    assume c: "c = filter potentiallyConsuming operands" "combine operands sb = combineMany c"
    show ?thesis
    proof (cases "potentiallyConsuming x")
      case True
      then show ?thesis using c assms combineMany_sweep [of x c] by simp
    qed (rule small)
  qed
qed

text \<open>C24: The general streamability rules are conservative. The construct's sweep is at least the adjusted
  sweep of every operand; a construct that may be streamed has no free-ranging operand, and either at most
  one operand that may read the stream, never one evaluated repeatedly, or several that are alternatives, or several
  of one posture that do not move. The result does not depend on the order of the operands.\<close>

theorem combine_conservative:
  "(o' \<in> set operands \<longrightarrow> adjustedSweep o' \<le> sweep_of (combine operands sb)) \<and>
   (streamable (combine operands sb) \<longrightarrow>
      (\<forall>x. x \<in> set operands \<longrightarrow> adjustedSweep x \<noteq> sweepFreeRanging) \<and>
      (let c = filter potentiallyConsuming operands in
         c = [] \<or> (\<exists>x. c = [x] \<and> \<not> higherOrder x) \<or>
         (\<forall>x. x \<in> set c \<longrightarrow> choiceGroup x) \<or>
         (\<forall>x. x \<in> set c \<longrightarrow> adjustedSweep x = sweepMotionless \<and> posture_of (oprops x) = posture_of (oprops (hd c))))) \<and>
   (mset operands = mset operands' \<longrightarrow> combine operands sb = combine operands' sb)"
  using combine_sweep combine_streamable combine_perm by blast

theorem combine_conservative_witness:
  "streamable (combine [\<lparr>oprops = mkProps postureStriding sweepMotionless, ousage = usageAbsorption, allowsChildren = True,
      higherOrder = False, choiceGroup = False, streamedGrounded = False\<rparr>] False) \<and>
   sweepConsuming \<le> sweep_of (combine [\<lparr>oprops = mkProps postureStriding sweepMotionless, ousage = usageAbsorption,
      allowsChildren = True, higherOrder = False, choiceGroup = False, streamedGrounded = False\<rparr>] False)"
proof -
  let ?x = "\<lparr>oprops = mkProps postureStriding sweepMotionless, ousage = usageAbsorption, allowsChildren = True,
      higherOrder = False, choiceGroup = False, streamedGrounded = False\<rparr>"
  have "streamable (combine [?x] False)" by code_simp
  moreover have "adjustedSweep ?x = sweepConsuming" by code_simp
  ultimately show ?thesis using conjunct1 [OF combine_conservative, of ?x "[?x]" False] by simp
qed

text \<open>The pair of the two judgements does not always travel together: a free-ranging construct is always
  roaming, but alternatives of irreconcilable postures come out roaming and not free-ranging. The test for
  streamability looks at both and refuses them.\<close>

theorem roaming_without_free_ranging:
  "\<exists>a b. combine [a, b] False = \<lparr>posture_of = postureRoaming, sweep_of = sweepConsuming\<rparr> \<and>
     \<not> streamable (combine [a, b] False)"
proof -
  let ?a = "\<lparr>oprops = mkProps postureClimbing sweepMotionless, ousage = usageTransmission, allowsChildren = True,
      higherOrder = False, choiceGroup = True, streamedGrounded = False\<rparr>"
  let ?b = "\<lparr>oprops = mkProps postureStriding sweepConsuming, ousage = usageTransmission, allowsChildren = True,
      higherOrder = False, choiceGroup = True, streamedGrounded = False\<rparr>"
  have "combine [?a, ?b] False = \<lparr>posture_of = postureRoaming, sweep_of = sweepConsuming\<rparr> \<and>
    \<not> streamable (combine [?a, ?b] False)" by code_simp
  then show ?thesis by blast
qed

end
