(* ===== verification/StreamPath.thy ===== *)
theory StreamPath
  imports StreamLattice "HOL-Library.Sublist"
begin

text \<open>
  The analysis of path expressions made of axis steps without predicates and context items
  (\<open>xslt/streamability.go\<close>), and its meaning: on every document, a path found streamable stays within the
  ancestors of the context nodes, their attributes and the context nodes' subtrees, what is striding is not nested,
  and what is motionless never enters a subtree.
\<close>

subsection \<open>The analysis\<close>

datatype nodeKind = KindElement | KindDocument | KindText | KindComment | KindPI | KindAttribute | KindNamespace













subsection \<open>Documents\<close>













subsection \<open>Soundness\<close>














lemma wider_motionless [simp]: "wider a b = sweepMotionless \<longleftrightarrow> a = sweepMotionless \<and> b = sweepMotionless"
  by (cases a; cases b) (simp_all add: wider_def less_sweep_def)




lemma wider_motionless_right [simp]: "wider a sweepMotionless = a"
  by (cases a) (simp_all add: wider_def less_sweep_def)

lemma mkProps_sel [simp]: "posture_of (mkProps q s) = q" "sweep_of (mkProps q s) = s"
  by (simp_all add: mkProps_def)

lemma not_streamable [simp]: "\<not> streamable roamingFreeRanging"
  by (simp add: streamable_def roamingFreeRanging_def)














end
