(* ===== verification/XsdModel.thy ===== *)
theory XsdModel
  imports RngPattern
begin

text \<open>
  XML Schema particles and their compilation to a position automaton with counters
  (\<open>xsd/component.go\<close>, \<open>xsd/automaton.go\<close>). Model groups are shared and may reach
  themselves, so a particle refers to a group by its index in a list of groups. The sets the compiler keeps
  per scope are lists here, of which only membership is used.
\<close>

subsection \<open>Components\<close>

datatype elementDecl = ElementDecl (edName: qname) (edAbstract: bool) (substitutable: "elementDecl list")

datatype namespaceKind = NSAny | NSNot | NSEnumerated

record wildcard =
  Kind :: namespaceKind
  Namespace :: "string list"
  ExcludesAbsent :: bool
  DisallowedNames :: "qname list"
  DisallowDefined :: bool
  DisallowDefinedSibling :: bool
  siblingNames :: "qname list"

definition Allows :: "wildcard \<Rightarrow> string \<Rightarrow> bool" where
  "Allows w ns =
     (case Kind w of
        NSAny \<Rightarrow> True
      | NSNot \<Rightarrow> if ns = [] then \<not> ExcludesAbsent w else ns \<notin> set (Namespace w)
      | NSEnumerated \<Rightarrow> ns \<in> set (Namespace w))"

definition Disallows :: "wildcard \<Rightarrow> qname \<Rightarrow> (qname \<Rightarrow> bool) option \<Rightarrow> bool" where
  "Disallows w name defined \<longleftrightarrow>
     name \<in> set (DisallowedNames w) \<or>
     (DisallowDefined w \<and> (case defined of Some f \<Rightarrow> f name | None \<Rightarrow> False)) \<or>
     (DisallowDefinedSibling w \<and> name \<in> set (siblingNames w))"

definition AllowsName :: "wildcard \<Rightarrow> qname \<Rightarrow> (qname \<Rightarrow> bool) option \<Rightarrow> bool" where
  "AllowsName w name defined \<longleftrightarrow> Allows w (quri name) \<and> \<not> Disallows w name defined"

datatype xterm = ElemTerm elementDecl | WildTerm wildcard | GroupTerm nat | NilTerm

text \<open>An unbounded maximum is \<open>-1\<close>.\<close>

datatype particle = Particle (MinOccurs: int) (MaxOccurs: int) (TermOf: xterm)

definition Unbounded :: int where "Unbounded = -1"

datatype compositor = CompositorSequence | CompositorChoice | CompositorAll

datatype modelGroup = ModelGroup (Compositor: compositor) (Particles: "particle list")

subsection \<open>The automaton\<close>

record counter =
  cmin :: int
  cmax :: int
  cparent :: "nat option"
  emptiable :: bool

record position =
  pterm :: xterm
  pparticle :: particle
  pcounters :: "nat list"

record contentModel =
  maxPositions :: nat
  positions :: "position list"
  firstPos :: "nat list"
  follow :: "nat list list"
  lastPos :: "nat list"
  cmNullable :: bool
  counters :: "counter list"
  scopeFirst :: "nat list list"
  scopeLast :: "nat list list"
  scopeInner :: "(nat \<times> nat) list list"
  edges :: "(nat \<times> nat) list"

record frag =
  ffirst :: "nat list"
  flast :: "nat list"
  fnullable :: bool

datatype compileError = TooManyPositions | RecursiveModel

text \<open>The scopes containing a scope, outermost first. A parent is always an earlier counter; the walk stops
  where that fails.\<close>

function counterChain :: "counter list \<Rightarrow> nat option \<Rightarrow> nat list" where
  "counterChain cs scope =
     (case scope of
        None \<Rightarrow> []
      | Some i \<Rightarrow>
          (case cparent (cs ! i) of
             None \<Rightarrow> [i]
           | Some p \<Rightarrow> if p < i then counterChain cs (Some p) @ [i] else [i]))"
  by pat_completeness auto
termination
  by (relation "measure (\<lambda>(cs, scope). case scope of None \<Rightarrow> 0 | Some i \<Rightarrow> i)") auto

declare counterChain.simps [simp del]

fun dedupAppend :: "nat list \<Rightarrow> nat list \<Rightarrow> nat list" where
  "dedupAppend existing [] = existing"
| "dedupAppend existing (t # ts) = dedupAppend (if t \<in> set existing then existing else existing @ [t]) ts"

definition addFollow :: "contentModel \<Rightarrow> nat \<Rightarrow> nat list \<Rightarrow> contentModel" where
  "addFollow m from to =
     m\<lparr>edges := edges m @ map (\<lambda>t. (from, t)) to,
       follow := (follow m)[from := dedupAppend (follow m ! from) to]\<rparr>"

definition addFollows :: "contentModel \<Rightarrow> nat list \<Rightarrow> nat list \<Rightarrow> contentModel" where
  "addFollows m ls to = foldl (\<lambda>m l. addFollow m l to) m ls"

definition openScope :: "contentModel \<Rightarrow> particle \<Rightarrow> nat option \<Rightarrow> contentModel" where
  "openScope m p enclosing =
     m\<lparr>counters := counters m @ [\<lparr>cmin = MinOccurs p, cmax = MaxOccurs p, cparent = enclosing, emptiable = False\<rparr>],
       scopeFirst := scopeFirst m @ [[]], scopeLast := scopeLast m @ [[]], scopeInner := scopeInner m @ [[]]\<rparr>"

definition addPosition :: "contentModel \<Rightarrow> particle \<Rightarrow> nat option \<Rightarrow> contentModel" where
  "addPosition m p scope =
     m\<lparr>positions := positions m @ [\<lparr>pterm = TermOf p, pparticle = p, pcounters = counterChain (counters m) scope\<rparr>],
       follow := follow m @ [[]]\<rparr>"

text \<open>What is recorded once the body of a scope is built.\<close>

definition closeScope :: "contentModel \<Rightarrow> nat \<Rightarrow> nat \<Rightarrow> frag \<Rightarrow> contentModel" where
  "closeScope m scope mark inner =
     m\<lparr>counters := (counters m)[scope := (counters m ! scope)\<lparr>emptiable := fnullable inner\<rparr>],
       scopeFirst := (scopeFirst m)[scope := ffirst inner],
       scopeLast := (scopeLast m)[scope := flast inner],
       scopeInner := (scopeInner m)[scope := drop mark (edges m)]\<rparr>"

definition finishParticle :: "contentModel \<Rightarrow> particle \<Rightarrow> bool \<Rightarrow> nat \<Rightarrow> nat \<Rightarrow> frag \<Rightarrow> frag \<times> contentModel" where
  "finishParticle m p scoped scope mark inner =
     (let m = (if scoped then closeScope m scope mark inner else m);
          m = (if MaxOccurs p = Unbounded \<or> MaxOccurs p > 1 then addFollows m (flast inner) (ffirst inner) else m) in
      (if MinOccurs p = 0 then inner\<lparr>fnullable := True\<rparr> else inner, m))"

subsection \<open>All groups\<close>

definition allGroupOf :: "modelGroup list \<Rightarrow> particle \<Rightarrow> nat option" where
  "allGroupOf G p =
     (if MinOccurs p > 1 \<or> MaxOccurs p \<noteq> 1 then None
      else
        case TermOf p of
          GroupTerm g \<Rightarrow> if g < length G \<and> Compositor (G ! g) = CompositorAll then Some g else None
        | _ \<Rightarrow> None)"

definition unseen :: "modelGroup list \<Rightarrow> nat list \<Rightarrow> nat" where
  "unseen G seen = card ({..<length G} - set seen)"

lemma unseen_less: "g < length G \<Longrightarrow> g \<notin> set seen \<Longrightarrow> unseen G (g # seen) < unseen G seen"
  unfolding unseen_def by (rule psubset_card_mono) auto

function flattenAllSeen :: "modelGroup list \<Rightarrow> nat \<Rightarrow> nat list \<Rightarrow> particle list"
and flattenParticles :: "modelGroup list \<Rightarrow> particle list \<Rightarrow> nat list \<Rightarrow> particle list" where
  "flattenAllSeen G g seen =
     (if g \<in> set seen \<or> \<not> g < length G then []
      else if \<forall>p \<in> set (Particles (G ! g)). allGroupOf G p = None then Particles (G ! g)
      else flattenParticles G (Particles (G ! g)) (g # seen))"
| "flattenParticles G [] seen = []"
| "flattenParticles G (p # ps) seen =
     (case allGroupOf G p of
        Some inner \<Rightarrow> flattenAllSeen G inner seen
      | None \<Rightarrow> [p]) @ flattenParticles G ps seen"
  by pat_completeness auto
termination
proof (relation "inv_image (less_than <*lex*> less_than)
    (\<lambda>x. case x of Inl (G, g, seen) \<Rightarrow> (unseen G seen, 0) | Inr (G, ps, seen) \<Rightarrow> (unseen G seen, 1 + length ps))",
    goal_cases)
  case (2 G g seen)
  then show ?case using unseen_less [of g G seen] by auto
qed auto

definition flattenAll :: "modelGroup list \<Rightarrow> nat \<Rightarrow> particle list" where
  "flattenAll G g = flattenAllSeen G g []"

fun buildAllLoop :: "contentModel \<Rightarrow> particle list \<Rightarrow> nat option \<Rightarrow> frag \<Rightarrow> compileError + frag \<times> contentModel" where
  "buildAllLoop m [] scope out = Inr (out, m)"
| "buildAllLoop m (p # ps) scope out =
     (if length (positions m) \<ge> maxPositions m then Inl TooManyPositions
      else
        let idx = length (positions m) in
        buildAllLoop (addPosition m p scope) ps scope
          (out\<lparr>ffirst := ffirst out @ [idx], flast := flast out @ [idx],
               fnullable := (if MinOccurs p > 0 then False else fnullable out)\<rparr>))"

definition buildAll :: "modelGroup list \<Rightarrow> contentModel \<Rightarrow> nat \<Rightarrow> nat option \<Rightarrow> compileError + frag \<times> contentModel" where
  "buildAll G m g scope = buildAllLoop m (flattenAll G g) scope \<lparr>ffirst = [], flast = [], fnullable = True\<rparr>"

subsection \<open>Building\<close>

text \<open>The groups being built are passed down as \<open>active\<close>. Every recursive call is on a smaller particle
  list, or enters a group that was not active.\<close>

definition emptyFrag :: "bool \<Rightarrow> frag" where
  "emptyFrag b = \<lparr>ffirst = [], flast = [], fnullable = b\<rparr>"

definition seqFrag :: "frag \<Rightarrow> frag \<Rightarrow> frag" where
  "seqFrag out f =
     \<lparr>ffirst = (if fnullable out then ffirst out @ ffirst f else ffirst out),
      flast = (if fnullable f then flast out @ flast f else flast f),
      fnullable = fnullable out \<and> fnullable f\<rparr>"

definition choiceFrag :: "frag \<Rightarrow> frag \<Rightarrow> frag" where
  "choiceFrag out f =
     \<lparr>ffirst = ffirst out @ ffirst f, flast = flast out @ flast f, fnullable = fnullable out \<or> fnullable f\<rparr>"

function build :: "modelGroup list \<Rightarrow> nat list \<Rightarrow> contentModel \<Rightarrow> particle \<Rightarrow> nat option \<Rightarrow> compileError + frag \<times> contentModel"
and buildSequence :: "modelGroup list \<Rightarrow> nat list \<Rightarrow> contentModel \<Rightarrow> particle list \<Rightarrow> nat option \<Rightarrow> frag
     \<Rightarrow> compileError + frag \<times> contentModel"
and buildChoice :: "modelGroup list \<Rightarrow> nat list \<Rightarrow> contentModel \<Rightarrow> particle list \<Rightarrow> nat option \<Rightarrow> frag
     \<Rightarrow> compileError + frag \<times> contentModel" where
  "build G active m p enclosing =
     (let scoped = (MinOccurs p \<noteq> 1 \<or> MaxOccurs p \<noteq> 1);
          m1 = (if scoped then openScope m p enclosing else m);
          k = length (counters m);
          scope = (if scoped then Some k else enclosing);
          mark = length (edges m1) in
      case TermOf p of
        NilTerm \<Rightarrow> Inr (emptyFrag True, m1)
      | GroupTerm g \<Rightarrow>
          if g \<in> set active then Inl RecursiveModel
          else if \<not> g < length G then Inr (emptyFrag True, m1)
          else
            bindE
              (case Compositor (G ! g) of
                 CompositorSequence \<Rightarrow> buildSequence G (g # active) m1 (Particles (G ! g)) scope (emptyFrag True)
               | CompositorChoice \<Rightarrow> buildChoice G (g # active) m1 (Particles (G ! g)) scope (emptyFrag False)
               | CompositorAll \<Rightarrow> buildAll G m1 g scope)
              (\<lambda>(inner, m2). Inr (finishParticle m2 p scoped k mark inner))
      | _ \<Rightarrow>
          if length (positions m1) \<ge> maxPositions m1 then Inl TooManyPositions
          else
            let idx = length (positions m1) in
            Inr (finishParticle (addPosition m1 p scope) p scoped k mark
                   \<lparr>ffirst = [idx], flast = [idx], fnullable = False\<rparr>))"
| "buildSequence G active m [] scope out = Inr (out, m)"
| "buildSequence G active m (p # ps) scope out =
     bindE (build G active m p scope) (\<lambda>(f, m').
       buildSequence G active (addFollows m' (flast out) (ffirst f)) ps scope (seqFrag out f))"
| "buildChoice G active m [] scope out = Inr (out, m)"
| "buildChoice G active m (p # ps) scope out =
     bindE (build G active m p scope) (\<lambda>(f, m'). buildChoice G active m' ps scope (choiceFrag out f))"
  by pat_completeness auto
termination build
proof (relation "inv_image (less_than <*lex*> less_than)
    (\<lambda>x. case x of
       Inl (G, active, m, p, enclosing) \<Rightarrow> (unseen G active, 0)
     | Inr (Inl (G, active, m, ps, scope, out)) \<Rightarrow> (unseen G active, 1 + length ps)
     | Inr (Inr (G, active, m, ps, scope, out)) \<Rightarrow> (unseen G active, 1 + length ps))", goal_cases)
qed (auto simp: unseen_less)

definition bindSiblings :: "contentModel \<Rightarrow> contentModel" where
  "bindSiblings m =
     (let isSib = (\<lambda>pos. case pterm pos of WildTerm w \<Rightarrow> DisallowDefinedSibling w | _ \<Rightarrow> False);
          names = concat (map (\<lambda>pos. case pterm pos of
                      ElemTerm d \<Rightarrow> edName d # map edName (substitutable d) | _ \<Rightarrow> []) (positions m)) in
      if \<exists>pos \<in> set (positions m). isSib pos then
        m\<lparr>positions := map (\<lambda>pos. case pterm pos of
             WildTerm w \<Rightarrow> if DisallowDefinedSibling w then pos\<lparr>pterm := WildTerm (w\<lparr>siblingNames := names\<rparr>)\<rparr> else pos
           | _ \<Rightarrow> pos) (positions m)\<rparr>
      else m)"

definition DefaultMaxContentModelPositions :: nat where "DefaultMaxContentModelPositions = 8192"

definition emptyModel :: "nat \<Rightarrow> contentModel" where
  "emptyModel limit =
     \<lparr>maxPositions = limit, positions = [], firstPos = [], follow = [], lastPos = [], cmNullable = False, counters = [],
      scopeFirst = [], scopeLast = [], scopeInner = [], edges = []\<rparr>"

definition compileContentModel :: "modelGroup list \<Rightarrow> particle option \<Rightarrow> int \<Rightarrow> compileError + contentModel" where
  "compileContentModel G po limit =
     (let m = emptyModel (if limit \<le> 0 then DefaultMaxContentModelPositions else nat limit) in
      case po of
        None \<Rightarrow> Inr (m\<lparr>cmNullable := True\<rparr>)
      | Some p \<Rightarrow>
          bindE (build G [] m p None) (\<lambda>(f, m).
            Inr ((bindSiblings (m\<lparr>firstPos := ffirst f, lastPos := flast f, cmNullable := fnullable f\<rparr>))\<lparr>edges := []\<rparr>)))"

text \<open>\<open>matches\<close> of a position.\<close>

definition posMatches :: "position \<Rightarrow> qname \<Rightarrow> (qname \<Rightarrow> bool) option \<Rightarrow> bool" where
  "posMatches p name defined =
     (case pterm p of
        ElemTerm d \<Rightarrow> edName d = name \<or> (\<exists>sub \<in> set (substitutable d). edName sub = name \<and> \<not> edAbstract sub)
      | WildTerm w \<Rightarrow> AllowsName w name defined
      | _ \<Rightarrow> False)"

definition resolveDecl :: "position \<Rightarrow> qname \<Rightarrow> elementDecl option" where
  "resolveDecl p name =
     (case pterm p of
        ElemTerm d \<Rightarrow> if edName d = name then Some d else find (\<lambda>sub. edName sub = name) (substitutable d)
      | _ \<Rightarrow> None)"

end
