(* ===== verification/XsdMatch.thy ===== *)
theory XsdMatch
  imports XsdModel
begin

text \<open>
  Matching a sequence of names against a compiled content model (\<open>xsd/nfa.go\<close>,
  \<open>xsd/seqmatch.go\<close>): the set of states reached, a state being a position with a vector of counts. The Go
  code packs a vector into a string of bytes, keeps a hash table beside the ordered list of states and
  reuses buffers; a vector is a list here, cut at 254 as the packing does.
\<close>

subsection \<open>Counts\<close>

definition encodeCounts :: "int list \<Rightarrow> int list" where
  "encodeCounts counts = map (\<lambda>c. if c > 254 then 254 else c) counts"

definition reachable :: "contentModel \<Rightarrow> int \<Rightarrow> int list" where
  "reachable m n = map (\<lambda>c. if cmax c \<noteq> Unbounded \<and> cmax c \<le> n then cmax c else Unbounded) (counters m)"

definition capCount :: "counter \<Rightarrow> int \<Rightarrow> int \<Rightarrow> int" where
  "capCount c reach n =
     (if reach = Unbounded then (if n > cmin c then cmin c + 1 else n)
      else if n > reach then reach else n)"

text \<open>A state: the position last matched, if any, and the counts.\<close>

type_synonym matchState = "nat option \<times> int list"

definition addState :: "matchState list \<Rightarrow> matchState \<Rightarrow> matchState list" where
  "addState s st = (if st \<in> set s then s else s @ [st])"

definition initialStates :: "contentModel \<Rightarrow> matchState list" where
  "initialStates m = [(None, encodeCounts (replicate (length (counters m)) 0))]"

definition enterScopes :: "contentModel \<Rightarrow> int list \<Rightarrow> nat list \<Rightarrow> int list \<Rightarrow> int list" where
  "enterScopes m reach cs v = foldl (\<lambda>v c. v[c := capCount (counters m ! c) (reach ! c) 1]) v cs"

definition enterCounts :: "contentModel \<Rightarrow> int list \<Rightarrow> nat \<Rightarrow> int list" where
  "enterCounts m reach to = enterScopes m reach (pcounters (positions m ! to)) (replicate (length (counters m)) 0)"

definition satisfied :: "counter \<Rightarrow> int \<Rightarrow> bool" where
  "satisfied c n \<longleftrightarrow> n \<ge> cmin c \<or> emptiable c"

fun leaveScopes :: "contentModel \<Rightarrow> nat list \<Rightarrow> int list \<Rightarrow> int list option" where
  "leaveScopes m [] v = Some v"
| "leaveScopes m (c # cs) v =
     (if \<not> satisfied (counters m ! c) (v ! c) then None else leaveScopes m cs (v[c := 0]))"

fun sharedPrefix :: "nat list \<Rightarrow> nat list \<Rightarrow> nat" where
  "sharedPrefix (a # as) (b # bs) = (if a = b then Suc (sharedPrefix as bs) else 0)"
| "sharedPrefix _ _ = 0"

definition pushVec :: "int list list \<Rightarrow> int list \<Rightarrow> int list list" where
  "pushVec out v = (if v \<in> set out then out else out @ [v])"

text \<open>One reading of a step: \<open>k\<close> is the shared scope that restarts, or their number when none does.\<close>

definition stepReading :: "contentModel \<Rightarrow> int list \<Rightarrow> nat \<Rightarrow> nat \<Rightarrow> int list \<Rightarrow> nat \<Rightarrow> int list option" where
  "stepReading m reach from to cur k =
     (let a = pcounters (positions m ! from); b = pcounters (positions m ! to); shared = sharedPrefix a b in
      if k = shared then
        (if shared > 0 \<and> (from, to) \<notin> set (scopeInner m ! (a ! (shared - 1))) then None
         else map_option (enterScopes m reach (drop shared b)) (leaveScopes m (drop shared a) cur))
      else
        let c = a ! k in
        if from \<notin> set (scopeLast m ! c) \<or> to \<notin> set (scopeFirst m ! c) then None
        else if reach ! c \<noteq> Unbounded \<and> cur ! c \<ge> reach ! c then None
        else
          map_option
            (\<lambda>v. enterScopes m reach (drop (k + 1) b)
                   ((foldl (\<lambda>v i. v[i := 0]) v (drop (k + 1) b))[c := capCount (counters m ! c) (reach ! c) (cur ! c + 1)]))
            (leaveScopes m (drop (k + 1) a) cur))"

definition stepCounts :: "contentModel \<Rightarrow> int list \<Rightarrow> nat \<Rightarrow> nat \<Rightarrow> int list \<Rightarrow> int list list" where
  "stepCounts m reach from to cur =
     foldl (\<lambda>out k. case stepReading m reach from to cur k of None \<Rightarrow> out | Some v \<Rightarrow> pushVec out v) []
       [0..<Suc (sharedPrefix (pcounters (positions m ! from)) (pcounters (positions m ! to)))]"

definition accepting :: "contentModel \<Rightarrow> matchState \<Rightarrow> bool" where
  "accepting m st =
     (case st of
        (None, _) \<Rightarrow> cmNullable m
      | (Some pos, counts) \<Rightarrow>
          pos \<in> set (lastPos m) \<and>
          (\<forall>c \<in> set (pcounters (positions m ! pos)). satisfied (counters m ! c) (counts ! c)))"

definition candidates :: "contentModel \<Rightarrow> matchState \<Rightarrow> nat list" where
  "candidates m st = (case fst st of None \<Rightarrow> firstPos m | Some pos \<Rightarrow> follow m ! pos)"

subsection \<open>The walk\<close>

text \<open>The states reached from one state by one child at one position.\<close>

definition moveTo :: "contentModel \<Rightarrow> int list \<Rightarrow> matchState \<Rightarrow> nat \<Rightarrow> matchState list" where
  "moveTo m reach st pos =
     (case st of
        (None, _) \<Rightarrow> [(Some pos, encodeCounts (enterCounts m reach pos))]
      | (Some from, cur) \<Rightarrow> map (\<lambda>v. (Some pos, encodeCounts v)) (stepCounts m reach from pos cur))"

definition nextStates :: "contentModel \<Rightarrow> (nat \<Rightarrow> bool) \<Rightarrow> int list \<Rightarrow> matchState list \<Rightarrow> matchState list" where
  "nextStates m ok reach states =
     foldl addState []
       (concat (map (\<lambda>st. concat (map (\<lambda>pos. if ok pos then moveTo m reach st pos else []) (candidates m st))) states))"

text \<open>The answer: whether it matched, where it stopped, and whether the state budget was exceeded.\<close>

type_synonym matchResult = "bool \<times> nat \<times> bool"

fun matchLoop :: "contentModel \<Rightarrow> (nat \<Rightarrow> nat \<Rightarrow> bool) \<Rightarrow> nat \<Rightarrow> int list \<Rightarrow> nat \<Rightarrow> nat \<Rightarrow> matchState list \<Rightarrow> matchResult" where
  "matchLoop m mt budget reach i 0 states = (if list_ex (accepting m) states then (True, 0, False) else (False, i, False))"
| "matchLoop m mt budget reach i (Suc left) states =
     (let next = nextStates m (mt i) reach states in
      if next = [] then (False, i, False)
      else if length next > budget then (False, i, True)
      else matchLoop m mt budget reach (Suc i) left next)"

definition matchNames :: "contentModel \<Rightarrow> (nat \<Rightarrow> nat \<Rightarrow> bool) \<Rightarrow> nat \<Rightarrow> nat \<Rightarrow> matchResult" where
  "matchNames m mt n budget =
     (if positions m = [] then (n = 0, 0, False)
      else matchLoop m mt budget (reachable m (int n)) 0 n (initialStates m))"

definition DefaultMaxMatchStates :: nat where "DefaultMaxMatchStates = 4096"

definition NewSequenceMatcher :: "modelGroup list \<Rightarrow> particle \<Rightarrow> compileError + contentModel" where
  "NewSequenceMatcher G p = compileContentModel G (Some p) 0"

definition sequenceMatch :: "contentModel \<Rightarrow> qname list \<Rightarrow> bool \<times> nat" where
  "sequenceMatch m names =
     (case matchNames m (\<lambda>i pos. posMatches (positions m ! pos) (names ! i) None) (length names) DefaultMaxMatchStates of
        (ok, at, err) \<Rightarrow> if err then (False, at) else (ok, at))"

end
