(* ===== verification/Glushkov.thy ===== *)
theory Glushkov
  imports Prelude
begin

text \<open>
  Words of positions and their composition: the language of a set of first positions, a set of last positions
  and a set of edges, and what sequence, choice and repetition do to it when the parts share no position.
\<close>

definition chain :: "('a \<times> 'a) set \<Rightarrow> 'a list \<Rightarrow> bool" where
  "chain E w \<longleftrightarrow> successively (\<lambda>a b. (a, b) \<in> E) w"

definition pathLang :: "'a set \<Rightarrow> 'a set \<Rightarrow> bool \<Rightarrow> ('a \<times> 'a) set \<Rightarrow> 'a list set" where
  "pathLang F L nul E = {w. w = [] \<and> nul \<or> w \<noteq> [] \<and> hd w \<in> F \<and> last w \<in> L \<and> chain E w}"

lemma chain_append:
  "chain E (u @ v) \<longleftrightarrow> chain E u \<and> chain E v \<and> (u \<noteq> [] \<and> v \<noteq> [] \<longrightarrow> (last u, hd v) \<in> E)"
  by (auto simp: chain_def successively_append_iff)

lemma chain_mono: "chain E w \<Longrightarrow> E \<subseteq> E' \<Longrightarrow> chain E' w"
  unfolding chain_def by (erule successively_mono) auto

lemma chain_simps [simp]: "chain E []" "chain E [a]" "chain E (a # b # w) \<longleftrightarrow> (a, b) \<in> E \<and> chain E (b # w)"
  by (simp_all add: chain_def)

lemma chain_support:
  "chain E w \<Longrightarrow> w \<noteq> [] \<Longrightarrow> hd w \<in> X \<Longrightarrow> E \<subseteq> X \<times> X \<Longrightarrow> set w \<subseteq> X"
  by (induction w rule: induct_list012) auto

text \<open>A walk that starts among the positions of one part leaves it only by an edge that does.\<close>

lemma chain_within:
  "chain (E1 \<union> E2) w \<Longrightarrow> w \<noteq> [] \<Longrightarrow> hd w \<in> X \<Longrightarrow> E1 \<subseteq> X \<times> X \<Longrightarrow> E2 \<inter> X \<times> UNIV = {} \<Longrightarrow> chain E1 w \<and> set w \<subseteq> X"
  by (induction w rule: induct_list012) auto

lemma pathLang_choice:
  assumes "E1 \<subseteq> X1 \<times> X1" "E2 \<subseteq> X2 \<times> X2" "F1 \<union> L1 \<subseteq> X1" "F2 \<union> L2 \<subseteq> X2" "X1 \<inter> X2 = {}"
  shows "pathLang (F1 \<union> F2) (L1 \<union> L2) (n1 \<or> n2) (E1 \<union> E2) = pathLang F1 L1 n1 E1 \<union> pathLang F2 L2 n2 E2"
proof
  show "pathLang F1 L1 n1 E1 \<union> pathLang F2 L2 n2 E2 \<subseteq> pathLang (F1 \<union> F2) (L1 \<union> L2) (n1 \<or> n2) (E1 \<union> E2)"
    unfolding pathLang_def by (auto intro: chain_mono)
  show "pathLang (F1 \<union> F2) (L1 \<union> L2) (n1 \<or> n2) (E1 \<union> E2) \<subseteq> pathLang F1 L1 n1 E1 \<union> pathLang F2 L2 n2 E2"
  proof
    fix w assume w: "w \<in> pathLang (F1 \<union> F2) (L1 \<union> L2) (n1 \<or> n2) (E1 \<union> E2)"
    show "w \<in> pathLang F1 L1 n1 E1 \<union> pathLang F2 L2 n2 E2"
    proof (cases "w = []")
      case True
      then show ?thesis using w by (auto simp: pathLang_def)
    next
      case False
      then have c: "chain (E1 \<union> E2) w" "hd w \<in> F1 \<or> hd w \<in> F2" "last w \<in> L1 \<or> last w \<in> L2" "last w \<in> set w"
        using w by (auto simp: pathLang_def)
      from c(2) show ?thesis
      proof
        assume h: "hd w \<in> F1"
        have "chain E1 w \<and> set w \<subseteq> X1"
          by (rule chain_within [OF c(1) False]) (use h assms in auto)
        then have "chain E1 w" "last w \<in> X1" using c(4) by auto
        then show ?thesis using c h False assms by (auto simp: pathLang_def)
      next
        assume h: "hd w \<in> F2"
        have "chain E2 w \<and> set w \<subseteq> X2"
          by (rule chain_within [of E2 E1]) (use h assms c(1) False in \<open>auto simp: Un_commute\<close>)
        then have "chain E2 w" "last w \<in> X2" using c(4) by auto
        then show ?thesis using c h False assms by (auto simp: pathLang_def)
      qed
    qed
  qed
qed

definition concatLang :: "'a list set \<Rightarrow> 'a list set \<Rightarrow> 'a list set" where
  "concatLang A B = {u @ v |u v. u \<in> A \<and> v \<in> B}"

lemma chain_split:
  assumes "chain (E1 \<union> E2 \<union> L1 \<times> F2) w" "w \<noteq> []" "hd w \<in> X1" "E1 \<subseteq> X1 \<times> X1" "E2 \<subseteq> X2 \<times> X2" "F2 \<subseteq> X2" "L1 \<subseteq> X1" "X1 \<inter> X2 = {}"
  shows "chain E1 w \<and> set w \<subseteq> X1 \<or>
    (\<exists>u v. w = u @ v \<and> u \<noteq> [] \<and> v \<noteq> [] \<and> chain E1 u \<and> set u \<subseteq> X1 \<and> last u \<in> L1 \<and> hd v \<in> F2 \<and> chain E2 v \<and> set v \<subseteq> X2)"
  using assms
proof (induction w rule: induct_list012)
  case (3 a b w)
  have ab: "(a, b) \<in> E1 \<union> E2 \<union> L1 \<times> F2" and cw: "chain (E1 \<union> E2 \<union> L1 \<times> F2) (b # w)" using "3.prems"(1) by simp_all
  have aX: "a \<in> X1" using "3.prems"(3) by simp
  then have "(a, b) \<notin> E2" using "3.prems"(5,8) by auto
  then consider "(a, b) \<in> E1" | "a \<in> L1" "b \<in> F2" using ab by auto
  then show ?case
  proof cases
    case 1
    then have bX: "hd (b # w) \<in> X1" using "3.prems"(4) by auto
    have "b # w \<noteq> []" by simp
    from "3.IH"(2) [OF cw this bX "3.prems"(4-8)] show ?thesis
    proof (elim disjE exE conjE, goal_cases)
      case 1
      then show ?case using \<open>(a, b) \<in> E1\<close> aX by auto
    next
      case (2 u v)
      then have "u \<noteq> [] \<and> hd u = b" by (cases u) auto
      then have "chain E1 (a # u)" using 2 \<open>(a, b) \<in> E1\<close> by (cases u) auto
      then show ?case using 2 aX by (intro disjI2 exI [of _ "a # u"] exI [of _ v]) auto
    qed
  next
    case 2
    have "chain (E2 \<union> (E1 \<union> L1 \<times> F2)) (b # w)" using cw by (simp add: Un_ac)
    then have "chain E2 (b # w) \<and> set (b # w) \<subseteq> X2"
      by (rule chain_within) (use 2 "3.prems"(4-8) in auto)
    then show ?thesis using 2 aX by (intro disjI2 exI [of _ "[a]"] exI [of _ "b # w"]) auto
  qed
qed auto

lemma pathLang_seq:
  assumes "E1 \<subseteq> X1 \<times> X1" "E2 \<subseteq> X2 \<times> X2" "F1 \<union> L1 \<subseteq> X1" "F2 \<union> L2 \<subseteq> X2" "X1 \<inter> X2 = {}"
  shows "pathLang (if n1 then F1 \<union> F2 else F1) (if n2 then L1 \<union> L2 else L2) (n1 \<and> n2) (E1 \<union> E2 \<union> L1 \<times> F2) =
    concatLang (pathLang F1 L1 n1 E1) (pathLang F2 L2 n2 E2)" (is "?S = ?C")
proof
  show "?C \<subseteq> ?S"
  proof
    fix w assume "w \<in> ?C"
    then obtain u v where w: "w = u @ v" "u \<in> pathLang F1 L1 n1 E1" "v \<in> pathLang F2 L2 n2 E2"
      by (auto simp: concatLang_def)
    have u: "u = [] \<and> n1 \<or> u \<noteq> [] \<and> hd u \<in> F1 \<and> last u \<in> L1 \<and> chain (E1 \<union> E2 \<union> L1 \<times> F2) u"
      and v: "v = [] \<and> n2 \<or> v \<noteq> [] \<and> hd v \<in> F2 \<and> last v \<in> L2 \<and> chain (E1 \<union> E2 \<union> L1 \<times> F2) v"
      using w chain_mono [of E1 u "E1 \<union> E2 \<union> L1 \<times> F2"] chain_mono [of E2 v "E1 \<union> E2 \<union> L1 \<times> F2"]
      by (auto simp: pathLang_def)
    show "w \<in> ?S"
      using u v unfolding w(1) pathLang_def by (cases "u = []"; cases "v = []") (auto simp: chain_append)
  qed
  show "?S \<subseteq> ?C"
  proof
    fix w assume w: "w \<in> ?S"
    show "w \<in> ?C"
    proof (cases "w = []")
      case True
      then show ?thesis using w by (auto simp: concatLang_def pathLang_def)
    next
      case False
      have c: "chain (E1 \<union> E2 \<union> L1 \<times> F2) w" "hd w \<in> (if n1 then F1 \<union> F2 else F1)" "last w \<in> (if n2 then L1 \<union> L2 else L2)"
        using w False by (auto simp: pathLang_def)
      have lw: "last w \<in> set w" using False by simp
      show ?thesis
      proof (cases "hd w \<in> F1")
        case True
        then have "hd w \<in> X1" "L1 \<subseteq> X1" "F2 \<subseteq> X2" using assms by auto
        from chain_split [OF c(1) False this(1) assms(1,2) this(3,2) assms(5)] show ?thesis
        proof (elim disjE exE conjE, goal_cases)
          case 1
          then have "last w \<in> L1 \<and> n2" using c(3) lw assms by (auto split: if_splits)
          then have "w \<in> pathLang F1 L1 n1 E1" "[] \<in> pathLang F2 L2 n2 E2" using 1 False True by (auto simp: pathLang_def)
          then show ?case unfolding concatLang_def by force
        next
          case (2 u v)
          then have "last v \<in> X2" by (metis last_in_set subsetD)
          then have "last v \<in> L2" using c(3) 2 assms by (auto split: if_splits)
          then have "u \<in> pathLang F1 L1 n1 E1" "v \<in> pathLang F2 L2 n2 E2" using 2 True by (auto simp: pathLang_def)
          then show ?case using 2 unfolding concatLang_def by blast
        qed
      next
        case nF: False
        then have h: "hd w \<in> F2" n1 using c(2) by (auto split: if_splits)
        have "chain (E2 \<union> (E1 \<union> L1 \<times> F2)) w" using c(1) by (simp add: Un_ac)
        then have "chain E2 w \<and> set w \<subseteq> X2"
          by (rule chain_within) (use False h assms in auto)
        moreover from this have "last w \<in> L2" using lw c(3) assms by (auto split: if_splits)
        ultimately have "[] \<in> pathLang F1 L1 n1 E1" "w \<in> pathLang F2 L2 n2 E2" using h False by (auto simp: pathLang_def)
        then show ?thesis unfolding concatLang_def by force
      qed
    qed
  qed
qed

text \<open>One or more rounds.\<close>

lemma pathLang_plus:
  assumes "E \<subseteq> X \<times> X" "F \<union> L \<subseteq> X"
  shows "pathLang F L nul (E \<union> L \<times> F) = {concat ws |ws. ws \<noteq> [] \<and> (\<forall>w \<in> set ws. w \<in> pathLang F L nul E)}"
  (is "?S = ?C")
proof
  show "?C \<subseteq> ?S"
  proof
    fix w assume "w \<in> ?C"
    then obtain ws where ws: "w = concat ws" "ws \<noteq> []" "\<forall>w \<in> set ws. w \<in> pathLang F L nul E" by blast
    from ws(2,3) have "concat ws \<in> ?S"
    proof (induction ws rule: list_nonempty_induct)
      case (single w)
      then show ?case using chain_mono [of E w "E \<union> L \<times> F"] by (auto simp: pathLang_def)
    next
      case (cons w ws)
      define v where "v = concat ws"
      have "v \<in> ?S" "w \<in> pathLang F L nul E" using cons unfolding v_def by auto
      then have "w @ v \<in> ?S" using chain_mono [of E w "E \<union> L \<times> F"]
        by (cases "w = []"; cases "v = []") (auto simp: pathLang_def chain_append)
      then show ?case by (simp add: v_def)
    qed
    then show "w \<in> ?S" using ws by simp
  qed
  have split: "w \<noteq> [] \<Longrightarrow> chain (E \<union> L \<times> F) w \<Longrightarrow> hd w \<in> F \<Longrightarrow> last w \<in> L \<Longrightarrow> w \<in> ?C" for w
  proof (induction "length w" arbitrary: w rule: less_induct)
    case less
    show ?case
    proof (cases "chain E w")
      case True
      then have "w \<in> pathLang F L nul E" using less.prems by (simp add: pathLang_def)
      then show ?thesis by (intro CollectI exI [of _ "[w]"]) auto
    next
      case False
      have "\<exists>u v. w = u @ v \<and> u \<noteq> [] \<and> v \<noteq> [] \<and> chain E u \<and> last u \<in> L \<and> hd v \<in> F"
        using less.prems(1,2) False
      proof (induction w rule: induct_list012)
        case (3 a b w)
        show ?case
        proof (cases "(a, b) \<in> E")
          case True
          then have "\<not> chain E (b # w)" "chain (E \<union> L \<times> F) (b # w)" using "3.prems" by auto
          then obtain u v where uv: "b # w = u @ v" "u \<noteq> []" "v \<noteq> []" "chain E u" "last u \<in> L" "hd v \<in> F"
            using "3.IH"(2) by auto
          then have "hd u = b" by (cases u) auto
          then have "chain E (a # u)" using uv(2,4) True by (cases u) auto
          then show ?thesis using uv by (intro exI [of _ "a # u"] exI [of _ v]) auto
        next
          case False
          then have "a \<in> L" "b \<in> F" using "3.prems"(2) by auto
          then show ?thesis by (intro exI [of _ "[a]"] exI [of _ "b # w"]) auto
        qed
      qed auto
      then obtain u v where uv: "w = u @ v" "u \<noteq> []" "v \<noteq> []" "chain E u" "last u \<in> L" "hd v \<in> F" by blast
      then have u: "u \<in> pathLang F L nul E" using less.prems(3) by (simp add: pathLang_def)
      have "v \<in> ?C" using less.hyps [of v] uv less.prems(2,4) by (auto simp: chain_append)
      then obtain vs where "v = concat vs" "\<forall>w \<in> set vs. w \<in> pathLang F L nul E" by blast
      then show ?thesis using u uv(1) by (intro CollectI exI [of _ "u # vs"]) auto
    qed
  qed
  show "?S \<subseteq> ?C"
  proof
    fix w assume w: "w \<in> ?S"
    show "w \<in> ?C"
    proof (cases "w = []")
      case True
      then show ?thesis using w by (intro CollectI exI [of _ "[[]]"]) (auto simp: pathLang_def)
    next
      case False
      then show ?thesis using w split by (auto simp: pathLang_def)
    qed
  qed
qed

end
