(* ===== verification/XsdLang.thy ===== *)
theory XsdLang
  imports XsdMatch Glushkov
begin

text \<open>
  What a particle means, and what the compiler builds for one. The language of a particle is the set of name
  sequences that can be cut into between the minimum and the maximum number of parts each of which its term
  admits. The compiled fragment of every particle whose bounds are those a DTD can write denotes exactly
  that language, and every edge it lays down has a reading that the counters allow.
\<close>

subsection \<open>The language of a particle\<close>

definition elemMatches :: "elementDecl \<Rightarrow> qname \<Rightarrow> bool" where
  "elemMatches d x \<longleftrightarrow> edName d = x \<or> (\<exists>sub \<in> set (substitutable d). edName sub = x \<and> \<not> edAbstract sub)"

inductive partLang :: "modelGroup list \<Rightarrow> particle \<Rightarrow> qname list \<Rightarrow> bool"
and termLang :: "modelGroup list \<Rightarrow> xterm \<Rightarrow> qname list \<Rightarrow> bool"
and seqLang :: "modelGroup list \<Rightarrow> particle list \<Rightarrow> qname list \<Rightarrow> bool" for G where
  occurs: "(\<forall>w \<in> set ws. termLang G (TermOf p) w) \<Longrightarrow> MinOccurs p \<le> int (length ws) \<Longrightarrow>
     MaxOccurs p = Unbounded \<or> int (length ws) \<le> MaxOccurs p \<Longrightarrow> partLang G p (concat ws)"
| elem: "elemMatches d x \<Longrightarrow> termLang G (ElemTerm d) [x]"
| wild: "AllowsName w x None \<Longrightarrow> termLang G (WildTerm w) [x]"
| seqGroup: "g < length G \<Longrightarrow> Compositor (G ! g) = CompositorSequence \<Longrightarrow> seqLang G (Particles (G ! g)) w \<Longrightarrow>
     termLang G (GroupTerm g) w"
| choiceGroup: "g < length G \<Longrightarrow> Compositor (G ! g) = CompositorChoice \<Longrightarrow> p \<in> set (Particles (G ! g)) \<Longrightarrow>
     partLang G p w \<Longrightarrow> termLang G (GroupTerm g) w"
| seqNil: "seqLang G [] []"
| seqCons: "partLang G p u \<Longrightarrow> seqLang G ps v \<Longrightarrow> seqLang G (p # ps) (u @ v)"

inductive_cases partLangE: "partLang G p w"
inductive_cases elemLangE: "termLang G (ElemTerm d) w"
inductive_cases wildLangE: "termLang G (WildTerm v) w"
inductive_cases groupLangE: "termLang G (GroupTerm g) w"
inductive_cases seqNilE: "seqLang G [] w"
inductive_cases seqConsE: "seqLang G (p # ps) w"

lemma partLang_iff:
  "partLang G p w \<longleftrightarrow> (\<exists>ws. w = concat ws \<and> (\<forall>u \<in> set ws. termLang G (TermOf p) u) \<and> MinOccurs p \<le> int (length ws) \<and>
     (MaxOccurs p = Unbounded \<or> int (length ws) \<le> MaxOccurs p))"
  by (auto elim!: partLangE intro: partLang_termLang_seqLang.occurs)

lemma termLang_elem: "termLang G (ElemTerm d) w \<longleftrightarrow> (\<exists>x. w = [x] \<and> elemMatches d x)"
  by (auto elim: elemLangE intro: partLang_termLang_seqLang.elem)

lemma termLang_wild: "termLang G (WildTerm v) w \<longleftrightarrow> (\<exists>x. w = [x] \<and> AllowsName v x None)"
  by (auto elim: wildLangE intro: partLang_termLang_seqLang.wild)

lemma termLang_seq:
  "g < length G \<Longrightarrow> Compositor (G ! g) = CompositorSequence \<Longrightarrow> termLang G (GroupTerm g) w \<longleftrightarrow> seqLang G (Particles (G ! g)) w"
  by (auto elim: groupLangE intro: partLang_termLang_seqLang.seqGroup)

lemma termLang_choice:
  "g < length G \<Longrightarrow> Compositor (G ! g) = CompositorChoice \<Longrightarrow>
     termLang G (GroupTerm g) w \<longleftrightarrow> (\<exists>p \<in> set (Particles (G ! g)). partLang G p w)"
  by (auto elim: groupLangE intro: partLang_termLang_seqLang.choiceGroup)

lemma seqLang_Nil: "seqLang G [] w \<longleftrightarrow> w = []"
  by (auto elim: seqNilE intro: partLang_termLang_seqLang.seqNil)

lemma seqLang_Cons: "{w. seqLang G (p # ps) w} = concatLang {w. partLang G p w} {w. seqLang G ps w}"
proof -
  have "seqLang G (p # ps) w \<longleftrightarrow> (\<exists>u v. w = u @ v \<and> partLang G p u \<and> seqLang G ps v)" for w
  proof
    show "seqLang G (p # ps) w \<Longrightarrow> \<exists>u v. w = u @ v \<and> partLang G p u \<and> seqLang G ps v"
      by (erule seqConsE) blast
    show "\<exists>u v. w = u @ v \<and> partLang G p u \<and> seqLang G ps v \<Longrightarrow> seqLang G (p # ps) w"
      using partLang_termLang_seqLang.seqCons by blast
  qed
  then show ?thesis unfolding concatLang_def by auto
qed

definition plusLang :: "'a list set \<Rightarrow> 'a list set" where
  "plusLang A = {concat ws |ws. ws \<noteq> [] \<and> (\<forall>w \<in> set ws. w \<in> A)}"

definition dtdBounds :: "particle \<Rightarrow> bool" where
  "dtdBounds p \<longleftrightarrow> (MinOccurs p = 1 \<or> MinOccurs p = 0) \<and> (MaxOccurs p = 1 \<or> MaxOccurs p = Unbounded)"

text \<open>The bounds of a DTD: once, at most once, at least once, any number.\<close>

lemma partLang_dtd:
  assumes "dtdBounds p"
  shows "{w. partLang G p w} =
    (let A = {w. termLang G (TermOf p) w}; B = (if MaxOccurs p = Unbounded then plusLang A else A) in
     if MinOccurs p = 0 then insert [] B else B)"
proof -
  have one: "(\<exists>ws. w = concat ws \<and> (\<forall>u \<in> set ws. termLang G (TermOf p) u) \<and> length ws = 1) \<longleftrightarrow> termLang G (TermOf p) w" for w
    by (auto simp: length_Suc_conv intro!: exI [of _ "[w]"])
  have le: "int (length ws) \<le> 1 \<longleftrightarrow> ws = [] \<or> length ws = 1" "1 \<le> int (length ws) \<longleftrightarrow> ws \<noteq> []" for ws :: "qname list list"
    by (cases ws; auto)+
  consider "MinOccurs p = 1" "MaxOccurs p = 1" | "MinOccurs p = 1" "MaxOccurs p = Unbounded"
    | "MinOccurs p = 0" "MaxOccurs p = 1" | "MinOccurs p = 0" "MaxOccurs p = Unbounded"
    using assms by (auto simp: dtdBounds_def)
  then show ?thesis
  proof cases
    case 1
    have "partLang G p w \<longleftrightarrow> termLang G (TermOf p) w" for w
      unfolding partLang_iff using one [of w] 1 le by (auto simp: Unbounded_def)
    then show ?thesis using 1 by (simp add: Unbounded_def)
  next
    case 2
    have "partLang G p w \<longleftrightarrow> w \<in> plusLang {w. termLang G (TermOf p) w}" for w
      unfolding partLang_iff plusLang_def using 2 le by auto
    then show ?thesis using 2 by auto
  next
    case 3
    have "partLang G p w \<longleftrightarrow> w = [] \<or> termLang G (TermOf p) w" for w
    proof
      assume "partLang G p w"
      then obtain ws where ws: "w = concat ws" "\<forall>u \<in> set ws. termLang G (TermOf p) u" "int (length ws) \<le> 1"
        unfolding partLang_iff using 3 by (auto simp: Unbounded_def)
      then have "ws = [] \<or> length ws = 1" using le(1) by blast
      then show "w = [] \<or> termLang G (TermOf p) w" using ws by (auto simp: length_Suc_conv)
    next
      assume "w = [] \<or> termLang G (TermOf p) w"
      then show "partLang G p w"
      proof
        assume "w = []"
        then show ?thesis unfolding partLang_iff using 3 by (intro exI [of _ "[]"]) simp
      next
        assume "termLang G (TermOf p) w"
        then show ?thesis unfolding partLang_iff using 3 by (intro exI [of _ "[w]"]) simp
      qed
    qed
    then show ?thesis using 3 by (auto simp: Unbounded_def)
  next
    case 4
    have "partLang G p w \<longleftrightarrow> w = [] \<or> w \<in> plusLang {w. termLang G (TermOf p) w}" for w
    proof -
      have "partLang G p w \<longleftrightarrow> (\<exists>ws. w = concat ws \<and> (\<forall>u \<in> set ws. termLang G (TermOf p) u))"
        unfolding partLang_iff using 4 by simp
      also have "\<dots> \<longleftrightarrow> w = [] \<or> (\<exists>ws. ws \<noteq> [] \<and> w = concat ws \<and> (\<forall>u \<in> set ws. termLang G (TermOf p) u))"
      proof
        assume "\<exists>ws. w = concat ws \<and> (\<forall>u \<in> set ws. termLang G (TermOf p) u)"
        then obtain ws where "w = concat ws" "\<forall>u \<in> set ws. termLang G (TermOf p) u" by blast
        then show "w = [] \<or> (\<exists>ws. ws \<noteq> [] \<and> w = concat ws \<and> (\<forall>u \<in> set ws. termLang G (TermOf p) u))"
          by (cases "ws = []") auto
      next
        assume "w = [] \<or> (\<exists>ws. ws \<noteq> [] \<and> w = concat ws \<and> (\<forall>u \<in> set ws. termLang G (TermOf p) u))"
        then show "\<exists>ws. w = concat ws \<and> (\<forall>u \<in> set ws. termLang G (TermOf p) u)"
          by (metis concat.simps(1) empty_iff empty_set)
      qed
      finally show ?thesis unfolding plusLang_def by auto
    qed
    then show ?thesis using 4 by auto
  qed
qed

subsection \<open>Words of positions and names\<close>

definition nameLang :: "position list \<Rightarrow> nat list set \<Rightarrow> qname list set" where
  "nameLang ps W = {u. \<exists>w \<in> W. list_all2 (\<lambda>i x. posMatches (ps ! i) x None) w u}"

lemma nameLang_concat: "nameLang ps (concatLang A B) = concatLang (nameLang ps A) (nameLang ps B)"
proof
  show "nameLang ps (concatLang A B) \<subseteq> concatLang (nameLang ps A) (nameLang ps B)"
    unfolding nameLang_def concatLang_def by (fastforce simp: list_all2_append1)
  show "concatLang (nameLang ps A) (nameLang ps B) \<subseteq> nameLang ps (concatLang A B)"
  proof
    fix x assume "x \<in> concatLang (nameLang ps A) (nameLang ps B)"
    then obtain u v a b where "x = u @ v" "a \<in> A" "b \<in> B" "list_all2 (\<lambda>i x. posMatches (ps ! i) x None) a u"
      "list_all2 (\<lambda>i x. posMatches (ps ! i) x None) b v" by (auto simp: concatLang_def nameLang_def)
    then show "x \<in> nameLang ps (concatLang A B)"
      unfolding nameLang_def concatLang_def by (blast intro: list_all2_appendI)
  qed
qed

lemma nameLang_union: "nameLang ps (A \<union> B) = nameLang ps A \<union> nameLang ps B"
  by (auto simp: nameLang_def)

lemma nameLang_insert_Nil: "nameLang ps (insert [] A) = insert [] (nameLang ps A)"
  by (auto simp: nameLang_def)

lemma nameLang_plus: "nameLang ps (plusLang A) = plusLang (nameLang ps A)"
proof
  let ?R = "\<lambda>i x. posMatches (ps ! i) x None"
  have "ws \<noteq> [] \<Longrightarrow> \<forall>w \<in> set ws. w \<in> A \<Longrightarrow> list_all2 ?R (concat ws) u \<Longrightarrow> u \<in> plusLang (nameLang ps A)" for ws u
  proof (induction ws arbitrary: u rule: list_nonempty_induct)
    case (single w)
    then show ?case unfolding plusLang_def nameLang_def by (intro CollectI exI [of _ "[u]"]) auto
  next
    case (cons w ws)
    then obtain u1 u2 where u: "u = u1 @ u2" "list_all2 ?R w u1" "list_all2 ?R (concat ws) u2"
      by (auto simp: list_all2_append1)
    then have "u2 \<in> plusLang (nameLang ps A)" using cons by auto
    then obtain us where "u2 = concat us" "\<forall>w \<in> set us. w \<in> nameLang ps A" by (auto simp: plusLang_def)
    moreover have "u1 \<in> nameLang ps A" using u(2) cons.prems(1) by (auto simp: nameLang_def)
    ultimately show ?case unfolding plusLang_def using u(1) by (intro CollectI exI [of _ "u1 # us"]) auto
  qed
  then show "nameLang ps (plusLang A) \<subseteq> plusLang (nameLang ps A)"
    by (auto simp: nameLang_def plusLang_def)
  have "us \<noteq> [] \<Longrightarrow> \<forall>u \<in> set us. u \<in> nameLang ps A \<Longrightarrow> concat us \<in> nameLang ps (plusLang A)" for us
  proof (induction us rule: list_nonempty_induct)
    case (single u)
    then obtain w where "w \<in> A" "list_all2 ?R w u" by (auto simp: nameLang_def)
    then show ?case unfolding nameLang_def plusLang_def by (auto intro!: exI [of _ "[w]"])
  next
    case (cons u us)
    then obtain w where w: "w \<in> A" "list_all2 ?R w u" by (auto simp: nameLang_def)
    have "concat us \<in> nameLang ps (plusLang A)" using cons by auto
    then obtain ws where "ws \<noteq> []" "\<forall>w \<in> set ws. w \<in> A" "list_all2 ?R (concat ws) (concat us)"
      by (auto simp: nameLang_def plusLang_def)
    then have "concat (w # ws) \<in> plusLang A" "list_all2 ?R (concat (w # ws)) (concat (u # us))"
      using w list_all2_appendI unfolding plusLang_def by (auto intro!: exI [of _ "w # ws"])
    then show ?case unfolding nameLang_def by blast
  qed
  then show "plusLang (nameLang ps A) \<subseteq> nameLang ps (plusLang A)" unfolding plusLang_def by blast
qed

lemma nameLang_append:
  assumes "\<And>w. w \<in> W \<Longrightarrow> \<forall>i \<in> set w. i < length ps"
  shows "nameLang (ps @ qs) W = nameLang ps W"
proof -
  have "list_all2 (\<lambda>i x. posMatches ((ps @ qs) ! i) x None) w u \<longleftrightarrow> list_all2 (\<lambda>i x. posMatches (ps ! i) x None) w u" if "w \<in> W" for w u
    by (rule list.rel_cong) (use assms [OF that] in \<open>auto simp: nth_append\<close>)
  then show ?thesis unfolding nameLang_def by blast
qed

end
