(* ===== verification/XsdBuild.thy ===== *)
theory XsdBuild
  imports XsdLang
begin

text \<open>
  The invariant of the compiler: what a call adds to the model denotes the language of the particle built.
\<close>

subsection \<open>Chains of scopes\<close>

lemma chain_stable:
  "(\<And>c. c < n \<Longrightarrow> cparent (cs ! c) = cparent (cs' ! c)) \<Longrightarrow> (case scope of None \<Rightarrow> True | Some k \<Rightarrow> k < n) \<Longrightarrow>
   counterChain cs scope = counterChain cs' scope"
proof (induction cs scope rule: counterChain.induct)
  case (1 cs scope)
  show ?case
  proof (cases scope)
    case None
    then show ?thesis by (simp add: counterChain.simps)
  next
    case (Some i)
    then have i: "i < n" "cparent (cs ! i) = cparent (cs' ! i)" using 1(2,3) by auto
    have "counterChain cs (Some p) = counterChain cs' (Some p)" if "cparent (cs ! i) = Some p" "p < i" for p
      using 1(1) [OF Some that(1)] 1(2) i(1) that by auto
    then show ?thesis using i(2) Some
      by (subst (1 2) counterChain.simps) (auto split: option.splits)
  qed
qed

definition parentsOk :: "counter list \<Rightarrow> bool" where
  "parentsOk cs \<longleftrightarrow> (\<forall>c < length cs. case cparent (cs ! c) of None \<Rightarrow> True | Some q \<Rightarrow> q < c)"

lemma chain_range:
  "parentsOk cs \<Longrightarrow> k < length cs \<Longrightarrow> set (counterChain cs (Some k)) \<subseteq> {..k} \<and> distinct (counterChain cs (Some k))"
proof (induction k rule: less_induct)
  case (less k)
  show ?case
  proof (cases "cparent (cs ! k)")
    case None
    then show ?thesis by (simp add: counterChain.simps)
  next
    case (Some q)
    then have q: "q < k" using less.prems by (auto simp: parentsOk_def split: option.splits)
    have ih: "set (counterChain cs (Some q)) \<subseteq> {..q} \<and> distinct (counterChain cs (Some q))"
      using less.IH [OF q] less.prems q by auto
    have "counterChain cs (Some k) = counterChain cs (Some q) @ [k]"
      using Some q by (subst counterChain.simps) simp
    then show ?thesis using ih q by auto
  qed
qed

definition encOk :: "contentModel \<Rightarrow> nat option \<Rightarrow> bool" where
  "encOk m enc \<longleftrightarrow> (case enc of None \<Rightarrow> True | Some k \<Rightarrow> k < length (counters m))"

lemma chain_bound:
  "parentsOk (counters m) \<Longrightarrow> encOk m enc \<Longrightarrow>
   set (counterChain (counters m) enc) \<subseteq> {..<length (counters m)} \<and> distinct (counterChain (counters m) enc)"
  using chain_range [of "counters m"] by (cases enc) (fastforce simp: encOk_def counterChain.simps)+

subsection \<open>Shared scopes\<close>

lemma sharedPrefix_append: "sharedPrefix (a @ s) (a @ t) = length a + sharedPrefix s t"
  by (induction a) auto

lemma sharedPrefix_disjoint: "set s \<inter> set t = {} \<Longrightarrow> sharedPrefix s t = 0"
  by (cases s; cases t) auto

lemma sharedPrefix_le: "sharedPrefix a b \<le> length a" "sharedPrefix a b \<le> length b"
  by (induction a b rule: sharedPrefix.induct) auto

lemma sharedPrefix_nth: "k < sharedPrefix a b \<Longrightarrow> a ! k = b ! k"
  by (induction a b arbitrary: k rule: sharedPrefix.induct) (auto simp: nth_Cons split: nat.splits if_splits)

lemma sharedPrefix_take: "take (sharedPrefix a b) a = take (sharedPrefix a b) b"
  by (induction a b rule: sharedPrefix.induct) auto

subsection \<open>The invariant\<close>

definition pc :: "contentModel \<Rightarrow> nat \<Rightarrow> nat list" where
  "pc m i = pcounters (positions m ! i)"

text \<open>An edge has a reading: it restarts an unbounded scope, or it lies within the innermost scope shared.\<close>

definition edgeOK :: "contentModel \<Rightarrow> nat \<Rightarrow> nat \<Rightarrow> bool" where
  "edgeOK m i j \<longleftrightarrow>
     (\<exists>n < sharedPrefix (pc m i) (pc m j). let c = pc m i ! n in
        i \<in> set (scopeLast m ! c) \<and> j \<in> set (scopeFirst m ! c) \<and> cmax (counters m ! c) = Unbounded) \<or>
     sharedPrefix (pc m i) (pc m j) = 0 \<or>
     (i, j) \<in> set (scopeInner m ! (pc m i ! (sharedPrefix (pc m i) (pc m j) - 1)))"

definition wfM :: "contentModel \<Rightarrow> bool" where
  "wfM m \<longleftrightarrow>
     length (scopeFirst m) = length (counters m) \<and> length (scopeLast m) = length (counters m) \<and>
     length (scopeInner m) = length (counters m) \<and> length (follow m) = length (positions m) \<and>
     (\<forall>i < length (positions m). set (follow m ! i) = {j. (i, j) \<in> set (edges m)}) \<and>
     set (edges m) \<subseteq> {..<length (positions m)} \<times> {..<length (positions m)} \<and>
     (\<forall>i < length (positions m). set (pc m i) \<subseteq> {..<length (counters m)} \<and> distinct (pc m i)) \<and>
     parentsOk (counters m)"

definition grown :: "contentModel \<Rightarrow> contentModel \<Rightarrow> bool" where
  "grown m m' \<longleftrightarrow>
     (\<exists>ps. positions m' = positions m @ ps) \<and> (\<exists>es. edges m' = edges m @ es) \<and>
     length (counters m) \<le> length (counters m') \<and>
     (\<forall>c < length (counters m). counters m' ! c = counters m ! c \<and> scopeFirst m' ! c = scopeFirst m ! c \<and>
        scopeLast m' ! c = scopeLast m ! c \<and> scopeInner m' ! c = scopeInner m ! c)"

definition newE :: "contentModel \<Rightarrow> contentModel \<Rightarrow> (nat \<times> nat) set" where
  "newE m m' = set (drop (length (edges m)) (edges m'))"

definition newX :: "contentModel \<Rightarrow> contentModel \<Rightarrow> nat set" where
  "newX m m' = {length (positions m)..<length (positions m')}"

definition newC :: "contentModel \<Rightarrow> contentModel \<Rightarrow> nat set" where
  "newC m m' = {length (counters m)..<length (counters m')}"

definition dtdCounter :: "counter \<Rightarrow> bool" where
  "dtdCounter c \<longleftrightarrow> (cmin c = 1 \<or> cmin c = 0) \<and> (cmax c = 1 \<or> cmax c = Unbounded)"

definition scopedIn :: "contentModel \<Rightarrow> contentModel \<Rightarrow> nat option \<Rightarrow> nat \<Rightarrow> bool" where
  "scopedIn m m' enc i \<longleftrightarrow>
     (\<exists>s. pc m' i = counterChain (counters m) enc @ s \<and> set s \<subseteq> newC m m')"

definition fragLang :: "contentModel \<Rightarrow> frag \<Rightarrow> (nat \<times> nat) set \<Rightarrow> nat list set" where
  "fragLang m f E = pathLang (set (ffirst f)) (set (flast f)) (fnullable f) E"

definition built :: "contentModel \<Rightarrow> contentModel \<Rightarrow> frag \<Rightarrow> qname list set \<Rightarrow> nat option \<Rightarrow> bool" where
  "built m m' f A enc \<longleftrightarrow>
     grown m m' \<and> wfM m' \<and> newE m m' \<subseteq> newX m m' \<times> newX m m' \<and>
     set (ffirst f) \<union> set (flast f) \<subseteq> newX m m' \<and>
     nameLang (positions m') (fragLang m' f (newE m m')) = A \<and>
     (\<forall>i \<in> newX m m'. scopedIn m m' enc i) \<and>
     (\<forall>(i, j) \<in> newE m m'. edgeOK m' i j \<or> sharedPrefix (pc m' i) (pc m' j) = length (counterChain (counters m) enc)) \<and>
     (newX m m' = {} \<longrightarrow> fnullable f) \<and> (\<forall>c \<in> newC m m'. dtdCounter (counters m' ! c))"

lemma grown_refl [simp]: "grown m m"
  by (simp add: grown_def)

lemma grown_trans: "grown a b \<Longrightarrow> grown b c \<Longrightarrow> grown a c"
  unfolding grown_def by (elim conjE exE) (auto intro: le_less_trans)

lemma grown_pc: "grown m m' \<Longrightarrow> i < length (positions m) \<Longrightarrow> pc m' i = pc m i"
  by (auto simp: grown_def pc_def nth_append)

lemma grown_chain: "grown m m' \<Longrightarrow> encOk m enc \<Longrightarrow> counterChain (counters m') enc = counterChain (counters m) enc"
  by (rule chain_stable [of "length (counters m)"]) (auto simp: grown_def encOk_def)

lemma grown_enc: "grown m m' \<Longrightarrow> encOk m enc \<Longrightarrow> encOk m' enc"
  by (auto simp: grown_def encOk_def split: option.splits)

text \<open>An edge keeps its reading while the model grows.\<close>

lemma edgeOK_grown:
  assumes "grown m m'" "wfM m" "i < length (positions m)" "j < length (positions m)" "edgeOK m i j"
  shows "edgeOK m' i j"
proof -
  have pcs: "pc m' i = pc m i" "pc m' j = pc m j" using grown_pc [OF assms(1)] assms(3,4) by simp_all
  have r: "pc m i ! n < length (counters m)" if "n < length (pc m i)" for n
    using assms(2,3) nth_mem [OF that] unfolding wfM_def by blast
  have same: "counters m' ! c = counters m ! c \<and> scopeFirst m' ! c = scopeFirst m ! c \<and>
      scopeLast m' ! c = scopeLast m ! c \<and> scopeInner m' ! c = scopeInner m ! c" if "c < length (counters m)" for c
    using assms(1) that by (simp add: grown_def)
  let ?s = "sharedPrefix (pc m i) (pc m j)"
  have le: "?s \<le> length (pc m i)" by (rule sharedPrefix_le)
  have e: "scopeInner m' ! (pc m i ! (?s - 1)) = scopeInner m ! (pc m i ! (?s - 1))" if "?s \<noteq> 0"
    using same [OF r [of "?s - 1"]] le that by simp
  have g: "scopeLast m' ! (pc m i ! n) = scopeLast m ! (pc m i ! n) \<and> scopeFirst m' ! (pc m i ! n) = scopeFirst m ! (pc m i ! n) \<and>
      counters m' ! (pc m i ! n) = counters m ! (pc m i ! n)" if "n < ?s" for n
    using same [OF r [of n]] le that by simp
  show ?thesis using assms(5) unfolding edgeOK_def pcs Let_def
  proof (elim disjE exE conjE, goal_cases)
    case (1 n)
    then show ?case using g [of n] by (intro disjI1 exI [of _ n]) simp
  next
    case 2
    then show ?case by simp
  next
    case 3
    then show ?case using e by (cases "?s = 0") simp_all
  qed
qed

subsection \<open>Adding edges\<close>

lemma set_dedupAppend: "set (dedupAppend xs ts) = set xs \<union> set ts"
  by (induction xs ts rule: dedupAppend.induct) auto

lemma addFollow_sel [simp]:
  "positions (addFollow m i to) = positions m" "counters (addFollow m i to) = counters m"
  "scopeFirst (addFollow m i to) = scopeFirst m" "scopeLast (addFollow m i to) = scopeLast m"
  "scopeInner (addFollow m i to) = scopeInner m" "edges (addFollow m i to) = edges m @ map (Pair i) to"
  by (simp_all add: addFollow_def)

lemma addFollows_sel [simp]:
  "positions (addFollows m ls to) = positions m" "counters (addFollows m ls to) = counters m"
  "scopeFirst (addFollows m ls to) = scopeFirst m" "scopeLast (addFollows m ls to) = scopeLast m"
  "scopeInner (addFollows m ls to) = scopeInner m"
  by (induction ls arbitrary: m) (simp_all add: addFollows_def)

lemma addFollows_edges: "edges (addFollows m ls to) = edges m @ concat (map (\<lambda>l. map (Pair l) to) ls)"
  by (induction ls arbitrary: m) (simp_all add: addFollows_def)

lemma pc_addFollow [simp]: "pc (addFollow m i to) = pc m"
  by (simp add: pc_def fun_eq_iff)

lemma wf_addFollow:
  assumes "wfM m" "i < length (positions m)" "set to \<subseteq> {..<length (positions m)}"
  shows "wfM (addFollow m i to)"
proof -
  have "set (follow (addFollow m i to) ! k) = {j. (k, j) \<in> set (edges (addFollow m i to))}" if "k < length (positions m)" for k
    using assms that unfolding wfM_def
    by (cases "k = i") (auto simp: addFollow_def set_dedupAppend nth_list_update)
  then show ?thesis using assms unfolding wfM_def by (auto simp: addFollow_def [of m i to, THEN arg_cong [of _ _ follow]])
qed

lemma wf_addFollows:
  "wfM m \<Longrightarrow> set ls \<subseteq> {..<length (positions m)} \<Longrightarrow> set to \<subseteq> {..<length (positions m)} \<Longrightarrow> wfM (addFollows m ls to)"
proof (induction ls arbitrary: m)
  case (Cons l ls)
  then show ?case using wf_addFollow [of m l to] by (simp add: addFollows_def)
qed (simp add: addFollows_def)

lemma pc_addFollows [simp]: "pc (addFollows m ls to) = pc m"
  by (simp add: pc_def fun_eq_iff)

lemma edgeOK_addFollows [simp]: "edgeOK (addFollows m ls to) = edgeOK m"
  by (simp add: edgeOK_def fun_eq_iff)

lemma grown_addFollows: "grown m m' \<Longrightarrow> grown m (addFollows m' ls to)"
  by (auto simp: grown_def addFollows_edges)

lemma newE_addFollows: "grown m m' \<Longrightarrow> newE m (addFollows m' ls to) = newE m m' \<union> set ls \<times> set to"
  by (auto simp: newE_def addFollows_edges grown_def image_iff)

lemma newX_addFollows [simp]: "newX m (addFollows m' ls to) = newX m m'"
  by (simp add: newX_def)

lemma newC_addFollows [simp]: "newC m (addFollows m' ls to) = newC m m'"
  by (simp add: newC_def)

end
