(* ===== verification/XsdGlue.thy ===== *)
theory XsdGlue
  imports XsdBuild
begin

text \<open>
  Composition: sequence, choice, repetition and single terms keep the invariant of the compiler, so every
  successful build denotes the language of its particle.
\<close>

subsection \<open>Languages of fragments\<close>

lemma fragLang_support:
  assumes "w \<in> fragLang m f E" "set (ffirst f) \<subseteq> X" "E \<subseteq> X \<times> X"
  shows "set w \<subseteq> X"
proof (cases "w = []")
  case False
  then have "hd w \<in> X" "chain E w" using assms by (auto simp: fragLang_def pathLang_def)
  then show ?thesis using chain_support [of E w X] False assms(3) by blast
qed simp

lemma nameLang_grown:
  assumes "grown m m'" "set (ffirst f) \<subseteq> {..<length (positions m)}" "E \<subseteq> {..<length (positions m)} \<times> {..<length (positions m)}"
  shows "nameLang (positions m') (fragLang m' f E) = nameLang (positions m) (fragLang m f E)"
proof -
  obtain ps where "positions m' = positions m @ ps" using assms(1) by (auto simp: grown_def)
  moreover have "\<forall>i \<in> set w. i < length (positions m)" if "w \<in> fragLang m f E" for w
    using fragLang_support [OF that assms(2,3)] by auto
  moreover have "fragLang m' f E = fragLang m f E" by (simp add: fragLang_def)
  ultimately show ?thesis using nameLang_append [of "fragLang m f E" "positions m" ps] by simp
qed

lemma grown_len: "grown m m' \<Longrightarrow> length (positions m) \<le> length (positions m')" "grown m m' \<Longrightarrow> length (edges m) \<le> length (edges m')"
  "grown m m' \<Longrightarrow> length (counters m) \<le> length (counters m')"
  by (auto simp: grown_def)

lemma newX_split: "grown a b \<Longrightarrow> grown b c \<Longrightarrow> newX a c = newX a b \<union> newX b c \<and> newX a b \<inter> newX b c = {}"
  using grown_len(1) [of a b] grown_len(1) [of b c] by (auto simp: newX_def)

lemma newC_split: "grown a b \<Longrightarrow> grown b c \<Longrightarrow> newC a c = newC a b \<union> newC b c \<and> newC a b \<inter> newC b c = {}"
  using grown_len(3) [of a b] grown_len(3) [of b c] by (auto simp: newC_def)

lemma newE_split: "grown a b \<Longrightarrow> grown b c \<Longrightarrow> newE a c = newE a b \<union> newE b c"
  by (auto simp: newE_def grown_def)

subsection \<open>Two parts one after the other\<close>

text \<open>What both sequence and choice keep: the scopes, the readings and the well-formedness of two adjacent parts.\<close>

lemma newC_mono: "grown b c \<Longrightarrow> newC a b \<subseteq> newC a c" "grown a b \<Longrightarrow> newC b c \<subseteq> newC a c"
  using grown_len(3) [of b c] grown_len(3) [of a b] by (auto simp: newC_def)

lemma scopedIn_grown:
  assumes "grown b c" "scopedIn a b enc i" "i < length (positions b)"
  shows "scopedIn a c enc i"
proof -
  obtain s where "pc b i = counterChain (counters a) enc @ s" "set s \<subseteq> newC a b" using assms(2) by (auto simp: scopedIn_def)
  then have "pc c i = counterChain (counters a) enc @ s" "set s \<subseteq> newC a c"
    using grown_pc [OF assms(1,3)] newC_mono(1) [OF assms(1), of a] by auto
  then show ?thesis unfolding scopedIn_def by blast
qed

lemma scopedIn_later:
  assumes "grown a b" "scopedIn b c enc i" "encOk a enc"
  shows "scopedIn a c enc i"
proof -
  obtain s where "pc c i = counterChain (counters b) enc @ s" "set s \<subseteq> newC b c" using assms(2) by (auto simp: scopedIn_def)
  then have "pc c i = counterChain (counters a) enc @ s" "set s \<subseteq> newC a c"
    using grown_chain [OF assms(1,3)] newC_mono(2) [OF assms(1), of c] by auto
  then show ?thesis unfolding scopedIn_def by blast
qed

lemma cross_shared:
  assumes "grown a b" "grown b c" "encOk a enc" "scopedIn a b enc i" "i < length (positions b)" "scopedIn b c enc j"
  shows "sharedPrefix (pc c i) (pc c j) = length (counterChain (counters a) enc)"
    "sharedPrefix (pc c j) (pc c i) = length (counterChain (counters a) enc)"
proof -
  obtain s where s: "pc c i = counterChain (counters a) enc @ s" "set s \<subseteq> newC a b"
    using assms(4) grown_pc [OF assms(2,5)] by (auto simp: scopedIn_def)
  obtain t where t: "pc c j = counterChain (counters a) enc @ t" "set t \<subseteq> newC b c"
    using assms(6) grown_chain [OF assms(1,3)] by (auto simp: scopedIn_def)
  have d: "set s \<inter> set t = {}" "set t \<inter> set s = {}" using s(2) t(2) newC_split [OF assms(1,2)] by auto
  show "sharedPrefix (pc c i) (pc c j) = length (counterChain (counters a) enc)"
    "sharedPrefix (pc c j) (pc c i) = length (counterChain (counters a) enc)"
    unfolding s(1) t(1) sharedPrefix_append using sharedPrefix_disjoint [OF d(1)] sharedPrefix_disjoint [OF d(2)] by simp_all
qed

lemma built_join:
  assumes A: "built a b out LA enc" and B: "built b c f LB enc" and enc: "encOk a enc"
  shows "grown a c" "newX a c = newX a b \<union> newX b c" "newX a b \<inter> newX b c = {}" "newE a c = newE a b \<union> newE b c"
    "\<And>i. i \<in> newX a c \<Longrightarrow> scopedIn a c enc i"
    "\<And>i j. (i, j) \<in> newE a c \<Longrightarrow> edgeOK c i j \<or> sharedPrefix (pc c i) (pc c j) = length (counterChain (counters a) enc)"
    "\<And>i j. i \<in> newX a b \<Longrightarrow> j \<in> newX b c \<Longrightarrow> sharedPrefix (pc c i) (pc c j) = length (counterChain (counters a) enc)"
    "\<And>x. x \<in> newC a c \<Longrightarrow> dtdCounter (counters c ! x)"
proof -
  have g1: "grown a b" and g2: "grown b c" and wb: "wfM b" using A B by (simp_all add: built_def)
  show "grown a c" using grown_trans [OF g1 g2] .
  show xs: "newX a c = newX a b \<union> newX b c" "newX a b \<inter> newX b c = {}" using newX_split [OF g1 g2] by auto
  show es: "newE a c = newE a b \<union> newE b c" by (rule newE_split [OF g1 g2])
  have sa: "scopedIn a b enc i" "i < length (positions b)" if "i \<in> newX a b" for i
    using A that by (auto simp: built_def newX_def)
  have sb: "scopedIn b c enc i" if "i \<in> newX b c" for i using B that by (simp add: built_def)
  show "scopedIn a c enc i" if "i \<in> newX a c" for i
    using that xs(1) scopedIn_grown [OF g2 sa] scopedIn_later [OF g1 sb enc] by blast
  show "sharedPrefix (pc c i) (pc c j) = length (counterChain (counters a) enc)" if "i \<in> newX a b" "j \<in> newX b c" for i j
    using cross_shared(1) [OF g1 g2 enc sa [OF that(1)] sb [OF that(2)]] .
  show "edgeOK c i j \<or> sharedPrefix (pc c i) (pc c j) = length (counterChain (counters a) enc)" if e: "(i, j) \<in> newE a c" for i j
  proof (cases "(i, j) \<in> newE a b")
    case True
    then have ij: "i < length (positions b)" "j < length (positions b)" using A by (auto simp: built_def newX_def)
    have "edgeOK b i j \<or> sharedPrefix (pc b i) (pc b j) = length (counterChain (counters a) enc)"
      using A True by (auto simp: built_def)
    then show ?thesis using edgeOK_grown [OF g2 wb ij] grown_pc [OF g2] ij by auto
  next
    case False
    then have "(i, j) \<in> newE b c" using e es by blast
    then show ?thesis using B grown_chain [OF g1 enc] by (auto simp: built_def)
  qed
  show "dtdCounter (counters c ! x)" if "x \<in> newC a c" for x
  proof (cases "x \<in> newC a b")
    case True
    then have "dtdCounter (counters b ! x)" "x < length (counters b)" using A by (auto simp: built_def newC_def)
    then show ?thesis using g2 by (simp add: grown_def)
  next
    case False
    then show ?thesis using that newC_split [OF g1 g2] B by (auto simp: built_def)
  qed
qed

lemma built_langs:
  assumes A: "built a b out LA enc" and B: "built b c f LB enc"
  shows "nameLang (positions c) (fragLang b out (newE a b)) = LA" "nameLang (positions c) (fragLang c f (newE b c)) = LB"
proof -
  have "newX a b \<subseteq> {..<length (positions b)}" by (auto simp: newX_def)
  then have "set (ffirst out) \<subseteq> {..<length (positions b)}" "newE a b \<subseteq> {..<length (positions b)} \<times> {..<length (positions b)}"
    using A unfolding built_def by blast+
  moreover have "grown b c" using B by (simp add: built_def)
  ultimately have "nameLang (positions c) (fragLang c out (newE a b)) = nameLang (positions b) (fragLang b out (newE a b))"
    by (rule nameLang_grown [rotated])
  then show "nameLang (positions c) (fragLang b out (newE a b)) = LA" using A by (simp add: built_def fragLang_def)
  show "nameLang (positions c) (fragLang c f (newE b c)) = LB" using B by (simp add: built_def)
qed

lemma built_sets:
  assumes "built a b out LA enc"
  shows "newE a b \<subseteq> newX a b \<times> newX a b" "set (ffirst out) \<union> set (flast out) \<subseteq> newX a b"
  using assms by (simp_all add: built_def)

lemma built_choice:
  assumes A: "built a b out LA enc" and B: "built b c f LB enc" and enc: "encOk a enc"
  shows "built a c (choiceFrag out f) (LA \<union> LB) enc"
proof -
  note J = built_join [OF A B enc] and L = built_langs [OF A B] and SA = built_sets [OF A] and SB = built_sets [OF B]
  have fl: "fragLang c (choiceFrag out f) (newE a c) = fragLang b out (newE a b) \<union> fragLang c f (newE b c)"
    unfolding fragLang_def choiceFrag_def frag.select_convs set_append J(4)
    by (rule pathLang_choice [OF SA(1) SB(1) SA(2) SB(2) J(3)])
  have "nameLang (positions c) (fragLang c (choiceFrag out f) (newE a c)) = LA \<union> LB"
    unfolding fl nameLang_union L ..
  moreover have "newE a c \<subseteq> newX a c \<times> newX a c" unfolding J(2,4) using SA(1) SB(1) by blast
  moreover have "set (ffirst (choiceFrag out f)) \<union> set (flast (choiceFrag out f)) \<subseteq> newX a c"
    unfolding J(2) using SA(2) SB(2) by (auto simp: choiceFrag_def)
  moreover have "newX a c = {} \<longrightarrow> fnullable (choiceFrag out f)"
    unfolding J(2) using A by (auto simp: built_def choiceFrag_def)
  moreover have "wfM c" using B by (simp add: built_def)
  ultimately show ?thesis unfolding built_def using J(1,5,6,8) by blast
qed

lemma built_seq:
  assumes A: "built a b out LA enc" and B: "built b c f LB enc" and enc: "encOk a enc"
  shows "built a (addFollows c (flast out) (ffirst f)) (seqFrag out f) (concatLang LA LB) enc"
proof -
  note J = built_join [OF A B enc] and L = built_langs [OF A B] and SA = built_sets [OF A] and SB = built_sets [OF B]
  let ?c = "addFollows c (flast out) (ffirst f)"
  have ne: "newE a ?c = newE a b \<union> newE b c \<union> set (flast out) \<times> set (ffirst f)"
    unfolding newE_addFollows [OF J(1)] J(4) ..
  have fl: "fragLang ?c (seqFrag out f) (newE a ?c) = concatLang (fragLang b out (newE a b)) (fragLang c f (newE b c))"
  proof -
    have q: "set (ffirst (seqFrag out f)) = (if fnullable out then set (ffirst out) \<union> set (ffirst f) else set (ffirst out))"
      "set (flast (seqFrag out f)) = (if fnullable f then set (flast out) \<union> set (flast f) else set (flast f))"
      "fnullable (seqFrag out f) = (fnullable out \<and> fnullable f)"
      by (simp_all add: seqFrag_def)
    show ?thesis unfolding ne fragLang_def q by (rule pathLang_seq [OF SA(1) SB(1) SA(2) SB(2) J(3)])
  qed
  have "nameLang (positions ?c) (fragLang ?c (seqFrag out f) (newE a ?c)) = concatLang LA LB"
    unfolding fl addFollows_sel nameLang_concat L ..
  moreover have "newE a ?c \<subseteq> newX a ?c \<times> newX a ?c" unfolding ne newX_addFollows J(2) using SA SB by blast
  moreover have "set (ffirst (seqFrag out f)) \<union> set (flast (seqFrag out f)) \<subseteq> newX a ?c"
    unfolding newX_addFollows J(2) using SA(2) SB(2) by (auto simp: seqFrag_def)
  moreover have "newX a ?c = {} \<longrightarrow> fnullable (seqFrag out f)"
    unfolding newX_addFollows J(2) using A B by (auto simp: built_def seqFrag_def)
  moreover have "wfM ?c"
  proof (rule wf_addFollows)
    show "wfM c" using B by (simp add: built_def)
    have "newX a c \<subseteq> {..<length (positions c)}" by (auto simp: newX_def)
    then show "set (flast out) \<subseteq> {..<length (positions c)}" "set (ffirst f) \<subseteq> {..<length (positions c)}"
      using SA(2) SB(2) J(2) by blast+
  qed
  moreover have "edgeOK c i j \<or> sharedPrefix (pc c i) (pc c j) = length (counterChain (counters a) enc)"
    if e: "(i, j) \<in> newE a ?c" for i j
  proof (cases "(i, j) \<in> newE a c")
    case False
    then have "i \<in> newX a b" "j \<in> newX b c" using e ne J(4) SA(2) SB(2) by auto
    then show ?thesis using J(7) by blast
  qed (rule J(6))
  moreover have "scopedIn a ?c enc i" if "i \<in> newX a ?c" for i
    using J(5) [of i] that by (simp add: scopedIn_def newC_def)
  moreover have "grown a ?c" by (rule grown_addFollows [OF J(1)])
  ultimately show ?thesis unfolding built_def using J(8) by (simp add: newC_def) blast?
qed

subsection \<open>One element or wildcard\<close>

lemma chain_empty: "chain {} w \<Longrightarrow> w \<noteq> [] \<Longrightarrow> w = [hd w]"
  by (induction w rule: induct_list012) auto

lemma parentsOk_chain_mem:
  "wfM m \<Longrightarrow> encOk m enc \<Longrightarrow>
   set (counterChain (counters m) enc) \<subseteq> {..<length (counters m)} \<and> distinct (counterChain (counters m) enc)"
  using chain_bound by (simp add: wfM_def)

lemma built_leaf:
  assumes wf: "wfM m" and enc: "encOk m enc" and t: "(\<exists>d. TermOf p = ElemTerm d) \<or> (\<exists>w. TermOf p = WildTerm w)"
  shows "built m (addPosition m p enc) \<lparr>ffirst = [length (positions m)], flast = [length (positions m)], fnullable = False\<rparr>
    {w. termLang G (TermOf p) w} enc"
proof -
  let ?m = "addPosition m p enc" and ?n = "length (positions m)"
  let ?f = "\<lparr>ffirst = [?n], flast = [?n], fnullable = False\<rparr>"
  have sel: "positions ?m = positions m @ [\<lparr>pterm = TermOf p, pparticle = p, pcounters = counterChain (counters m) enc\<rparr>]"
    "edges ?m = edges m" "counters ?m = counters m" "follow ?m = follow m @ [[]]" "scopeFirst ?m = scopeFirst m"
    "scopeLast ?m = scopeLast m" "scopeInner ?m = scopeInner m"
    by (simp_all add: addPosition_def)
  have pcs: "pc ?m i = (if i = ?n then counterChain (counters m) enc else pc m i)" if "i \<le> ?n" for i
    using that by (simp add: pc_def sel(1) nth_append)
  have nx: "newX m ?m = {?n}" and ne: "newE m ?m = {}" and nc: "newC m ?m = {}"
    by (auto simp: newX_def newE_def newC_def sel)
  have g: "grown m ?m" by (simp add: grown_def sel)
  have er: "set (edges m) \<subseteq> {..<?n} \<times> {..<?n}" and fl: "length (follow m) = ?n" using wf by (simp_all add: wfM_def)
  have "wfM ?m"
  proof -
    have "set (follow ?m ! i) = {j. (i, j) \<in> set (edges ?m)}" if "i < Suc ?n" for i
    proof (cases "i = ?n")
      case True
      then show ?thesis using er fl by (auto simp: sel nth_append)
    next
      case False
      then show ?thesis using wf that fl by (simp add: sel nth_append wfM_def)
    qed
    moreover have "set (pc ?m i) \<subseteq> {..<length (counters m)} \<and> distinct (pc ?m i)" if "i < Suc ?n" for i
      using that pcs [of i] parentsOk_chain_mem [OF wf enc] wf by (cases "i = ?n") (simp_all add: wfM_def)
    moreover have "set (edges ?m) \<subseteq> {..<Suc ?n} \<times> {..<Suc ?n}" using er by (fastforce simp: sel(2))
    ultimately show ?thesis using wf fl unfolding wfM_def by (simp add: sel)
  qed
  moreover have "nameLang (positions ?m) (fragLang ?m ?f (newE m ?m)) = {w. termLang G (TermOf p) w}"
  proof -
    have "fragLang ?m ?f (newE m ?m) = {[?n]}"
    proof -
      have "w = [?n]" if "w \<noteq> []" "hd w = ?n" "chain {} w" for w
        using chain_empty [OF that(3,1)] that(2) by simp
      then show ?thesis unfolding ne by (auto simp: fragLang_def pathLang_def)
    qed
    moreover have "termLang G (TermOf p) w \<longleftrightarrow> (\<exists>x. w = [x] \<and> posMatches (positions ?m ! ?n) x None)" for w
      using t by (auto simp: sel(1) nth_append posMatches_def elemMatches_def termLang_elem termLang_wild)
    ultimately show ?thesis by (auto simp: nameLang_def list_all2_Cons1)
  qed
  moreover have "scopedIn m ?m enc ?n" using pcs [of ?n] by (simp add: scopedIn_def)
  ultimately show ?thesis using g by (simp add: built_def nx ne nc)
qed

end
