(* ===== verification/XsdScope.thy ===== *)
theory XsdScope
  imports XsdGlue
begin

text \<open>
  The scope a repeated particle opens: opening one, recording what its body laid down, the edges back to its
  start, and the compiler as a whole.
\<close>

subsection \<open>Opening and closing\<close>

lemma openScope_sel [simp]:
  "positions (openScope m p enc) = positions m" "edges (openScope m p enc) = edges m" "follow (openScope m p enc) = follow m"
  "scopeFirst (openScope m p enc) = scopeFirst m @ [[]]" "scopeLast (openScope m p enc) = scopeLast m @ [[]]"
  "scopeInner (openScope m p enc) = scopeInner m @ [[]]"
  "counters (openScope m p enc) =
     counters m @ [\<lparr>cmin = MinOccurs p, cmax = MaxOccurs p, cparent = enc, emptiable = False\<rparr>]"
  by (simp_all add: openScope_def)

lemma closeScope_sel [simp]:
  "positions (closeScope m k mark f) = positions m" "edges (closeScope m k mark f) = edges m"
  "follow (closeScope m k mark f) = follow m" "scopeFirst (closeScope m k mark f) = (scopeFirst m)[k := ffirst f]"
  "scopeLast (closeScope m k mark f) = (scopeLast m)[k := flast f]"
  "scopeInner (closeScope m k mark f) = (scopeInner m)[k := drop mark (edges m)]"
  "counters (closeScope m k mark f) = (counters m)[k := (counters m ! k)\<lparr>emptiable := fnullable f\<rparr>]"
  by (simp_all add: closeScope_def)

lemma grown_openScope: "wfM m \<Longrightarrow> grown m (openScope m p enc)"
  by (auto simp: grown_def wfM_def nth_append)

lemma wf_openScope:
  assumes "wfM m" "encOk m enc"
  shows "wfM (openScope m p enc)"
proof -
  have "parentsOk (counters (openScope m p enc))"
    using assms by (auto simp: parentsOk_def wfM_def encOk_def nth_append split: option.splits)
  moreover have "pc (openScope m p enc) = pc m" by (simp add: pc_def fun_eq_iff)
  moreover have "set (pc m i) \<subseteq> {..<Suc (length (counters m))}" if "i < length (positions m)" for i
    using assms(1) that unfolding wfM_def lessThan_Suc by blast
  ultimately show ?thesis using assms(1) unfolding wfM_def by simp
qed

lemma chain_openScope:
  assumes "wfM m" "encOk m enc"
  shows "counterChain (counters (openScope m p enc)) (Some (length (counters m))) =
    counterChain (counters m) enc @ [length (counters m)]"
proof -
  have "counterChain (counters (openScope m p enc)) enc = counterChain (counters m) enc"
    using grown_chain [OF grown_openScope [OF assms(1)] assms(2)] .
  then show ?thesis using assms(2)
    by (subst counterChain.simps) (auto simp: encOk_def counterChain.simps [of _ None] split: option.splits)
qed

lemma wf_closeScope: "wfM m \<Longrightarrow> wfM (closeScope m k mark f)"
proof -
  assume w: "wfM m"
  have "parentsOk (counters (closeScope m k mark f))"
    using w by (cases "k < length (counters m)") (simp_all add: wfM_def parentsOk_def nth_list_update)
  moreover have "pc (closeScope m k mark f) = pc m" by (simp add: pc_def fun_eq_iff)
  ultimately show ?thesis using w unfolding wfM_def by simp
qed

lemma built_scope_edge:
  assumes wf: "wfM m" and enc: "encOk m enc"
    and B: "built (openScope m p enc) m2 f A (Some (length (counters m)))"
    and ij: "(i, j) \<in> newE (openScope m p enc) m2"
  shows "edgeOK (closeScope m2 (length (counters m)) (length (edges m)) f) i j"
proof -
  let ?k = "length (counters m)" and ?m1 = "openScope m p enc"
  let ?m3 = "closeScope m2 ?k (length (edges m)) f"
  have g: "grown ?m1 m2" and w2: "wfM m2" using B by (simp_all add: built_def)
  have lens: "length (scopeLast m) = ?k" "length (scopeInner m) = ?k" "length (scopeFirst m) = ?k" using wf by (simp_all add: wfM_def)
  have k2: "?k < length (counters m2)" "length (scopeInner m2) = length (counters m2)" using g w2 by (auto simp: grown_def wfM_def)
  have e2: "scopeLast m2 ! ?k = []" "scopeInner m2 ! ?k = []" using g lens by (auto simp: grown_def nth_append)
  have pcs: "pc ?m3 = pc m2" by (simp add: pc_def fun_eq_iff)
  let ?s = "sharedPrefix (pc m2 i) (pc m2 j)"
  have "edgeOK m2 i j \<or> ?s = length (counterChain (counters m) enc @ [?k])"
    using B ij chain_openScope [OF wf enc, of p] unfolding built_def by auto
  then show ?thesis
  proof
    assume "edgeOK m2 i j"
    then show ?thesis unfolding edgeOK_def pcs Let_def
    proof (elim disjE exE conjE, goal_cases)
      case (1 n)
      then have "pc m2 i ! n \<noteq> ?k" using e2(1) by auto
      then show ?case using 1 by (intro disjI1 exI [of _ n]) simp
    next
      case 2
      then show ?case by simp
    next
      case 3
      then have "pc m2 i ! (?s - 1) \<noteq> ?k" using e2(2) by auto
      then show ?case using 3 by simp
    qed
  next
    assume s: "?s = length (counterChain (counters m) enc @ [?k])"
    have "i \<in> newX ?m1 m2" using B ij by (auto simp: built_def)
    then have "scopedIn ?m1 m2 (Some ?k) i" using B by (simp add: built_def)
    then obtain t where "pc m2 i = counterChain (counters m) enc @ [?k] @ t"
      using chain_openScope [OF wf enc, of p] by (auto simp: scopedIn_def)
    then have "pc m2 i ! (?s - 1) = ?k" using s by (simp add: nth_append)
    moreover have "(i, j) \<in> set (drop (length (edges m)) (edges m2))" using ij by (simp add: newE_def)
    ultimately show ?thesis using k2 unfolding edgeOK_def pcs by simp
  qed
qed

subsection \<open>A repeated particle\<close>

lemma loop_shared:
  assumes "pc m i = c @ k # s" "pc m j = c @ k # t"
  shows "length c < sharedPrefix (pc m i) (pc m j)" "pc m i ! length c = k"
  using assms by (simp_all add: sharedPrefix_append nth_append)

lemma built_closed:
  assumes wf: "wfM m" and enc: "encOk m enc" and dtd: "dtdBounds p"
    and B: "built (openScope m p enc) m2 f A (Some (length (counters m)))"
  shows "built m (closeScope m2 (length (counters m)) (length (edges m)) f) f A enc"
    (is "built m ?m3 f A enc")
proof -
  let ?k = "length (counters m)" and ?m1 = "openScope m p enc"
  have g: "grown ?m1 m2" and w2: "wfM m2" using B by (simp_all add: built_def)
  have nx: "newX m ?m3 = newX ?m1 m2" and ne: "newE m ?m3 = newE ?m1 m2" by (simp_all add: newX_def newE_def)
  have ck: "counters m2 ! ?k = \<lparr>cmin = MinOccurs p, cmax = MaxOccurs p, cparent = enc, emptiable = False\<rparr>"
    "?k < length (counters m2)" using g by (auto simp: grown_def nth_append)
  have nc: "newC m ?m3 = insert ?k (newC ?m1 m2)" using ck(2) by (auto simp: newC_def)
  have "grown m m2" by (rule grown_trans [OF grown_openScope [OF wf, of p enc] g])
  then have "grown m ?m3" by (auto simp: grown_def)
  moreover have "wfM ?m3" by (rule wf_closeScope [OF w2])
  moreover have "scopedIn m ?m3 enc i" if "i \<in> newX ?m1 m2" for i
  proof -
    have "scopedIn ?m1 m2 (Some ?k) i" using B that by (simp add: built_def)
    then obtain s where "pc m2 i = counterChain (counters m) enc @ ?k # s" "set s \<subseteq> newC ?m1 m2"
      using chain_openScope [OF wf enc, of p] by (auto simp: scopedIn_def)
    moreover have "pc ?m3 = pc m2" by (simp add: pc_def fun_eq_iff)
    ultimately show ?thesis unfolding scopedIn_def nc by (auto intro!: exI [of _ "?k # s"])
  qed
  moreover have "dtdCounter (counters ?m3 ! c)" if "c \<in> insert ?k (newC ?m1 m2)" for c
    using that B ck dtd by (cases "c = ?k") (simp_all add: dtdCounter_def dtdBounds_def built_def)
  ultimately show ?thesis using B built_scope_edge [OF wf enc B] unfolding built_def nx ne nc
    by (auto simp: fragLang_def)
qed

lemma built_looped:
  assumes B: "built m m3 f A enc"
    and k: "k < length (counters m3)" "cmax (counters m3 ! k) = Unbounded" "scopeFirst m3 ! k = ffirst f" "scopeLast m3 ! k = flast f"
    and scoped: "\<And>i. i \<in> newX m m3 \<Longrightarrow> \<exists>s. pc m3 i = counterChain (counters m) enc @ k # s"
  shows "built m (addFollows m3 (flast f) (ffirst f)) f (plusLang A) enc"
    (is "built m ?m f _ enc")
proof -
  note S = built_sets [OF B]
  have g: "grown m m3" using B by (simp add: built_def)
  have ne: "newE m ?m = newE m m3 \<union> set (flast f) \<times> set (ffirst f)" by (rule newE_addFollows [OF g])
  have "fragLang ?m f (newE m ?m) = plusLang (fragLang m3 f (newE m m3))"
    unfolding fragLang_def ne plusLang_def by (rule pathLang_plus [OF S])
  then have "nameLang (positions ?m) (fragLang ?m f (newE m ?m)) = plusLang A"
    using B by (simp add: nameLang_plus built_def)
  moreover have "wfM ?m"
  proof (rule wf_addFollows)
    show "wfM m3" using B by (simp add: built_def)
    have "newX m m3 \<subseteq> {..<length (positions m3)}" by (auto simp: newX_def)
    then show "set (flast f) \<subseteq> {..<length (positions m3)}" "set (ffirst f) \<subseteq> {..<length (positions m3)}"
      using S(2) by blast+
  qed
  moreover have "edgeOK m3 i j" if ij: "i \<in> set (flast f)" "j \<in> set (ffirst f)" for i j
  proof -
    obtain s t where "pc m3 i = counterChain (counters m) enc @ k # s" "pc m3 j = counterChain (counters m) enc @ k # t"
      using scoped [of i] scoped [of j] ij S(2) by blast
    from loop_shared [OF this] show ?thesis using ij k unfolding edgeOK_def Let_def
      by (intro disjI1 exI [of _ "length (counterChain (counters m) enc)"]) simp
  qed
  moreover have "newE m ?m \<subseteq> newX m ?m \<times> newX m ?m" unfolding ne newX_addFollows using S by blast
  moreover have "scopedIn m ?m enc i" if "i \<in> newX m m3" for i
    using B that by (simp add: built_def scopedIn_def newC_def)
  moreover have "grown m ?m" by (rule grown_addFollows [OF g])
  ultimately show ?thesis using B unfolding built_def by (auto simp: ne)
qed

lemma built_optional: "built m m' f A enc \<Longrightarrow> built m m' (f\<lparr>fnullable := True\<rparr>) (insert [] A) enc"
proof -
  have "fragLang m' (f\<lparr>fnullable := True\<rparr>) E = insert [] (fragLang m' f E)" for E
    by (auto simp: fragLang_def pathLang_def)
  then show "built m m' f A enc \<Longrightarrow> built m m' (f\<lparr>fnullable := True\<rparr>) (insert [] A) enc"
    unfolding built_def by (simp add: nameLang_insert_Nil)
qed

text \<open>What the particle opened and its term laid down is finished into the language of the particle.\<close>

lemma built_finish:
  assumes wf: "wfM m" and enc: "encOk m enc" and dtd: "dtdBounds p"
    and scoped: "scoped \<longleftrightarrow> MinOccurs p \<noteq> 1 \<or> MaxOccurs p \<noteq> 1"
    and B: "built (if scoped then openScope m p enc else m) m2 inner {w. termLang G (TermOf p) w}
              (if scoped then Some (length (counters m)) else enc)"
    and fin: "finishParticle m2 p scoped (length (counters m)) (length (edges m)) inner = (f, m')"
  shows "built m m' f {w. partLang G p w} enc"
proof (cases scoped)
  case False
  then have mm: "MinOccurs p = 1" "MaxOccurs p = 1" using scoped by auto
  then have "(f, m') = (inner, m2)" using fin False by (simp add: finishParticle_def Unbounded_def)
  then show ?thesis using B False mm partLang_dtd [OF dtd, of G] by (simp add: Unbounded_def)
next
  case True
  let ?A = "{w. termLang G (TermOf p) w}" and ?k = "length (counters m)"
  let ?m3 = "closeScope m2 ?k (length (edges m)) inner"
  let ?m4 = "if MaxOccurs p = Unbounded then addFollows ?m3 (flast inner) (ffirst inner) else ?m3"
  let ?B = "if MaxOccurs p = Unbounded then plusLang ?A else ?A"
  have B1: "built (openScope m p enc) m2 inner ?A (Some ?k)" using B True by simp
  have B3: "built m ?m3 inner ?A enc" by (rule built_closed [OF wf enc dtd B1])
  have g: "grown (openScope m p enc) m2" and w2: "wfM m2" using B1 by (simp_all add: built_def)
  have "\<exists>s. pc ?m3 i = counterChain (counters m) enc @ ?k # s" if "i \<in> newX m ?m3" for i
  proof -
    have "scopedIn (openScope m p enc) m2 (Some ?k) i" using B1 that by (simp add: built_def newX_def)
    moreover have "pc ?m3 = pc m2" by (simp add: pc_def fun_eq_iff)
    ultimately show ?thesis using chain_openScope [OF wf enc, of p] by (auto simp: scopedIn_def)
  qed
  moreover have "?k < length (counters ?m3)" "cmax (counters ?m3 ! ?k) = MaxOccurs p" "scopeFirst ?m3 ! ?k = ffirst inner"
    "scopeLast ?m3 ! ?k = flast inner"
    using g w2 by (auto simp: grown_def nth_append wfM_def)
  ultimately have B4: "built m ?m4 inner ?B enc" using B3 built_looped [OF B3, of ?k] by auto
  have "(f, m') = (if MinOccurs p = 0 then inner\<lparr>fnullable := True\<rparr> else inner, ?m4)"
    using fin True dtd by (auto simp: finishParticle_def Unbounded_def dtdBounds_def)
  then show ?thesis
    using B4 built_optional [OF B4] partLang_dtd [OF dtd, of G] by (cases "MinOccurs p = 0") (simp_all add: Let_def)
qed

end
