(* ===== verification/XsdCorrect.thy ===== *)
theory XsdCorrect
  imports XsdScope
begin

text \<open>
  The compiler denotes the language of its particle, for particles whose bounds are those a DTD can write
  (\<open>?\<close>, \<open>*\<close>, \<open>+\<close> or none) over sequences, choices, elements and
  wildcards.
\<close>

subsection \<open>The fragment of the schema language\<close>

fun plainTerm :: "modelGroup list \<Rightarrow> xterm \<Rightarrow> bool" where
  "plainTerm G (ElemTerm d) = True"
| "plainTerm G (WildTerm w) = (\<not> DisallowDefinedSibling w)"
| "plainTerm G (GroupTerm g) = (g < length G)"
| "plainTerm G NilTerm = False"

definition plainParticle :: "modelGroup list \<Rightarrow> particle \<Rightarrow> bool" where
  "plainParticle G p \<longleftrightarrow> dtdBounds p \<and> plainTerm G (TermOf p)"

definition plainGroups :: "modelGroup list \<Rightarrow> bool" where
  "plainGroups G \<longleftrightarrow>
     (\<forall>g \<in> set G. Compositor g \<noteq> CompositorAll \<and> (Compositor g = CompositorChoice \<longrightarrow> Particles g \<noteq> []) \<and>
        (\<forall>p \<in> set (Particles g). plainParticle G p))"

lemma plainGroupsD:
  assumes "plainGroups G" "g < length G"
  shows "Compositor (G ! g) \<noteq> CompositorAll" "Compositor (G ! g) = CompositorChoice \<Longrightarrow> Particles (G ! g) \<noteq> []"
    "\<forall>p \<in> set (Particles (G ! g)). plainParticle G p"
  using assms nth_mem [OF assms(2)] unfolding plainGroups_def by blast+

subsection \<open>The compiler\<close>

lemma choiceFrag_start [simp]: "choiceFrag (emptyFrag False) f = f"
  by (simp add: choiceFrag_def emptyFrag_def)

lemma built_start: "wfM m \<Longrightarrow> built m m (emptyFrag True) {[]} enc"
  by (auto simp: built_def newE_def newX_def newC_def emptyFrag_def fragLang_def pathLang_def nameLang_def)

lemma concatLang_unit: "concatLang {[]} A = A" "concatLang A {[]} = A"
  by (auto simp: concatLang_def)

lemma concatLang_assoc: "concatLang (concatLang A B) C = concatLang A (concatLang B C)"
  unfolding concatLang_def by (auto; metis append.assoc)

lemma built_encOk: "built m0 m out A enc \<Longrightarrow> encOk m0 enc \<Longrightarrow> encOk m enc \<and> wfM m"
  using grown_enc by (auto simp: built_def)

text \<open>The induction of the compiler, with what each function is asked to show.\<close>

definition buildSound :: "modelGroup list \<Rightarrow> nat list \<Rightarrow> contentModel \<Rightarrow> particle \<Rightarrow> nat option \<Rightarrow> bool" where
  "buildSound G active m p enc \<longleftrightarrow>
     (\<forall>f m'. plainParticle G p \<longrightarrow> wfM m \<longrightarrow> encOk m enc \<longrightarrow> build G active m p enc = Inr (f, m') \<longrightarrow>
        built m m' f {w. partLang G p w} enc)"

definition seqSound :: "modelGroup list \<Rightarrow> nat list \<Rightarrow> contentModel \<Rightarrow> particle list \<Rightarrow> nat option \<Rightarrow> frag \<Rightarrow> bool" where
  "seqSound G active m ps enc out \<longleftrightarrow>
     (\<forall>m0 A f m'. (\<forall>p \<in> set ps. plainParticle G p) \<longrightarrow> encOk m0 enc \<longrightarrow> built m0 m out A enc \<longrightarrow>
        buildSequence G active m ps enc out = Inr (f, m') \<longrightarrow> built m0 m' f (concatLang A {w. seqLang G ps w}) enc)"

definition choiceSound :: "modelGroup list \<Rightarrow> nat list \<Rightarrow> contentModel \<Rightarrow> particle list \<Rightarrow> nat option \<Rightarrow> frag \<Rightarrow> bool" where
  "choiceSound G active m ps enc out \<longleftrightarrow>
     (\<forall>m0 A f m'. (\<forall>p \<in> set ps. plainParticle G p) \<longrightarrow> encOk m0 enc \<longrightarrow>
        (out = emptyFrag False \<and> A = {} \<and> m0 = m \<and> wfM m \<and> ps \<noteq> [] \<or> built m0 m out A enc) \<longrightarrow>
        buildChoice G active m ps enc out = Inr (f, m') \<longrightarrow> built m0 m' f (A \<union> {w. \<exists>p \<in> set ps. partLang G p w}) enc)"

lemma buildSound_leaf:
  assumes t: "(\<exists>d. TermOf p = ElemTerm d) \<or> (\<exists>w. TermOf p = WildTerm w)"
  shows "buildSound G active m p enc"
proof -
  let ?sc = "MinOccurs p \<noteq> 1 \<or> MaxOccurs p \<noteq> 1"
  let ?m1 = "if ?sc then openScope m p enc else m" and ?s = "if ?sc then Some (length (counters m)) else enc"
  have "built m m' f {w. partLang G p w} enc"
    if p: "plainParticle G p" and wf: "wfM m" and enc: "encOk m enc" and b: "build G active m p enc = Inr (f, m')" for f m'
  proof -
    have w1: "wfM ?m1" and e1: "encOk ?m1 ?s" using wf_openScope [OF wf enc] wf enc by (auto simp: encOk_def)
    let ?inner = "\<lparr>ffirst = [length (positions ?m1)], flast = [length (positions ?m1)], fnullable = False\<rparr>"
    have "built ?m1 (addPosition ?m1 p ?s) ?inner {w. termLang G (TermOf p) w} ?s"
      by (rule built_leaf [OF w1 e1 t])
    moreover have "finishParticle (addPosition ?m1 p ?s) p ?sc (length (counters m)) (length (edges m)) ?inner = (f, m')"
      using b t by (auto simp: Let_def split: if_splits)
    moreover have "dtdBounds p" using p by (simp add: plainParticle_def)
    ultimately show ?thesis using built_finish [OF wf enc, of p ?sc] by blast
  qed
  then show ?thesis by (simp add: buildSound_def)
qed

lemma buildSound_group:
  assumes t: "TermOf p = GroupTerm g" and pl: "plainGroups G"
    and sq: "Compositor (G ! g) = CompositorSequence \<Longrightarrow> seqSound G (g # active)
          (if MinOccurs p \<noteq> 1 \<or> MaxOccurs p \<noteq> 1 then openScope m p enc else m) (Particles (G ! g))
          (if MinOccurs p \<noteq> 1 \<or> MaxOccurs p \<noteq> 1 then Some (length (counters m)) else enc) (emptyFrag True)"
    and ch: "Compositor (G ! g) = CompositorChoice \<Longrightarrow> choiceSound G (g # active)
          (if MinOccurs p \<noteq> 1 \<or> MaxOccurs p \<noteq> 1 then openScope m p enc else m) (Particles (G ! g))
          (if MinOccurs p \<noteq> 1 \<or> MaxOccurs p \<noteq> 1 then Some (length (counters m)) else enc) (emptyFrag False)"
  shows "buildSound G active m p enc"
proof -
  let ?sc = "MinOccurs p \<noteq> 1 \<or> MaxOccurs p \<noteq> 1"
  let ?m1 = "if ?sc then openScope m p enc else m" and ?s = "if ?sc then Some (length (counters m)) else enc"
  have "built m m' f {w. partLang G p w} enc"
    if p: "plainParticle G p" and wf: "wfM m" and enc: "encOk m enc" and b: "build G active m p enc = Inr (f, m')" for f m'
  proof -
    have g: "g < length G" using p t by (simp add: plainParticle_def)
    note P = plainGroupsD [OF pl g]
    have w1: "wfM ?m1" and e1: "encOk ?m1 ?s" using wf_openScope [OF wf enc] wf enc by (auto simp: encOk_def)
    obtain inner m2 where r: "(case Compositor (G ! g) of
          CompositorSequence \<Rightarrow> buildSequence G (g # active) ?m1 (Particles (G ! g)) ?s (emptyFrag True)
        | CompositorChoice \<Rightarrow> buildChoice G (g # active) ?m1 (Particles (G ! g)) ?s (emptyFrag False)
        | CompositorAll \<Rightarrow> buildAll G ?m1 g ?s) = Inr (inner, m2)"
      and fin: "finishParticle m2 p ?sc (length (counters m)) (length (edges m)) inner = (f, m')"
      using b t g by (auto simp: Let_def bindE_Inr_iff split: if_splits)
    have "built ?m1 m2 inner {w. termLang G (TermOf p) w} ?s"
    proof (cases "Compositor (G ! g)")
      case CompositorSequence
      have "built ?m1 m2 inner (concatLang {[]} {w. seqLang G (Particles (G ! g)) w}) ?s"
        using sq [OF CompositorSequence] P(3) e1 built_start [OF w1] r CompositorSequence unfolding seqSound_def by auto
      then show ?thesis using termLang_seq [OF g CompositorSequence] t by (simp add: concatLang_unit)
    next
      case CompositorChoice
      have "built ?m1 m2 inner ({} \<union> {w. \<exists>p \<in> set (Particles (G ! g)). partLang G p w}) ?s"
        using ch [OF CompositorChoice] P(2,3) e1 w1 r CompositorChoice unfolding choiceSound_def by auto
      then show ?thesis using termLang_choice [OF g CompositorChoice] t by simp
    next
      case CompositorAll
      then show ?thesis using P(1) by simp
    qed
    moreover have "dtdBounds p" using p by (simp add: plainParticle_def)
    ultimately show ?thesis using built_finish [OF wf enc, of p ?sc] fin by blast
  qed
  then show ?thesis by (simp add: buildSound_def)
qed

lemma seqSound_step:
  assumes "buildSound G active m p enc"
    and "\<And>f m'. build G active m p enc = Inr (f, m') \<Longrightarrow> seqSound G active (addFollows m' (flast out) (ffirst f)) ps enc (seqFrag out f)"
  shows "seqSound G active m (p # ps) enc out"
  unfolding seqSound_def
proof (intro allI impI)
  fix m0 A f m'
  assume pl: "\<forall>q \<in> set (p # ps). plainParticle G q" and enc: "encOk m0 enc" and B: "built m0 m out A enc"
    and b: "buildSequence G active m (p # ps) enc out = Inr (f, m')"
  obtain f1 m1 where r: "build G active m p enc = Inr (f1, m1)"
    and s: "buildSequence G active (addFollows m1 (flast out) (ffirst f1)) ps enc (seqFrag out f1) = Inr (f, m')"
    using b by (auto simp: bindE_Inr_iff)
  have "built m m1 f1 {w. partLang G p w} enc"
    using assms(1) r pl built_encOk [OF B enc] by (simp add: buildSound_def)
  from built_seq [OF B this enc] assms(2) [OF r] pl enc s
  have "built m0 m' f (concatLang (concatLang A {w. partLang G p w}) {w. seqLang G ps w}) enc"
    unfolding seqSound_def by auto
  then show "built m0 m' f (concatLang A {w. seqLang G (p # ps) w}) enc"
    by (simp add: concatLang_assoc seqLang_Cons)
qed

lemma choiceSound_step:
  assumes "buildSound G active m p enc"
    and "\<And>f m'. build G active m p enc = Inr (f, m') \<Longrightarrow> choiceSound G active m' ps enc (choiceFrag out f)"
  shows "choiceSound G active m (p # ps) enc out"
  unfolding choiceSound_def
proof (intro allI impI)
  fix m0 A f m'
  assume pl: "\<forall>q \<in> set (p # ps). plainParticle G q" and enc: "encOk m0 enc"
    and B: "out = emptyFrag False \<and> A = {} \<and> m0 = m \<and> wfM m \<and> p # ps \<noteq> [] \<or> built m0 m out A enc"
    and b: "buildChoice G active m (p # ps) enc out = Inr (f, m')"
  obtain f1 m1 where r: "build G active m p enc = Inr (f1, m1)"
    and s: "buildChoice G active m1 ps enc (choiceFrag out f1) = Inr (f, m')"
    using b by (auto simp: bindE_Inr_iff)
  have "encOk m enc \<and> wfM m" using B built_encOk enc by blast
  then have B1: "built m m1 f1 {w. partLang G p w} enc"
    using assms(1) r pl by (simp add: buildSound_def)
  have "built m0 m1 (choiceFrag out f1) (A \<union> {w. partLang G p w}) enc"
    using B B1 built_choice [OF _ B1 enc] by auto
  then have "built m0 m' f ((A \<union> {w. partLang G p w}) \<union> {w. \<exists>q \<in> set ps. partLang G q w}) enc"
    using assms(2) [OF r] pl enc s unfolding choiceSound_def by (meson list.set_intros(2))
  moreover have "(A \<union> {w. partLang G p w}) \<union> {w. \<exists>q \<in> set ps. partLang G q w} = A \<union> {w. \<exists>q \<in> set (p # ps). partLang G q w}"
    by auto
  ultimately show "built m0 m' f (A \<union> {w. \<exists>q \<in> set (p # ps). partLang G q w}) enc" by simp
qed

lemma build_sound:
  assumes pl: "plainGroups G"
  shows "buildSound G active m p enc" "seqSound G active m ps enc out" "choiceSound G active m ps enc out"
proof -
  define H where "H = G"
  have *: "H = G \<Longrightarrow> buildSound H active m p enc" "H = G \<Longrightarrow> seqSound H active m ps enc out"
    "H = G \<Longrightarrow> choiceSound H active m ps enc out"
  proof (induction H active m p enc and H active m ps enc out and H active m ps enc out
      rule: build_buildSequence_buildChoice.induct)
    case (1 H active m p enc)
    show ?case
    proof (cases "TermOf p")
      case (GroupTerm g)
      show ?thesis
      proof (cases "g \<in> set active \<or> \<not> g < length G")
        case True
        then show ?thesis using GroupTerm 1(3) by (auto simp: buildSound_def plainParticle_def Let_def)
      next
        case False
        then show ?thesis using 1(1,2) [OF refl refl refl refl refl GroupTerm] 1(3) buildSound_group [OF GroupTerm pl] by blast
      qed
    next
      case NilTerm
      then show ?thesis by (simp add: buildSound_def plainParticle_def)
    qed (rule buildSound_leaf, simp)+
  next
    case (2 H active m enc out)
    then show ?case by (auto simp: seqSound_def seqLang_Nil concatLang_unit)
  next
    case (3 H active m p ps enc out)
    then show ?case using seqSound_step by blast
  next
    case (4 H active m enc out)
    then show ?case by (auto simp: choiceSound_def)
  next
    case (5 H active m p ps enc out)
    then show ?case using choiceSound_step by blast
  qed
  show "buildSound G active m p enc" "seqSound G active m ps enc out" "choiceSound G active m ps enc out"
    using * by (simp_all add: H_def)
qed

end
