(* ===== verification/XsdRun.thy ===== *)
theory XsdRun
  imports XsdCorrect
begin

text \<open>
  The matcher follows the automaton: the counts never refuse an edge of a compiled model of the fragment, so
  the states reached stand for the positions a plain position automaton would reach.
\<close>

subsection \<open>Compiled models\<close>

definition plainModel :: "modelGroup list \<Rightarrow> contentModel \<Rightarrow> bool" where
  "plainModel G m \<longleftrightarrow> (\<forall>pos \<in> set (positions m). plainTerm G (pterm pos))"

lemma finish_positions: "finishParticle m p sc k mark inner = (f, m') \<Longrightarrow> positions m' = positions m"
  by (auto simp: finishParticle_def Let_def split: if_splits)

lemma plainModel_addPosition:
  "plainModel G m \<Longrightarrow> plainTerm G (TermOf p) \<Longrightarrow> plainModel G (addPosition m p s)"
  by (simp add: plainModel_def addPosition_def)

lemma plainModel_openScope: "plainModel G (if b then openScope m p enc else m) = plainModel G m"
  by (simp add: plainModel_def)

lemma plainModel_finish: "finishParticle m p sc k mark inner = (f, m') \<Longrightarrow> plainModel G m' = plainModel G m"
  by (simp add: plainModel_def finish_positions)

lemma build_plain:
  assumes pl: "plainGroups G"
  shows "H = G \<Longrightarrow> plainModel G m \<Longrightarrow> plainTerm G (TermOf p) \<Longrightarrow> build H active m p enc = Inr (f, m') \<Longrightarrow> plainModel G m'"
    "H = G \<Longrightarrow> plainModel G m \<Longrightarrow> \<forall>p \<in> set ps. plainTerm G (TermOf p) \<Longrightarrow> buildSequence H active m ps enc out = Inr (f, m') \<Longrightarrow>
       plainModel G m'"
    "H = G \<Longrightarrow> plainModel G m \<Longrightarrow> \<forall>p \<in> set ps. plainTerm G (TermOf p) \<Longrightarrow> buildChoice H active m ps enc out = Inr (f, m') \<Longrightarrow>
       plainModel G m'"
proof (induction H active m p enc and H active m ps enc out and H active m ps enc out arbitrary: f m' and f m' and f m'
    rule: build_buildSequence_buildChoice.induct)
  case (1 H active m p enc)
  show ?case
  proof (cases "TermOf p")
    case (GroupTerm g)
    have g: "g < length G" using 1(5) GroupTerm by simp
    note P = plainGroupsD [OF pl g]
    have pt: "\<forall>p \<in> set (Particles (G ! g)). plainTerm G (TermOf p)" using P(3) by (simp add: plainParticle_def)
    have a: "g \<notin> set active" using 1(6) GroupTerm by (auto simp: Let_def)
    have ng: "\<not> \<not> g < length H" using g 1(3) by simp
    note ih = 1(1,2) [OF refl refl refl refl refl GroupTerm a ng _ 1(3)]
    from 1(6) GroupTerm a g 1(3) P(1) obtain inner m2 where
      fin: "finishParticle m2 p (MinOccurs p \<noteq> 1 \<or> MaxOccurs p \<noteq> 1) (length (counters m)) (length (edges m)) inner = (f, m')" and
      r: "Compositor (G ! g) = CompositorSequence \<and>
            buildSequence G (g # active) (if MinOccurs p \<noteq> 1 \<or> MaxOccurs p \<noteq> 1 then openScope m p enc else m)
              (Particles (G ! g)) (if MinOccurs p \<noteq> 1 \<or> MaxOccurs p \<noteq> 1 then Some (length (counters m)) else enc)
              (emptyFrag True) = Inr (inner, m2) \<or>
          Compositor (G ! g) = CompositorChoice \<and>
            buildChoice G (g # active) (if MinOccurs p \<noteq> 1 \<or> MaxOccurs p \<noteq> 1 then openScope m p enc else m)
              (Particles (G ! g)) (if MinOccurs p \<noteq> 1 \<or> MaxOccurs p \<noteq> 1 then Some (length (counters m)) else enc)
              (emptyFrag False) = Inr (inner, m2)"
      by (cases "Compositor (G ! g)") (auto simp: Let_def bindE_Inr_iff split: if_splits)
    have "plainModel G m2" using r ih 1(4) pt unfolding 1(3) plainModel_openScope by blast
    then show ?thesis using plainModel_finish [OF fin] by simp
  qed (use 1(3-6) in \<open>auto simp: Let_def plainModel_finish plainModel_addPosition plainModel_openScope split: if_splits\<close>)
next
  case (3 H active m p ps enc out)
  from 3(6) obtain f1 m1 where r: "build H active m p enc = Inr (f1, m1)"
    and s: "buildSequence H active (addFollows m1 (flast out) (ffirst f1)) ps enc (seqFrag out f1) = Inr (f, m')"
    by (auto simp: bindE_Inr_iff)
  have "plainModel G m1" using 3(1) [OF 3(3,4) _ r] 3(5) by simp
  then show ?case using 3(2) [OF _ _ 3(3) _ _ s] r 3(5) by (simp add: plainModel_def)
next
  case (5 H active m p ps enc out)
  from 5(6) obtain f1 m1 where r: "build H active m p enc = Inr (f1, m1)"
    and s: "buildChoice H active m1 ps enc (choiceFrag out f1) = Inr (f, m')"
    by (auto simp: bindE_Inr_iff)
  have "plainModel G m1" using 5(1) [OF 5(3,4) _ r] 5(5) by simp
  then show ?case using 5(2) [OF _ _ 5(3) _ _ s] r 5(5) by simp
qed simp_all

lemma bindSiblings_plain: "plainModel G m \<Longrightarrow> bindSiblings m = m"
proof -
  assume pm: "plainModel G m"
  have "\<not> (case pterm pos of WildTerm w \<Rightarrow> DisallowDefinedSibling w | _ \<Rightarrow> False)" if "pos \<in> set (positions m)" for pos
    using pm that by (cases "pterm pos") (auto simp: plainModel_def)
  then show ?thesis unfolding bindSiblings_def Let_def by auto
qed

text \<open>What the matcher needs of a model.\<close>

definition edgesOf :: "contentModel \<Rightarrow> (nat \<times> nat) set" where
  "edgesOf m = {(i, j). i < length (positions m) \<and> j \<in> set (follow m ! i)}"

definition soundModel :: "contentModel \<Rightarrow> bool" where
  "soundModel m \<longleftrightarrow>
     edgesOf m \<subseteq> {..<length (positions m)} \<times> {..<length (positions m)} \<and> set (firstPos m) \<subseteq> {..<length (positions m)} \<and>
     (\<forall>(i, j) \<in> edgesOf m. edgeOK m i j) \<and> (\<forall>c < length (counters m). dtdCounter (counters m ! c)) \<and>
     (\<forall>i < length (positions m). set (pc m i) \<subseteq> {..<length (counters m)} \<and> distinct (pc m i)) \<and>
     (positions m = [] \<longrightarrow> cmNullable m)"

definition modelLang :: "contentModel \<Rightarrow> qname list set" where
  "modelLang m = nameLang (positions m) (pathLang (set (firstPos m)) (set (lastPos m)) (cmNullable m) (edgesOf m))"

lemma compile_sound:
  assumes pl: "plainGroups G" and p: "plainParticle G p" and c: "compileContentModel G (Some p) limit = Inr m"
  shows "soundModel m" "modelLang m = {w. partLang G p w}" "length (follow m) = length (positions m)"
proof -
  let ?m0 = "emptyModel (if limit \<le> 0 then DefaultMaxContentModelPositions else nat limit)"
  have w0: "wfM ?m0" and e0: "encOk ?m0 None" and p0: "plainModel G ?m0"
    by (simp_all add: wfM_def emptyModel_def parentsOk_def encOk_def plainModel_def)
  obtain f m1 where b: "build G [] ?m0 p None = Inr (f, m1)"
    and m: "m = (bindSiblings (m1\<lparr>firstPos := ffirst f, lastPos := flast f, cmNullable := fnullable f\<rparr>))\<lparr>edges := []\<rparr>"
    using c by (auto simp: compileContentModel_def Let_def bindE_Inr_iff)
  have B: "built ?m0 m1 f {w. partLang G p w} None"
    using build_sound(1) [OF pl] b p w0 e0 unfolding buildSound_def by blast
  have "plainModel G m1" using build_plain(1) [OF pl refl p0 _ b] p by (simp add: plainParticle_def)
  then have m: "m = m1\<lparr>firstPos := ffirst f, lastPos := flast f, cmNullable := fnullable f, edges := []\<rparr>"
    using bindSiblings_plain [of G "m1\<lparr>firstPos := ffirst f, lastPos := flast f, cmNullable := fnullable f\<rparr>"] unfolding m
    by (simp add: plainModel_def)
  have w1: "wfM m1" using B by (simp add: built_def)
  then show "length (follow m) = length (positions m)" by (simp add: m wfM_def)
  have ne: "newE ?m0 m1 = set (edges m1)" and nx: "newX ?m0 m1 = {..<length (positions m1)}"
    and nc: "newC ?m0 m1 = {..<length (counters m1)}" and ch: "counterChain (counters ?m0) None = []"
    by (auto simp: newE_def newX_def newC_def emptyModel_def counterChain.simps)
  have eo: "edgesOf m = set (edges m1)"
    using w1 by (auto simp: edgesOf_def m wfM_def)
  have ok: "edgeOK m = edgeOK m1" "pc m = pc m1" by (simp_all add: edgeOK_def pc_def m fun_eq_iff)
  have "edgeOK m1 i j" if "(i, j) \<in> set (edges m1)" for i j
  proof -
    have "edgeOK m1 i j \<or> sharedPrefix (pc m1 i) (pc m1 j) = 0" using B that unfolding built_def ne ch by auto
    then show ?thesis by (auto simp: edgeOK_def)
  qed
  moreover have "set (ffirst f) \<subseteq> {..<length (positions m1)}" "\<forall>c < length (counters m1). dtdCounter (counters m1 ! c)"
    "positions m1 = [] \<longrightarrow> fnullable f"
    using B unfolding built_def nx nc by auto
  moreover have "set (edges m1) \<subseteq> {..<length (positions m1)} \<times> {..<length (positions m1)}"
    "\<forall>i < length (positions m1). set (pc m1 i) \<subseteq> {..<length (counters m1)} \<and> distinct (pc m1 i)"
    using w1 unfolding wfM_def by blast+
  moreover have "positions m = positions m1" "counters m = counters m1" "firstPos m = ffirst f" "cmNullable m = fnullable f"
    by (simp_all add: m)
  ultimately show "soundModel m"
    unfolding soundModel_def eo ok by (simp add: split_beta)
  show "modelLang m = {w. partLang G p w}"
    using B unfolding built_def modelLang_def eo fragLang_def ne by (simp add: m)
qed

end
