(* ===== verification/XsdStep.thy ===== *)
theory XsdStep
  imports XsdRun
begin

text \<open>
  One step of the matcher: every count of a scope around the position a state stands at is at least one, so
  leaving a scope is never refused, and an edge with a reading always yields a state again.
\<close>

subsection \<open>Counts\<close>

definition entered :: "contentModel \<Rightarrow> nat \<Rightarrow> int list \<Rightarrow> bool" where
  "entered m i v \<longleftrightarrow> length v = length (counters m) \<and> (\<forall>c \<in> set (pc m i). 1 \<le> v ! c)"

lemma satisfied_entered: "dtdCounter c \<Longrightarrow> 1 \<le> n \<Longrightarrow> satisfied c n"
  by (auto simp: satisfied_def dtdCounter_def)

lemma leaveScopes_ok:
  "(\<And>c. c \<in> set cs \<Longrightarrow> dtdCounter (counters m ! c) \<and> 1 \<le> v ! c) \<Longrightarrow> distinct cs \<Longrightarrow>
     \<exists>v'. leaveScopes m cs v = Some v'"
proof (induction cs arbitrary: v)
  case (Cons c cs)
  have "1 \<le> v[c := 0] ! d" if "d \<in> set cs" for d
    using Cons.prems that by (cases "d = c") auto
  then show ?case using Cons satisfied_entered by auto
qed simp

lemma leaveScopes_keep:
  "leaveScopes m cs v = Some v' \<Longrightarrow> length v' = length v \<and> (\<forall>d. d \<notin> set cs \<longrightarrow> v' ! d = v ! d)"
  by (induction cs arbitrary: v) (fastforce split: if_splits)+

lemma enterScopes_length [simp]: "length (enterScopes m reach cs v) = length v"
  unfolding enterScopes_def by (induction cs arbitrary: v) simp_all

lemma enterScopes_keep: "d \<notin> set cs \<Longrightarrow> enterScopes m reach cs v ! d = v ! d"
  unfolding enterScopes_def by (induction cs arbitrary: v) simp_all

lemma enterScopes_in:
  "d \<in> set cs \<Longrightarrow> d < length v \<Longrightarrow> enterScopes m reach cs v ! d = capCount (counters m ! d) (reach ! d) 1"
proof (induction cs arbitrary: v)
  case (Cons c cs)
  show ?case
  proof (cases "d \<in> set cs")
    case True
    then show ?thesis using Cons by (simp add: enterScopes_def)
  next
    case False
    then show ?thesis using Cons.prems enterScopes_keep [of d cs m reach "v[c := capCount (counters m ! c) (reach ! c) 1]"]
      by (simp add: enterScopes_def)
  qed
qed simp

lemma capCount_pos:
  assumes "dtdCounter c" "reach = Unbounded \<or> reach = cmax c" "1 \<le> n"
  shows "1 \<le> capCount c reach n"
  using assms by (auto simp: capCount_def dtdCounter_def Unbounded_def)

lemma reachable_cases: "c < length (counters m) \<Longrightarrow> reachable m n ! c = Unbounded \<or> reachable m n ! c = cmax (counters m ! c)"
  by (simp add: reachable_def)

lemma reachable_unbounded: "c < length (counters m) \<Longrightarrow> cmax (counters m ! c) = Unbounded \<Longrightarrow> reachable m n ! c = Unbounded"
  by (simp add: reachable_def)

lemma entered_encode: "entered m i v \<Longrightarrow> (\<And>c. c \<in> set (pc m i) \<Longrightarrow> c < length (counters m)) \<Longrightarrow> entered m i (encodeCounts v)"
  by (auto simp: entered_def encodeCounts_def)

lemma resetFold: "length (foldl (\<lambda>v i. v[i := 0]) v cs) = length v" "d \<notin> set cs \<Longrightarrow> foldl (\<lambda>v i. v[i := 0]) v cs ! d = v ! d"
  by (induction cs arbitrary: v) simp_all

subsection \<open>A step of a sound model\<close>

lemma soundModelD:
  assumes "soundModel m" "i < length (positions m)"
  shows "\<And>c. c \<in> set (pc m i) \<Longrightarrow> c < length (counters m) \<and> dtdCounter (counters m ! c)" "distinct (pc m i)"
  using assms unfolding soundModel_def by blast+

lemma enterCounts_entered:
  assumes "soundModel m" "j < length (positions m)"
  shows "entered m j (enterCounts m (reachable m n) j)"
proof -
  have "1 \<le> enterCounts m (reachable m n) j ! c" if "c \<in> set (pc m j)" for c
  proof -
    have c: "c < length (counters m)" "dtdCounter (counters m ! c)" using soundModelD(1) [OF assms that] by auto
    then have "enterCounts m (reachable m n) j ! c = capCount (counters m ! c) (reachable m n ! c) 1"
      unfolding enterCounts_def using that by (simp add: enterScopes_in pc_def)
    then show ?thesis using capCount_pos [OF c(2) reachable_cases [OF c(1), of n]] by simp
  qed
  then show ?thesis by (simp add: entered_def enterCounts_def)
qed

lemma take_drop_mem: "c \<in> set xs \<Longrightarrow> c \<in> set (take k xs) \<or> c \<in> set (drop k xs)"
  by (metis Un_iff append_take_drop_id set_append)

lemma distinct_take_drop: "distinct xs \<Longrightarrow> c \<in> set (take k xs) \<Longrightarrow> c \<notin> set (drop k xs)"
  by (metis append_take_drop_id disjoint_iff distinct_append)

text \<open>Entering what the target does not share yields a vector that has entered the target.\<close>

lemma entered_after:
  assumes sm: "soundModel m" and j: "j < length (positions m)" and len: "length v = length (counters m)"
    and keep: "\<And>c. c \<in> set (take k (pc m j)) \<Longrightarrow> 1 \<le> v ! c"
  shows "entered m j (enterScopes m (reachable m n) (drop k (pc m j)) v)"
proof -
  have "1 \<le> enterScopes m (reachable m n) (drop k (pc m j)) v ! c" if c: "c \<in> set (pc m j)" for c
  proof (cases "c \<in> set (drop k (pc m j))")
    case True
    have "c < length (counters m)" "dtdCounter (counters m ! c)" using soundModelD(1) [OF sm j c] by auto
    then show ?thesis using True len capCount_pos [of "counters m ! c" "reachable m n ! c" 1] reachable_cases [of c m n]
      by (simp add: enterScopes_in)
  next
    case False
    then show ?thesis using take_drop_mem [OF c, of k] keep by (simp add: enterScopes_keep)
  qed
  then show ?thesis using len by (simp add: entered_def)
qed

lemma stepReading_entered:
  assumes sm: "soundModel m" and ij: "i < length (positions m)" "j < length (positions m)" and e: "entered m i v"
    and k: "k \<le> sharedPrefix (pc m i) (pc m j)" and r: "stepReading m (reachable m n) i j v k = Some v'"
  shows "entered m j v'"
proof (cases "k = sharedPrefix (pc m i) (pc m j)")
  case True
  obtain u where u: "leaveScopes m (drop k (pc m i)) v = Some u" "v' = enterScopes m (reachable m n) (drop k (pc m j)) u"
    using r True by (auto simp: stepReading_def Let_def pc_def split: if_splits)
  note K = leaveScopes_keep [OF u(1)]
  show ?thesis unfolding u(2)
  proof (rule entered_after [OF sm ij(2)])
    show "length u = length (counters m)" using K e by (simp add: entered_def)
    fix c assume "c \<in> set (take k (pc m j))"
    then have c: "c \<in> set (take k (pc m i))" using True sharedPrefix_take [of "pc m i" "pc m j"] by simp
    have "c \<notin> set (drop k (pc m i))" using distinct_take_drop [OF soundModelD(2) [OF sm ij(1)] c] .
    then show "1 \<le> u ! c" using K e c in_set_takeD [OF c] by (simp add: entered_def)
  qed
next
  case False
  then have ks: "k < sharedPrefix (pc m i) (pc m j)" using k by simp
  then have kl: "k < length (pc m i)" "k < length (pc m j)" using sharedPrefix_le [of "pc m i" "pc m j"] by linarith+
  have ck: "pc m i ! k = pc m j ! k" by (rule sharedPrefix_nth [OF ks])
  let ?c = "pc m i ! k"
  have cm: "?c \<in> set (pc m i)" using kl by simp
  note cc = soundModelD(1) [OF sm ij(1) cm]
  obtain u where u: "leaveScopes m (drop (k + 1) (pc m i)) v = Some u"
      "v' = enterScopes m (reachable m n) (drop (k + 1) (pc m j))
         ((foldl (\<lambda>v i. v[i := 0]) u (drop (k + 1) (pc m j)))
           [?c := capCount (counters m ! ?c) (reachable m n ! ?c) (v ! ?c + 1)])"
    using r False by (auto simp: stepReading_def Let_def pc_def split: if_splits)
  note K = leaveScopes_keep [OF u(1)]
  have pre: "take k (pc m i) = take k (pc m j)"
    using sharedPrefix_take [of "pc m i" "pc m j"] ks by (metis min.strict_order_iff take_take)
  show ?thesis unfolding u(2)
  proof (rule entered_after [OF sm ij(2)])
    show "length ((foldl (\<lambda>v i. v[i := 0]) u (drop (k + 1) (pc m j)))
        [?c := capCount (counters m ! ?c) (reachable m n ! ?c) (v ! ?c + 1)]) = length (counters m)"
      using K e by (simp add: entered_def resetFold)
    fix c assume "c \<in> set (take (k + 1) (pc m j))"
    then have c: "c = ?c \<or> c \<in> set (take k (pc m i))" using kl ck pre by (auto simp: take_Suc_conv_app_nth)
    show "1 \<le> (foldl (\<lambda>v i. v[i := 0]) u (drop (k + 1) (pc m j)))
        [?c := capCount (counters m ! ?c) (reachable m n ! ?c) (v ! ?c + 1)] ! c"
    proof (cases "c = ?c")
      case True
      have "1 \<le> v ! ?c" using e cm by (simp add: entered_def)
      then have "1 \<le> v ! ?c + 1" by simp
      then have "1 \<le> capCount (counters m ! ?c) (reachable m n ! ?c) (v ! ?c + 1)"
        using capCount_pos [OF _ reachable_cases] cc by blast
      moreover have "length (foldl (\<lambda>v i. v[i := 0]) u (drop (k + 1) (pc m j))) = length (counters m)"
        using K e by (simp add: entered_def resetFold)
      ultimately show ?thesis using True cc by simp
    next
      case ne: False
      then have c1: "c \<in> set (take k (pc m i))" using c by simp
      then have "c \<in> set (take (k + 1) (pc m i))" by (meson le_add1 set_take_subset_set_take subsetD)
      then have d: "c \<notin> set (drop (k + 1) (pc m i))" using distinct_take_drop [OF soundModelD(2) [OF sm ij(1)]] by blast
      have "c \<in> set (take (k + 1) (pc m j))" using c1 unfolding pre by (meson le_add1 set_take_subset_set_take subsetD)
      then have "c \<notin> set (drop (k + 1) (pc m j))" using distinct_take_drop [OF soundModelD(2) [OF sm ij(2)]] by blast
      then have "(foldl (\<lambda>v i. v[i := 0]) u (drop (k + 1) (pc m j))) ! c = v ! c" using K d by (simp add: resetFold(2))
      then show ?thesis using ne e in_set_takeD [OF c1] by (simp add: entered_def)
    qed
  qed
qed

lemma edgeOK_cases [consumes 1, case_names loop inner]:
  assumes "edgeOK m i j"
  obtains k where "k < sharedPrefix (pc m i) (pc m j)" "i \<in> set (scopeLast m ! (pc m i ! k))"
      "j \<in> set (scopeFirst m ! (pc m i ! k))" "cmax (counters m ! (pc m i ! k)) = Unbounded"
    | "sharedPrefix (pc m i) (pc m j) > 0 \<longrightarrow>
        (i, j) \<in> set (scopeInner m ! (pc m i ! (sharedPrefix (pc m i) (pc m j) - 1)))"
  using assms unfolding edgeOK_def Let_def
proof (elim disjE exE conjE, goal_cases)
  case (1 k)
  from 1(1) [OF 1(3-6)] show ?case .
qed simp_all

lemma stepReading_some:
  assumes sm: "soundModel m" and ij: "i < length (positions m)" "j < length (positions m)" and e: "entered m i v"
    and ed: "edgeOK m i j"
  shows "\<exists>k \<le> sharedPrefix (pc m i) (pc m j). \<exists>v'. stepReading m (reachable m n) i j v k = Some v'"
proof -
  have lv: "\<exists>u. leaveScopes m (drop k (pc m i)) v = Some u" for k
    by (rule leaveScopes_ok) (use soundModelD [OF sm ij(1)] e in \<open>auto simp: entered_def dest: in_set_dropD\<close>)
  from ed show ?thesis
  proof (cases rule: edgeOK_cases)
    case (loop k)
    then have "k < length (pc m i)" using sharedPrefix_le [of "pc m i" "pc m j"] by linarith
    then have "pc m i ! k < length (counters m)" using soundModelD(1) [OF sm ij(1)] nth_mem by blast
    then have "reachable m n ! (pc m i ! k) = Unbounded" using reachable_unbounded loop(4) by blast
    moreover obtain u where "leaveScopes m (drop (k + 1) (pc m i)) v = Some u" using lv by blast
    ultimately have "\<exists>v'. stepReading m (reachable m n) i j v k = Some v'"
      using loop(1-3) by (simp add: stepReading_def Let_def pc_def)
    then show ?thesis using loop(1) less_imp_le by blast
  next
    case inner
    obtain u where "leaveScopes m (drop (sharedPrefix (pc m i) (pc m j)) (pc m i)) v = Some u" using lv by blast
    then have "\<exists>v'. stepReading m (reachable m n) i j v (sharedPrefix (pc m i) (pc m j)) = Some v'"
      using inner by (auto simp: stepReading_def Let_def pc_def)
    then show ?thesis by blast
  qed
qed

lemma pushVec_set: "set (pushVec out v) = insert v (set out)"
  by (auto simp: pushVec_def)

lemma stepCounts_set:
  "set (stepCounts m reach i j v) =
     {v'. \<exists>k \<le> sharedPrefix (pc m i) (pc m j). stepReading m reach i j v k = Some v'}"
proof -
  have f: "set (foldl (\<lambda>out k. case f k of None \<Rightarrow> out | Some v \<Rightarrow> pushVec out v) out ks) =
      set out \<union> {v. \<exists>k \<in> set ks. f k = Some v}" for f :: "nat \<Rightarrow> int list option" and out ks
  proof (induction ks arbitrary: out)
    case (Cons k ks)
    then show ?case by (cases "f k") (auto simp: pushVec_set)
  qed simp
  show ?thesis unfolding stepCounts_def pc_def [symmetric] f set_upt by (auto simp: less_Suc_eq_le)
qed

end
