(* ===== verification/XsdAccept.thy ===== *)
theory XsdAccept
  imports XsdStep
begin

text \<open>
  The matcher as a whole: the states it holds stand for the positions a position automaton reaches, and so the
  names it accepts are those of the particle's language.
\<close>

subsection \<open>The position automaton\<close>

definition posCandidates :: "contentModel \<Rightarrow> nat option \<Rightarrow> nat list" where
  "posCandidates m q = (case q of None \<Rightarrow> firstPos m | Some p \<Rightarrow> follow m ! p)"

fun posAccepts :: "contentModel \<Rightarrow> (nat \<Rightarrow> nat \<Rightarrow> bool) \<Rightarrow> nat \<Rightarrow> nat \<Rightarrow> nat option \<Rightarrow> bool" where
  "posAccepts m mt i 0 q = (case q of None \<Rightarrow> cmNullable m | Some p \<Rightarrow> p \<in> set (lastPos m))"
| "posAccepts m mt i (Suc left) q = (\<exists>p \<in> set (posCandidates m q). mt i p \<and> posAccepts m mt (Suc i) left (Some p))"

lemma posAccepts_some:
  assumes sm: "soundModel m"
  shows "p < length (positions m) \<Longrightarrow> posAccepts m mt i left (Some p) \<longleftrightarrow>
    (\<exists>w. length w = left \<and> chain (edgesOf m) (p # w) \<and> last (p # w) \<in> set (lastPos m) \<and> (\<forall>j < left. mt (i + j) (w ! j)))"
proof (induction left arbitrary: i p)
  case (Suc left)
  have e: "q \<in> set (follow m ! p) \<longleftrightarrow> (p, q) \<in> edgesOf m" for q using Suc.prems by (simp add: edgesOf_def)
  have r: "q < length (positions m)" if "(p, q) \<in> edgesOf m" for q using sm that by (auto simp: soundModel_def)
  have "posAccepts m mt i (Suc left) (Some p) \<longleftrightarrow> (\<exists>q w. (p, q) \<in> edgesOf m \<and> mt i q \<and> length w = left \<and>
      chain (edgesOf m) (q # w) \<and> last (q # w) \<in> set (lastPos m) \<and> (\<forall>j < left. mt (Suc i + j) (w ! j)))"
    using Suc.IH r by (auto simp: posCandidates_def e)
  also have "\<dots> \<longleftrightarrow> (\<exists>w. length w = Suc left \<and> chain (edgesOf m) (p # w) \<and> last (p # w) \<in> set (lastPos m) \<and>
      (\<forall>j < Suc left. mt (i + j) (w ! j)))"
    (is "(\<exists>q w. ?L q w) \<longleftrightarrow> (\<exists>w. ?R w)")
  proof
    assume "\<exists>q w. ?L q w"
    then obtain q w where "?L q w" by blast
    then have "?R (q # w)" by (auto simp: less_Suc_eq_0_disj)
    then show "\<exists>w. ?R w" by blast
  next
    assume "\<exists>w. ?R w"
    then obtain w where w: "?R w" by blast
    then obtain q w' where ww: "w = q # w'" by (cases w) auto
    have "mt i q" using w ww by (metis add_0_right nth_Cons_0 zero_less_Suc)
    moreover have "mt (Suc i + j) (w' ! j)" if "j < left" for j
      using w ww that by (metis Suc_mono add_Suc add_Suc_right nth_Cons_Suc)
    ultimately have "?L q w'" using w ww by simp
    then show "\<exists>q w. ?L q w" by blast
  qed
  finally show ?case .
qed auto

lemma posAccepts_names:
  assumes sm: "soundModel m"
  shows "posAccepts m (\<lambda>i p. posMatches (positions m ! p) (names ! i) None) 0 (length names) None \<longleftrightarrow> names \<in> modelLang m"
proof (cases names)
  case Nil
  then show ?thesis by (auto simp: modelLang_def nameLang_def pathLang_def)
next
  case (Cons x xs)
  let ?mt = "\<lambda>i p. posMatches (positions m ! p) (names ! i) None"
  have f: "q < length (positions m)" if "q \<in> set (firstPos m)" for q using sm that by (auto simp: soundModel_def)
  have "posAccepts m ?mt 0 (length names) None \<longleftrightarrow> (\<exists>q w. q \<in> set (firstPos m) \<and> ?mt 0 q \<and> length w = length xs \<and>
      chain (edgesOf m) (q # w) \<and> last (q # w) \<in> set (lastPos m) \<and> (\<forall>j < length xs. ?mt (Suc j) (w ! j)))"
    using posAccepts_some [OF sm f, of _ ?mt "Suc 0" "length xs"] unfolding Cons
    by (auto simp: posCandidates_def)
  also have "\<dots> \<longleftrightarrow> (\<exists>w. w \<noteq> [] \<and> hd w \<in> set (firstPos m) \<and> last w \<in> set (lastPos m) \<and> chain (edgesOf m) w \<and>
      list_all2 (\<lambda>i x. posMatches (positions m ! i) x None) w names)"
    (is "(\<exists>q w. ?L q w) \<longleftrightarrow> (\<exists>w. ?R w)")
  proof
    assume "\<exists>q w. ?L q w"
    then obtain q w where "?L q w" by blast
    then have "?R (q # w)" by (auto simp: Cons list_all2_conv_all_nth less_Suc_eq_0_disj)
    then show "\<exists>w. ?R w" by blast
  next
    assume "\<exists>w. ?R w"
    then obtain w where w: "?R w" by blast
    then obtain q w' where ww: "w = q # w'" by (cases w) auto
    then have "list_all2 (\<lambda>i x. posMatches (positions m ! i) x None) w' xs" using w by (simp add: Cons)
    then have "\<forall>j < length xs. posMatches (positions m ! (w' ! j)) (xs ! j) None" by (simp add: list_all2_conv_all_nth)
    then have "?L q w'" using w ww by (auto simp: Cons list_all2_lengthD)
    then show "\<exists>q w. ?L q w" by blast
  qed
  also have "\<dots> \<longleftrightarrow> names \<in> modelLang m" using Cons by (auto simp: modelLang_def nameLang_def pathLang_def)
  finally show ?thesis .
qed

subsection \<open>States and positions\<close>

definition goodState :: "contentModel \<Rightarrow> matchState \<Rightarrow> bool" where
  "goodState m st \<longleftrightarrow> (case st of (None, _) \<Rightarrow> True | (Some p, v) \<Rightarrow> p < length (positions m) \<and> entered m p v)"

lemma goodStateD: "goodState m (Some p, v) \<Longrightarrow> p < length (positions m) \<and> entered m p v"
  by (simp add: goodState_def)

lemma accepting_good:
  assumes sm: "soundModel m" and g: "goodState m st"
  shows "accepting m st \<longleftrightarrow> (case fst st of None \<Rightarrow> cmNullable m | Some p \<Rightarrow> p \<in> set (lastPos m))"
proof (cases "fst st")
  case None
  then show ?thesis by (cases st) (simp add: accepting_def)
next
  case (Some p)
  then obtain v where st: "st = (Some p, v)" by (cases st) auto
  have p: "p < length (positions m)" "entered m p v" using goodStateD g unfolding st by blast+
  have "satisfied (counters m ! c) (v ! c)" if "c \<in> set (pc m p)" for c
    using soundModelD(1) [OF sm p(1) that] p(2) that satisfied_entered by (auto simp: entered_def)
  then show ?thesis by (simp add: st accepting_def pc_def)
qed

lemma candidates_pos: "candidates m st = posCandidates m (fst st)"
  by (simp add: candidates_def posCandidates_def)

lemma candidates_range:
  assumes "soundModel m" "goodState m st" "q \<in> set (candidates m st)"
  shows "q < length (positions m)"
proof (cases st)
  case (Pair o' v)
  then show ?thesis using assms by (cases o') (auto simp: candidates_def soundModel_def goodState_def edgesOf_def)
qed

lemma moveTo_good:
  assumes sm: "soundModel m" and g: "goodState m st" and q: "q \<in> set (candidates m st)"
  shows "moveTo m (reachable m n) st q \<noteq> []"
    and "st' \<in> set (moveTo m (reachable m n) st q) \<Longrightarrow> fst st' = Some q \<and> goodState m st'"
proof -
  have qr: "q < length (positions m)" by (rule candidates_range [OF sm g q])
  have en: "goodState m (Some q, encodeCounts v)" if "entered m q v" for v
    using entered_encode [OF that] soundModelD(1) [OF sm qr] qr by (simp add: goodState_def)
  have "moveTo m (reachable m n) st q \<noteq> [] \<and> (\<forall>st' \<in> set (moveTo m (reachable m n) st q). fst st' = Some q \<and> goodState m st')"
  proof (cases st)
    case (Pair o' v)
    show ?thesis
    proof (cases o')
      case None
      then show ?thesis using Pair en [OF enterCounts_entered [OF sm qr]] by (simp add: moveTo_def)
    next
      case (Some p)
      have p: "p < length (positions m)" "entered m p v" using g goodStateD unfolding Pair Some by blast+
      have "(p, q) \<in> edgesOf m" using q p by (simp add: Pair Some candidates_def edgesOf_def)
      then have ed: "edgeOK m p q" using sm by (auto simp: soundModel_def)
      have "stepCounts m (reachable m n) p q v \<noteq> []"
        using stepReading_some [OF sm p(1) qr p(2) ed, of n] stepCounts_set [of m "reachable m n" p q v] by auto
      moreover have "goodState m (Some q, encodeCounts v')" if "v' \<in> set (stepCounts m (reachable m n) p q v)" for v'
        using that en stepReading_entered [OF sm p(1) qr p(2)] unfolding stepCounts_set by blast
      ultimately show ?thesis by (auto simp: Pair Some moveTo_def)
    qed
  qed
  then show "moveTo m (reachable m n) st q \<noteq> []"
    "st' \<in> set (moveTo m (reachable m n) st q) \<Longrightarrow> fst st' = Some q \<and> goodState m st'" by blast+
qed

lemma nextStates_set:
  "set (nextStates m ok reach states) =
     {st'. \<exists>st \<in> set states. \<exists>q \<in> set (candidates m st). ok q \<and> st' \<in> set (moveTo m reach st q)}"
proof -
  have f: "set (foldl addState acc xs) = set acc \<union> set xs" for acc and xs :: "matchState list"
    by (induction xs arbitrary: acc) (auto simp: addState_def)
  show ?thesis unfolding nextStates_def f by (auto split: if_splits)
qed

lemma nextStates_good:
  assumes sm: "soundModel m" and g: "\<And>st. st \<in> set states \<Longrightarrow> goodState m st"
  shows "st' \<in> set (nextStates m ok (reachable m n) states) \<Longrightarrow> goodState m st'"
    and "(\<exists>st' \<in> set (nextStates m ok (reachable m n) states). P (fst st')) \<longleftrightarrow>
      (\<exists>st \<in> set states. \<exists>q \<in> set (posCandidates m (fst st)). ok q \<and> P (Some q))"
proof -
  show "st' \<in> set (nextStates m ok (reachable m n) states) \<Longrightarrow> goodState m st'"
    using moveTo_good(2) [OF sm] g unfolding nextStates_set by blast
  show "(\<exists>st' \<in> set (nextStates m ok (reachable m n) states). P (fst st')) \<longleftrightarrow>
      (\<exists>st \<in> set states. \<exists>q \<in> set (posCandidates m (fst st)). ok q \<and> P (Some q))"
  proof
    assume "\<exists>st' \<in> set (nextStates m ok (reachable m n) states). P (fst st')"
    then obtain st' st q where "P (fst st')" "st \<in> set states" "q \<in> set (candidates m st)" "ok q"
      "st' \<in> set (moveTo m (reachable m n) st q)" unfolding nextStates_set by blast
    then show "\<exists>st \<in> set states. \<exists>q \<in> set (posCandidates m (fst st)). ok q \<and> P (Some q)"
      using moveTo_good(2) [OF sm g] unfolding candidates_pos by metis
  next
    assume "\<exists>st \<in> set states. \<exists>q \<in> set (posCandidates m (fst st)). ok q \<and> P (Some q)"
    then obtain st q where *: "st \<in> set states" "q \<in> set (candidates m st)" "ok q" "P (Some q)"
      unfolding candidates_pos by blast
    obtain st' where "st' \<in> set (moveTo m (reachable m n) st q)"
      using moveTo_good(1) [OF sm g [OF *(1)] *(2), of n] by (meson list.set_sel(1))
    then show "\<exists>st' \<in> set (nextStates m ok (reachable m n) states). P (fst st')"
      using * moveTo_good(2) [OF sm g [OF *(1)] *(2)] unfolding nextStates_set by (intro bexI [of _ st']) auto
  qed
qed

subsection \<open>The walk\<close>

lemma matchLoop_accepts:
  assumes sm: "soundModel m"
  shows "(\<And>st. st \<in> set states \<Longrightarrow> goodState m st) \<Longrightarrow> matchLoop m mt budget (reachable m n) i left states = (ok, at, err) \<Longrightarrow>
    (ok \<longrightarrow> (\<exists>st \<in> set states. posAccepts m mt i left (fst st))) \<and>
    (\<not> err \<longrightarrow> (\<exists>st \<in> set states. posAccepts m mt i left (fst st)) \<longrightarrow> ok)"
proof (induction left arbitrary: i states)
  case 0
  have "list_ex (accepting m) states \<longleftrightarrow> (\<exists>st \<in> set states. posAccepts m mt i 0 (fst st))"
    using accepting_good [OF sm 0(1)] by (auto simp: list_ex_iff)
  then show ?case using 0(2) by (auto split: if_splits)
next
  case (Suc left)
  let ?next = "nextStates m (mt i) (reachable m n) states"
  note N = nextStates_good [OF sm, of states, OF Suc.prems(1)]
  have g: "goodState m st'" if "st' \<in> set ?next" for st' using N(1) that by blast
  have r: "(\<exists>st \<in> set states. posAccepts m mt i (Suc left) (fst st)) \<longleftrightarrow> (\<exists>st' \<in> set ?next. posAccepts m mt (Suc i) left (fst st'))"
    using N(2) [of "mt i" n "posAccepts m mt (Suc i) left"] by simp
  show ?case
  proof (cases "?next = [] \<or> length ?next > budget")
    case True
    then show ?thesis using Suc.prems(2) unfolding r by (auto simp: Let_def split: if_splits)
  next
    case False
    then have "matchLoop m mt budget (reachable m n) (Suc i) left ?next = (ok, at, err)"
      using Suc.prems(2) by (simp add: Let_def)
    then show ?thesis using Suc.IH [OF g] unfolding r by blast
  qed
qed

lemma matchNames_accepts:
  assumes sm: "soundModel m"
    and r: "matchNames m (\<lambda>i p. posMatches (positions m ! p) (names ! i) None) (length names) budget = (ok, at, err)"
  shows "(ok \<longrightarrow> names \<in> modelLang m) \<and> (\<not> err \<longrightarrow> names \<in> modelLang m \<longrightarrow> ok)"
proof (cases "positions m = []")
  case True
  then have "set (firstPos m) = {}" "cmNullable m" using sm by (auto simp: soundModel_def)
  then have "modelLang m = {[]}" by (auto simp: modelLang_def nameLang_def pathLang_def)
  then show ?thesis using r True by (auto simp: matchNames_def)
next
  case False
  have "goodState m st" if "st \<in> set (initialStates m)" for st using that by (simp add: initialStates_def goodState_def)
  from matchLoop_accepts [OF sm this] show ?thesis
    using r False unfolding posAccepts_names [OF sm, symmetric] by (fastforce simp: matchNames_def initialStates_def)
qed

end
