(* ===== verification/XsdLimits.thy ===== *)
theory XsdLimits
  imports XsdAccept
begin

text \<open>
  What the compiler refuses, and what the packing of counts cannot tell apart.
\<close>

subsection \<open>The budget of positions\<close>

definition within :: "contentModel \<Rightarrow> contentModel \<Rightarrow> bool" where
  "within m m' \<longleftrightarrow> maxPositions m' = maxPositions m \<and> (length (positions m) \<le> maxPositions m \<longrightarrow> length (positions m') \<le> maxPositions m)"

lemma within_refl [simp]: "within m m"
  by (simp add: within_def)

lemma within_trans: "within a b \<Longrightarrow> within b c \<Longrightarrow> within a c"
  by (simp add: within_def)

lemma addFollows_max [simp]: "maxPositions (addFollows m ls to) = maxPositions m"
  by (induction ls arbitrary: m) (simp_all add: addFollows_def addFollow_def)

lemma within_addFollows [simp]: "within m (addFollows m' ls to) = within m m'"
  by (simp add: within_def)

lemma within_openScope: "within m (if b then openScope m p enc else m)"
  by (simp add: within_def openScope_def)

lemma within_finish: "finishParticle m p sc k mark inner = (f, m') \<Longrightarrow> within m m'"
  by (auto simp: finishParticle_def Let_def within_def closeScope_def split: if_splits)

lemma within_addPosition: "length (positions m) < maxPositions m \<Longrightarrow> within m (addPosition m p s)"
  by (simp add: within_def addPosition_def)

lemma within_buildAllLoop: "buildAllLoop m ps scope out = Inr (f, m') \<Longrightarrow> within m m'"
proof (induction m ps scope out rule: buildAllLoop.induct)
  case (2 m p ps scope out)
  then have "length (positions m) < maxPositions m" "within (addPosition m p scope) m'"
    by (auto simp: Let_def split: if_splits)
  then show ?case using within_addPosition within_trans by blast
qed simp

text \<open>A build entering a group hands it to one of the three group builders.\<close>

lemma build_group_cases [case_names groupBuilt]:
  assumes "TermOf p = GroupTerm g" "build G active m p enc = Inr (f, m')" "g < length G"
  obtains m1 s inner m2 where
    "within m m1" "g \<notin> set active"
    "finishParticle m2 p (MinOccurs p \<noteq> 1 \<or> MaxOccurs p \<noteq> 1) (length (counters m)) (length (edges m1)) inner = (f, m')"
    "m1 = (if MinOccurs p \<noteq> 1 \<or> MaxOccurs p \<noteq> 1 then openScope m p enc else m)"
    "s = (if MinOccurs p \<noteq> 1 \<or> MaxOccurs p \<noteq> 1 then Some (length (counters m)) else enc)"
    "Compositor (G ! g) = CompositorSequence \<and>
       buildSequence G (g # active) m1 (Particles (G ! g)) s (emptyFrag True) = Inr (inner, m2) \<or>
     Compositor (G ! g) = CompositorChoice \<and>
       buildChoice G (g # active) m1 (Particles (G ! g)) s (emptyFrag False) = Inr (inner, m2) \<or>
     Compositor (G ! g) = CompositorAll \<and> buildAll G m1 g s = Inr (inner, m2)"
proof -
  let ?m1 = "if MinOccurs p \<noteq> 1 \<or> MaxOccurs p \<noteq> 1 then openScope m p enc else m"
  let ?s = "if MinOccurs p \<noteq> 1 \<or> MaxOccurs p \<noteq> 1 then Some (length (counters m)) else enc"
  have a: "g \<notin> set active" using assms by (auto simp: Let_def)
  obtain inner m2 where r: "(case Compositor (G ! g) of
        CompositorSequence \<Rightarrow> buildSequence G (g # active) ?m1 (Particles (G ! g)) ?s (emptyFrag True)
      | CompositorChoice \<Rightarrow> buildChoice G (g # active) ?m1 (Particles (G ! g)) ?s (emptyFrag False)
      | CompositorAll \<Rightarrow> buildAll G ?m1 g ?s) = Inr (inner, m2)"
    and fin: "finishParticle m2 p (MinOccurs p \<noteq> 1 \<or> MaxOccurs p \<noteq> 1) (length (counters m)) (length (edges ?m1)) inner = (f, m')"
    using assms by (auto simp: Let_def bindE_Inr_iff split: if_splits)
  show ?thesis
    by (rule that [OF within_openScope a fin refl refl]) (use r in \<open>cases "Compositor (G ! g)"; simp\<close>)
qed

lemma build_within:
  shows "build G active m p enc = Inr (f, m') \<Longrightarrow> within m m'"
    and "buildSequence G active m ps enc out = Inr (f, m') \<Longrightarrow> within m m'"
    and "buildChoice G active m ps enc out = Inr (f, m') \<Longrightarrow> within m m'"
proof (induction G active m p enc and G active m ps enc out and G active m ps enc out arbitrary: f m' and f m' and f m'
    rule: build_buildSequence_buildChoice.induct)
  case (1 G active m p enc)
  let ?m1 = "if MinOccurs p \<noteq> 1 \<or> MaxOccurs p \<noteq> 1 then openScope m p enc else m"
  have leaf: "within m m'" if "finishParticle (addPosition ?m1 p s) p sc k mark inner = (f, m')"
      "length (positions ?m1) < maxPositions ?m1" for s sc k mark inner
    using within_trans [OF within_trans [OF within_openScope within_addPosition [OF that(2)]] within_finish [OF that(1)]] .
  show ?case
  proof (cases "TermOf p")
    case (GroupTerm g)
    show ?thesis
    proof (cases "g < length G")
      case True
      from GroupTerm 1(3) True show ?thesis
      proof (cases rule: build_group_cases)
        case (groupBuilt m1 s inner m2)
        have ng: "\<not> \<not> g < length G" using True by simp
        note ih = 1(1,2) [OF refl refl refl refl refl GroupTerm groupBuilt(2) ng, folded groupBuilt(4,5)]
        have "within m1 m2" using groupBuilt(6)
        proof (elim disjE conjE)
          assume "Compositor (G ! g) = CompositorAll" "buildAll G m1 g s = Inr (inner, m2)"
          then show ?thesis using within_buildAllLoop unfolding buildAll_def by blast
        qed (rule ih; assumption)+
        then show ?thesis using within_trans [OF within_trans [OF groupBuilt(1)] within_finish [OF groupBuilt(3)]] by blast
      qed
    next
      case False
      then show ?thesis using 1(3) GroupTerm within_openScope [of m True p enc] by (auto simp: Let_def split: if_splits)
    qed
  next
    case NilTerm
    then show ?thesis using 1(3) within_openScope [of m True p enc] by (auto simp: Let_def split: if_splits)
  qed (use 1(3) leaf in \<open>simp add: Let_def not_le split: if_splits\<close>)+
next
  case (3 G active m p ps enc out)
  from 3(3) obtain f1 m1 where r: "build G active m p enc = Inr (f1, m1)"
    and s: "buildSequence G active (addFollows m1 (flast out) (ffirst f1)) ps enc (seqFrag out f1) = Inr (f, m')"
    by (auto simp: bindE_Inr_iff)
  have "within m (addFollows m1 (flast out) (ffirst f1))" using 3(1) [OF r] by simp
  then show ?case using 3(2) [OF _ _ s] r within_trans by blast
next
  case (5 G active m p ps enc out)
  from 5(3) obtain f1 m1 where r: "build G active m p enc = Inr (f1, m1)"
    and s: "buildChoice G active m1 ps enc (choiceFrag out f1) = Inr (f, m')"
    by (auto simp: bindE_Inr_iff)
  then show ?case using 5(1) [OF r] 5(2) [OF _ _ s] within_trans by blast
qed simp_all

subsection \<open>Groups that reach themselves\<close>

definition groupEdges :: "modelGroup list \<Rightarrow> (nat \<times> nat) set" where
  "groupEdges G = {(a, b). a < length G \<and> b < length G \<and> Compositor (G ! a) \<noteq> CompositorAll \<and>
     (\<exists>q \<in> set (Particles (G ! a)). TermOf q = GroupTerm b)}"

definition freeFrom :: "modelGroup list \<Rightarrow> nat list \<Rightarrow> particle \<Rightarrow> bool" where
  "freeFrom G active p \<longleftrightarrow>
     (\<forall>g h. TermOf p = GroupTerm g \<and> g < length G \<and> (g, h) \<in> (groupEdges G)\<^sup>* \<longrightarrow> h \<notin> set active \<and> (h, h) \<notin> (groupEdges G)\<^sup>+)"

lemma freeFrom_group:
  assumes t: "TermOf p = GroupTerm g" and a: "g \<notin> set active"
    and kids: "Compositor (G ! g) \<noteq> CompositorAll \<Longrightarrow> \<forall>q \<in> set (Particles (G ! g)). freeFrom G (g # active) q"
  shows "freeFrom G active p"
proof -
  have kid: "h \<notin> set (g # active) \<and> (h, h) \<notin> (groupEdges G)\<^sup>+" if "(g, b) \<in> groupEdges G" "(b, h) \<in> (groupEdges G)\<^sup>*" for b h
    using kids that unfolding groupEdges_def [of G] freeFrom_def by blast
  have "h \<notin> set active \<and> (h, h) \<notin> (groupEdges G)\<^sup>+" if gh: "(g, h) \<in> (groupEdges G)\<^sup>*" for h
  proof (cases "h = g")
    case True
    have "(g, g) \<notin> (groupEdges G)\<^sup>+"
    proof
      assume "(g, g) \<in> (groupEdges G)\<^sup>+"
      then obtain b where "(g, b) \<in> groupEdges G" "(b, g) \<in> (groupEdges G)\<^sup>*" by (meson tranclD)
      then show False using kid by auto
    qed
    then show ?thesis using True a by simp
  next
    case False
    then obtain b where "(g, b) \<in> groupEdges G" "(b, h) \<in> (groupEdges G)\<^sup>*" using gh by (metis converse_rtranclE)
    then show ?thesis using kid by auto
  qed
  then show ?thesis by (auto simp: freeFrom_def t)
qed

lemma build_acyclic:
  shows "build G active m p enc = Inr (f, m') \<Longrightarrow> freeFrom G active p"
    and "buildSequence G active m ps enc out = Inr (f, m') \<Longrightarrow> \<forall>q \<in> set ps. freeFrom G active q"
    and "buildChoice G active m ps enc out = Inr (f, m') \<Longrightarrow> \<forall>q \<in> set ps. freeFrom G active q"
proof (induction G active m p enc and G active m ps enc out and G active m ps enc out arbitrary: f m' and f m' and f m'
    rule: build_buildSequence_buildChoice.induct)
  case (1 G active m p enc)
  show ?case
  proof (cases "\<exists>g. TermOf p = GroupTerm g \<and> g < length G")
    case True
    then obtain g where g: "TermOf p = GroupTerm g" "g < length G" by blast
    from g(1) 1(3) g(2) show ?thesis
    proof (cases rule: build_group_cases)
      case (groupBuilt m1 s inner m2)
      have ng: "\<not> \<not> g < length G" using g(2) by simp
      note ih = 1(1,2) [OF refl refl refl refl refl g(1) groupBuilt(2) ng, folded groupBuilt(4,5)]
      show ?thesis
      proof (rule freeFrom_group [OF g(1) groupBuilt(2)])
        assume "Compositor (G ! g) \<noteq> CompositorAll"
        then show "\<forall>q \<in> set (Particles (G ! g)). freeFrom G (g # active) q"
          using groupBuilt(6) ih by (elim disjE conjE) simp_all
      qed
    qed
  next
    case False
    then show ?thesis by (auto simp: freeFrom_def)
  qed
next
  case (3 G active m p ps enc out)
  then show ?case by (fastforce simp: bindE_Inr_iff)
next
  case (5 G active m p ps enc out)
  then show ?case by (fastforce simp: bindE_Inr_iff)
qed simp_all

end
