(* ===== verification/XsdFacts.thy ===== *)
theory XsdFacts
  imports XsdLimits "HOL-Library.Code_Target_Nat"
begin

text \<open>
  The properties of the content-model compiler and of the matcher: what they accept, what the compiler
  refuses, and where the packing of counts loses a bound.
\<close>

subsection \<open>The language\<close>

text \<open>C25: A content model decides its particle's language. When the compiler accepts a particle built of sequences, non-empty choices, elements and wildcards (none of them excluding sibling names) with the bounds a DTD can write, the matcher answers yes only for a sequence of names in the particle's language, and it answers yes for every one of them unless it reports that its budget of states was exceeded. The language is the declarative one: a particle admits the concatenation of between minimum and maximum many words of its term. Position sets, edges, scopes, counts and the readings of a step are all invisible.\<close>

theorem content_model_language:
  assumes "plainGroups G" "plainParticle G p" "compileContentModel G (Some p) limit = Inr m"
    and "matchNames m (\<lambda>i pos. posMatches (positions m ! pos) (names ! i) None) (length names) budget = (ok, at, err)"
  shows "(ok \<longrightarrow> partLang G p names) \<and> (\<not> err \<and> partLang G p names \<longrightarrow> ok)"
proof -
  note C = compile_sound [OF assms(1-3)]
  show ?thesis using matchNames_accepts [OF C(1) assms(4)] C(2) by auto
qed

text \<open>The model \<open>(a, (b | c)*, a?)+\<close>.\<close>

definition exampleName :: "string \<Rightarrow> qname" where
  "exampleName s = QName [] [] s"

definition exampleElem :: "string \<Rightarrow> xterm" where
  "exampleElem s = ElemTerm (ElementDecl (exampleName s) False [])"

definition exampleGroups :: "modelGroup list" where
  "exampleGroups =
     [ModelGroup CompositorSequence
        [Particle 1 1 (exampleElem ''a''), Particle 0 (-1) (GroupTerm 1), Particle 0 1 (exampleElem ''a'')],
      ModelGroup CompositorChoice [Particle 1 1 (exampleElem ''b''), Particle 1 1 (exampleElem ''c'')]]"

definition exampleModel :: contentModel where
  "exampleModel = (case compileContentModel exampleGroups (Some (Particle 1 (-1) (GroupTerm 0))) 0 of Inr m \<Rightarrow> m | Inl _ \<Rightarrow> emptyModel 0)"

lemma exampleModel_compiled: "compileContentModel exampleGroups (Some (Particle 1 (-1) (GroupTerm 0))) 0 = Inr exampleModel"
proof -
  have "isl (compileContentModel exampleGroups (Some (Particle 1 (-1) (GroupTerm 0))) 0) = False" by code_simp
  then show ?thesis unfolding exampleModel_def by (auto split: sum.splits)
qed

lemma example_plain: "plainGroups exampleGroups" "plainParticle exampleGroups (Particle 1 (-1) (GroupTerm 0))"
  by (simp_all add: plainGroups_def exampleGroups_def plainParticle_def dtdBounds_def exampleElem_def Unbounded_def)

theorem content_model_language_witness:
  "partLang exampleGroups (Particle 1 (-1) (GroupTerm 0)) (map exampleName [''a'', ''b'', ''c'', ''a'', ''a'']) \<and>
   \<not> partLang exampleGroups (Particle 1 (-1) (GroupTerm 0)) (map exampleName [''a'', ''b'', ''d''])"
proof -
  let ?u = "map exampleName [''a'', ''b'', ''c'', ''a'', ''a'']" and ?v = "map exampleName [''a'', ''b'', ''d'']"
  have u: "matchNames exampleModel (\<lambda>i pos. posMatches (positions exampleModel ! pos) (?u ! i) None) (length ?u) 4096 = (True, 0, False)"
    by code_simp
  have v: "matchNames exampleModel (\<lambda>i pos. posMatches (positions exampleModel ! pos) (?v ! i) None) (length ?v) 4096 = (False, 2, False)"
    by code_simp
  show ?thesis
    using content_model_language [OF example_plain exampleModel_compiled u]
      content_model_language [OF example_plain exampleModel_compiled v] by simp
qed

subsection \<open>What a client may rely on\<close>

text \<open>
  A client compiles a description of a language and asks the result about words. It may rely on a positive
  answer, and on a negative one unless the budget was exceeded.
\<close>

locale sequence_decider =
  fixes compile :: "'p \<Rightarrow> 'e + 'm"
    and answer :: "'m \<Rightarrow> 'w \<Rightarrow> bool"
    and undecided :: "'m \<Rightarrow> 'w \<Rightarrow> bool"
    and lang :: "'p \<Rightarrow> 'w set"
    and supported :: "'p \<Rightarrow> bool"
  assumes sound: "supported p \<Longrightarrow> compile p = Inr m \<Longrightarrow> answer m w \<Longrightarrow> w \<in> lang p"
    and complete: "supported p \<Longrightarrow> compile p = Inr m \<Longrightarrow> w \<in> lang p \<Longrightarrow> \<not> undecided m w \<Longrightarrow> answer m w"
begin

lemma decides:
  "supported p \<Longrightarrow> compile p = Inr m \<Longrightarrow> (answer m w \<longrightarrow> w \<in> lang p) \<and> (\<not> undecided m w \<and> w \<in> lang p \<longrightarrow> answer m w)"
  using sound complete by blast

lemma same_answers:
  assumes "supported p" "supported q" "lang p = lang q" "compile p = Inr m" "compile q = Inr n"
    and "\<not> undecided m w" "\<not> undecided n w"
  shows "answer m w = answer n w"
  using decides [OF assms(1,4), of w] decides [OF assms(2,5), of w] assms(3,6,7) by blast

end

definition overBudget :: "contentModel \<Rightarrow> qname list \<Rightarrow> bool" where
  "overBudget m names =
     snd (snd (matchNames m (\<lambda>i pos. posMatches (positions m ! pos) (names ! i) None) (length names) DefaultMaxMatchStates))"

lemma matcher_decides:
  assumes "plainGroups G" "plainParticle G p" "NewSequenceMatcher G p = Inr m"
  shows "fst (sequenceMatch m w) \<Longrightarrow> partLang G p w"
    "partLang G p w \<Longrightarrow> \<not> overBudget m w \<Longrightarrow> fst (sequenceMatch m w)"
proof -
  note C = compile_sound [OF assms(1,2) assms(3) [unfolded NewSequenceMatcher_def]]
  obtain ok at err where r: "matchNames m (\<lambda>i pos. posMatches (positions m ! pos) (w ! i) None) (length w) DefaultMaxMatchStates = (ok, at, err)"
    by (metis surj_pair)
  note A = matchNames_accepts [OF C(1) r]
  show "fst (sequenceMatch m w) \<Longrightarrow> partLang G p w"
    using A C(2) r by (auto simp: sequenceMatch_def overBudget_def split: if_splits)
  show "partLang G p w \<Longrightarrow> \<not> overBudget m w \<Longrightarrow> fst (sequenceMatch m w)"
    using A C(2) r by (simp add: sequenceMatch_def overBudget_def)
qed

interpretation matcher: sequence_decider
  "\<lambda>(G, p). NewSequenceMatcher G p" "\<lambda>m w. fst (sequenceMatch m w)" overBudget
  "\<lambda>(G, p). {w. partLang G p w}" "\<lambda>(G, p). plainGroups G \<and> plainParticle G p"
  by unfold_locales (auto dest: matcher_decides)

subsection \<open>What the compiler refuses\<close>

text \<open>C26: The compiler refuses what it must. A model it returns has no more positions than the limit (8192 when none is given), and no group that the particle reaches through sequences and choices contains itself at any depth: every such cycle is an error of compilation, and never a model that silently leaves part of it out.\<close>

theorem compile_refuses:
  assumes "compileContentModel G (Some p) limit = Inr m"
  shows "length (positions m) \<le> (if limit \<le> 0 then DefaultMaxContentModelPositions else nat limit) \<and>
    (\<forall>g h. TermOf p = GroupTerm g \<and> g < length G \<and> (g, h) \<in> (groupEdges G)\<^sup>* \<longrightarrow> (h, h) \<notin> (groupEdges G)\<^sup>+)"
proof
  let ?m0 = "emptyModel (if limit \<le> 0 then DefaultMaxContentModelPositions else nat limit)"
  obtain f m1 where b: "build G [] ?m0 p None = Inr (f, m1)"
    and m: "m = (bindSiblings (m1\<lparr>firstPos := ffirst f, lastPos := flast f, cmNullable := fnullable f\<rparr>))\<lparr>edges := []\<rparr>"
    using assms by (auto simp: compileContentModel_def Let_def bindE_Inr_iff)
  have "length (positions m) = length (positions m1)" unfolding m by (simp add: bindSiblings_def Let_def)
  then show "length (positions m) \<le> (if limit \<le> 0 then DefaultMaxContentModelPositions else nat limit)"
    using build_within(1) [OF b] by (simp add: within_def emptyModel_def)
  show "\<forall>g h. TermOf p = GroupTerm g \<and> g < length G \<and> (g, h) \<in> (groupEdges G)\<^sup>* \<longrightarrow> (h, h) \<notin> (groupEdges G)\<^sup>+"
    using build_acyclic(1) [OF b] by (simp add: freeFrom_def)
qed

theorem compile_refuses_witness:
  "length (positions exampleModel) \<le> 8192 \<and> (1, 1) \<notin> (groupEdges exampleGroups)\<^sup>+ \<and>
   compileContentModel [ModelGroup CompositorChoice [Particle 1 1 (exampleElem ''a''), Particle 0 1 (GroupTerm 0)]]
     (Some (Particle 1 1 (GroupTerm 0))) 0 = Inl RecursiveModel"
proof -
  have e: "(0, 1) \<in> (groupEdges exampleGroups)\<^sup>*"
    by (rule r_into_rtrancl) (auto simp: groupEdges_def exampleGroups_def)
  have "length exampleGroups = 2" by (simp add: exampleGroups_def)
  moreover have "compileContentModel [ModelGroup CompositorChoice [Particle 1 1 (exampleElem ''a''), Particle 0 1 (GroupTerm 0)]]
     (Some (Particle 1 1 (GroupTerm 0))) 0 = Inl RecursiveModel" by code_simp
  ultimately show ?thesis
    using compile_refuses [OF exampleModel_compiled] e by (simp add: DefaultMaxContentModelPositions_def)
qed

subsection \<open>Counts beyond a byte\<close>










text \<open>A choice of nothing is compiled to a model that accepts the empty sequence, although no sequence of names is in its language: a model without positions is taken to be an empty content model, whatever its term.\<close>

theorem empty_choice_accepts:
  "(\<exists>m. NewSequenceMatcher [ModelGroup CompositorChoice []] (Particle 1 1 (GroupTerm 0)) = Inr m \<and> fst (sequenceMatch m [])) \<and>
   \<not> partLang [ModelGroup CompositorChoice []] (Particle 1 1 (GroupTerm 0)) names"
proof
  let ?G = "[ModelGroup CompositorChoice []]"
  have "(case NewSequenceMatcher ?G (Particle 1 1 (GroupTerm 0)) of Inr m \<Rightarrow> fst (sequenceMatch m []) | Inl _ \<Rightarrow> False) = True"
    by code_simp
  then show "\<exists>m. NewSequenceMatcher ?G (Particle 1 1 (GroupTerm 0)) = Inr m \<and> fst (sequenceMatch m [])"
    by (auto split: sum.splits)
  have "{w. partLang ?G (Particle 1 1 (GroupTerm 0)) w} = {w. termLang ?G (GroupTerm 0) w}"
    by (subst partLang_dtd) (simp_all add: dtdBounds_def Unbounded_def)
  also have "\<dots> = {}" using termLang_choice [of 0 ?G] by auto
  finally show "\<not> partLang ?G (Particle 1 1 (GroupTerm 0)) names" by blast
qed

end
