(* ===== verification/XsdUpa.thy ===== *)
theory XsdUpa
  imports XsdFacts
begin

text \<open>
  Unique particle attribution (\<open>xsd/upa.go\<close>): the check that no state of a compiled content model has two
  positions that can match the same element, and what follows for the models that pass it. Whether two terms are
  one declaration is a question of identity in the Go code, and a parameter here.
\<close>

subsection \<open>The check\<close>

datatype version = Version10 | Version11

record checkOptions =
  LaxUPA :: bool
  Version :: version

datatype upaError = TooWide | TooManyPairs | Ambiguous xterm xterm

definition maxUPAStateWidth :: nat where "maxUPAStateWidth = 256"
definition maxUPAPairTests :: nat where "maxUPAPairTests = 2 ^ 22"

definition elementNamesOverlap :: "elementDecl \<Rightarrow> elementDecl \<Rightarrow> bool" where
  "elementNamesOverlap a b \<longleftrightarrow>
     (if edName a = edName b then True
      else if list_ex (\<lambda>sub. edName sub = edName a) (substitutable b) then True
      else if list_ex (\<lambda>sub. edName sub = edName b) (substitutable a) then True
      else if substitutable a = [] \<or> substitutable b = [] then False
      else
        let (small, large) =
          (if length (substitutable a) > length (substitutable b) then (substitutable b, substitutable a)
           else (substitutable a, substitutable b))
        in list_ex (\<lambda>sub. edName sub \<in> set (map edName small)) large)"

definition wildcardAdmitsElement :: "wildcard \<Rightarrow> elementDecl \<Rightarrow> bool" where
  "wildcardAdmitsElement w d \<longleftrightarrow>
     Allows w (quri (edName d)) \<or> list_ex (\<lambda>sub. Allows w (quri (edName sub))) (substitutable d)"

definition wildcardsOverlap :: "wildcard \<Rightarrow> wildcard \<Rightarrow> bool" where
  "wildcardsOverlap a b \<longleftrightarrow>
     (if Kind a = NSAny \<or> Kind b = NSAny then True
      else if Kind a = NSNot \<and> Kind b = NSNot then True
      else
        let (a, b) = (if Kind a = NSNot then (b, a) else (a, b)) in
        list_ex (Allows b) (Namespace a))"

definition positionsCompete :: "position \<Rightarrow> position \<Rightarrow> version \<Rightarrow> bool" where
  "positionsCompete a b v \<longleftrightarrow>
     (case pterm a of
        ElemTerm ta \<Rightarrow>
          (case pterm b of
             ElemTerm tb \<Rightarrow> elementNamesOverlap ta tb
           | WildTerm tb \<Rightarrow> v = Version10 \<and> wildcardAdmitsElement tb ta
           | _ \<Rightarrow> False)
      | WildTerm ta \<Rightarrow>
          (case pterm b of
             ElemTerm tb \<Rightarrow> v = Version10 \<and> wildcardAdmitsElement ta tb
           | WildTerm tb \<Rightarrow> wildcardsOverlap ta tb
           | _ \<Rightarrow> False)
      | _ \<Rightarrow> False)"

definition sameDeclaration :: "(elementDecl \<Rightarrow> elementDecl \<Rightarrow> bool) \<Rightarrow> position \<Rightarrow> position \<Rightarrow> bool" where
  "sameDeclaration same a b \<longleftrightarrow>
     (case pterm a of
        ElemTerm da \<Rightarrow> (case pterm b of ElemTerm db \<Rightarrow> same da db | _ \<Rightarrow> False)
      | _ \<Rightarrow> False)"

definition exitBlocked :: "contentModel \<Rightarrow> position \<Rightarrow> position \<Rightarrow> bool" where
  "exitBlocked m inner outer \<longleftrightarrow>
     list_ex (\<lambda>c. c \<notin> set (pcounters outer) \<and> cmin (counters m ! c) > 1) (pcounters inner)"

definition counterForces :: "contentModel \<Rightarrow> position \<Rightarrow> position \<Rightarrow> bool" where
  "counterForces m a b \<longleftrightarrow> exitBlocked m a b \<or> exitBlocked m b a"

definition violates :: "(elementDecl \<Rightarrow> elementDecl \<Rightarrow> bool) \<Rightarrow> contentModel \<Rightarrow> checkOptions \<Rightarrow> bool \<Rightarrow> position \<Rightarrow> position \<Rightarrow> bool" where
  "violates same m opts initial a b \<longleftrightarrow>
     positionsCompete a b (Version opts) \<and> \<not> (LaxUPA opts \<and> sameDeclaration same a b) \<and> \<not> (\<not> initial \<and> counterForces m a b)"

text \<open>The two loops over the pairs of a state.\<close>

fun scanWith :: "(elementDecl \<Rightarrow> elementDecl \<Rightarrow> bool) \<Rightarrow> contentModel \<Rightarrow> checkOptions \<Rightarrow> bool \<Rightarrow> nat \<Rightarrow> nat list \<Rightarrow> upaError option" where
  "scanWith same m opts initial i [] = None"
| "scanWith same m opts initial i (j # js) =
     (if violates same m opts initial (positions m ! i) (positions m ! j)
      then Some (Ambiguous (pterm (positions m ! i)) (pterm (positions m ! j)))
      else scanWith same m opts initial i js)"

fun scanPairs :: "(elementDecl \<Rightarrow> elementDecl \<Rightarrow> bool) \<Rightarrow> contentModel \<Rightarrow> checkOptions \<Rightarrow> bool \<Rightarrow> nat list \<Rightarrow> upaError option" where
  "scanPairs same m opts initial [] = None"
| "scanPairs same m opts initial (i # is) =
     (case scanWith same m opts initial i is of
        Some e \<Rightarrow> Some e
      | None \<Rightarrow> scanPairs same m opts initial is)"

fun scanStates :: "(elementDecl \<Rightarrow> elementDecl \<Rightarrow> bool) \<Rightarrow> contentModel \<Rightarrow> checkOptions \<Rightarrow> nat \<Rightarrow> (nat list \<times> bool) list \<Rightarrow> upaError option" where
  "scanStates same m opts budget [] = None"
| "scanStates same m opts budget ((state, initial) # states) =
     (if length state > maxUPAStateWidth then Some TooWide
      else
        let pairs = length state * (length state - 1) div 2 in
        if pairs > budget then Some TooManyPairs
        else
          (case scanPairs same m opts initial state of
             Some e \<Rightarrow> Some e
           | None \<Rightarrow> scanStates same m opts (budget - pairs) states))"

definition checkUPA :: "(elementDecl \<Rightarrow> elementDecl \<Rightarrow> bool) \<Rightarrow> contentModel \<Rightarrow> checkOptions \<Rightarrow> upaError option" where
  "checkUPA same m opts = scanStates same m opts maxUPAPairTests ((firstPos m, True) # map (\<lambda>f. (f, False)) (follow m))"

subsection \<open>Competing positions\<close>

lemma posMatches_term:
  "posMatches pos x None = (case pterm pos of ElemTerm d \<Rightarrow> elemMatches d x | WildTerm w \<Rightarrow> AllowsName w x None | _ \<Rightarrow> False)"
  by (auto simp: posMatches_def elemMatches_def list_ex_iff split: xterm.splits)

definition declNames :: "elementDecl \<Rightarrow> qname set" where
  "declNames d = insert (edName d) (edName ` set (substitutable d))"

lemma declNames_matches: "elemMatches d x \<Longrightarrow> x \<in> declNames d"
  by (auto simp: elemMatches_def declNames_def)

lemma names_overlap: "elementNamesOverlap a b \<longleftrightarrow> declNames a \<inter> declNames b \<noteq> {}"
proof -
  let ?A = "edName ` set (substitutable a)" and ?B = "edName ` set (substitutable b)"
  have one: "list_ex (\<lambda>sub. edName sub = x) ds \<longleftrightarrow> x \<in> edName ` set ds" for x ds by (auto simp: list_ex_iff)
  have two: "list_ex (\<lambda>sub. edName sub \<in> set (map edName small)) large \<longleftrightarrow> edName ` set small \<inter> edName ` set large \<noteq> {}" for small large
  proof -
    have "list_ex (\<lambda>sub. edName sub \<in> S) large \<longleftrightarrow> S \<inter> edName ` set large \<noteq> {}" for S by (auto simp: list_ex_iff)
    then show ?thesis by simp
  qed
  have e: "substitutable a = [] \<or> substitutable b = [] \<Longrightarrow> ?A \<inter> ?B = {}" by auto
  have "elementNamesOverlap a b \<longleftrightarrow> edName a = edName b \<or> edName a \<in> ?B \<or> edName b \<in> ?A \<or> ?A \<inter> ?B \<noteq> {}"
    unfolding elementNamesOverlap_def one Let_def using e two [of "substitutable a" "substitutable b"] two [of "substitutable b" "substitutable a"]
    by (simp add: Int_commute)
  moreover have "insert p A \<inter> insert q B \<noteq> {} \<longleftrightarrow> p = q \<or> p \<in> B \<or> q \<in> A \<or> A \<inter> B \<noteq> {}" for p q :: qname and A B by auto
  ultimately show ?thesis by (simp only: declNames_def)
qed

lemma wildcards_common: "Allows a ns \<Longrightarrow> Allows b ns \<Longrightarrow> wildcardsOverlap a b"
  by (cases "Kind a"; cases "Kind b") (auto simp: wildcardsOverlap_def Allows_def list_ex_iff split: if_splits)

lemma wildcardsOverlap_sym: "wildcardsOverlap a b = wildcardsOverlap b a"
  by (cases "Kind a"; cases "Kind b") (auto simp: wildcardsOverlap_def Allows_def list_ex_iff)

text \<open>In version 1.0, two positions that match one name compete, and competition does not depend on the order.\<close>

lemma match_competes:
  assumes "posMatches a x None" "posMatches b x None"
  shows "positionsCompete a b Version10"
proof -
  have w: "wildcardAdmitsElement w d" if "AllowsName w x None" "elemMatches d x" for w d
    using that by (auto simp: wildcardAdmitsElement_def elemMatches_def AllowsName_def list_ex_iff)
  have e: "elementNamesOverlap d d'" if "elemMatches d x" "elemMatches d' x" for d d'
    using that declNames_matches unfolding names_overlap by blast
  have v: "wildcardsOverlap u u'" if "AllowsName u x None" "AllowsName u' x None" for u u'
    using that wildcards_common by (auto simp: AllowsName_def)
  show ?thesis using assms w e v by (auto simp: posMatches_term positionsCompete_def split: xterm.splits)
qed

lemma competes_sym: "positionsCompete a b v = positionsCompete b a v"
proof -
  have "elementNamesOverlap d d' = elementNamesOverlap d' d" for d d' unfolding names_overlap by blast
  then show ?thesis using wildcardsOverlap_sym by (auto simp: positionsCompete_def split: xterm.splits)
qed

subsection \<open>What the check finds\<close>

lemma scanWith_None: "scanWith same m opts ini i js = None \<Longrightarrow> j \<in> set js \<Longrightarrow> \<not> violates same m opts ini (positions m ! i) (positions m ! j)"
  by (induction js) (auto split: if_splits)

lemma counterForces_sym: "counterForces m a b = counterForces m b a"
  by (auto simp: counterForces_def)

text \<open>The pairs are scanned in the order of the state; for the strict reading the order makes no difference.\<close>

lemma scanPairs_None:
  assumes "\<not> LaxUPA opts"
  shows "scanPairs same m opts ini is = None \<Longrightarrow> i \<in> set is \<Longrightarrow> j \<in> set is \<Longrightarrow> i \<noteq> j \<Longrightarrow>
    \<not> violates same m opts ini (positions m ! i) (positions m ! j)"
proof (induction "is")
  case (Cons k ks)
  have sym: "violates same m opts ini a b = violates same m opts ini b a" for a b
    using assms by (simp add: violates_def competes_sym [of a b] counterForces_sym [of m a b])
  have k: "scanWith same m opts ini k ks = None" "scanPairs same m opts ini ks = None"
    using Cons.prems(1) by (auto split: option.splits)
  consider "i = k" "j \<in> set ks" | "j = k" "i \<in> set ks" | "i \<in> set ks" "j \<in> set ks" using Cons.prems by auto
  then show ?case
  proof cases
    case 1
    then show ?thesis using scanWith_None [OF k(1)] by simp
  next
    case 2
    then show ?thesis using scanWith_None [OF k(1)] sym by simp
  next
    case 3
    then show ?thesis using Cons.IH k(2) Cons.prems(4) by simp
  qed
qed simp

lemma scanStates_None:
  "scanStates same m opts budget states = None \<Longrightarrow> (state, ini) \<in> set states \<Longrightarrow> scanPairs same m opts ini state = None"
  by (induction same m opts budget states rule: scanStates.induct) (auto simp: Let_def split: if_splits option.splits)

lemma checkUPA_None:
  assumes u: "checkUPA same m opts = None" "\<not> LaxUPA opts" "i \<noteq> j"
  shows "i \<in> set (firstPos m) \<Longrightarrow> j \<in> set (firstPos m) \<Longrightarrow> \<not> violates same m opts True (positions m ! i) (positions m ! j)"
    "p < length (follow m) \<Longrightarrow> i \<in> set (follow m ! p) \<Longrightarrow> j \<in> set (follow m ! p) \<Longrightarrow>
       \<not> violates same m opts False (positions m ! i) (positions m ! j)"
proof -
  note all = scanStates_None [OF u(1) [unfolded checkUPA_def]]
  have "scanPairs same m opts True (firstPos m) = None" by (rule all) simp
  then show "i \<in> set (firstPos m) \<Longrightarrow> j \<in> set (firstPos m) \<Longrightarrow> \<not> violates same m opts True (positions m ! i) (positions m ! j)"
    using scanPairs_None [OF u(2)] u(3) by blast
  show "\<not> violates same m opts False (positions m ! i) (positions m ! j)"
    if "p < length (follow m)" "i \<in> set (follow m ! p)" "j \<in> set (follow m ! p)"
  proof -
    have "scanPairs same m opts False (follow m ! p) = None" by (rule all) (use that(1) in simp)
    then show ?thesis using scanPairs_None [OF u(2)] u(3) that(2,3) by blast
  qed
qed

text \<open>A counter of a model with the bounds of a DTD never forces.\<close>

lemma dtd_not_forced:
  assumes "soundModel m" "i < length (positions m)" "j < length (positions m)"
  shows "\<not> counterForces m (positions m ! i) (positions m ! j)"
proof -
  have "cmin (counters m ! c) \<le> 1" if c: "c \<in> set (pcounters (positions m ! k))" "k < length (positions m)" for c k
  proof -
    have "c < length (counters m)" using assms(1) c unfolding soundModel_def pc_def by blast
    then have "dtdCounter (counters m ! c)" using assms(1) unfolding soundModel_def by blast
    then show ?thesis by (auto simp: dtdCounter_def)
  qed
  then show ?thesis using assms(2,3) by (fastforce simp: counterForces_def exitBlocked_def list_ex_iff)
qed

subsection \<open>Attribution\<close>

text \<open>A way to attribute the names of a sequence to positions, one after the other.\<close>

definition attributes :: "contentModel \<Rightarrow> qname list \<Rightarrow> nat list \<Rightarrow> bool" where
  "attributes m names ws \<longleftrightarrow>
     list_all2 (\<lambda>i x. posMatches (positions m ! i) x None) ws names \<and> chain (edgesOf m) ws \<and> (ws \<noteq> [] \<longrightarrow> hd ws \<in> set (firstPos m))"

lemma attributes_snoc:
  "attributes m (names @ [x]) vs \<longleftrightarrow>
     (\<exists>ws i. vs = ws @ [i] \<and> attributes m names ws \<and> posMatches (positions m ! i) x None \<and>
        (if ws = [] then i \<in> set (firstPos m) else (last ws, i) \<in> edgesOf m))"
proof (cases vs rule: rev_cases)
  case (snoc ws i)
  have "list_all2 P (ws @ [i]) (names @ [x]) \<longleftrightarrow> list_all2 P ws names \<and> P i x" for P :: "nat \<Rightarrow> qname \<Rightarrow> bool"
    by (metis list_all2_appendI list_all2_Cons list_all2_Nil list_all2_append list_all2_lengthD length_append_singleton old.nat.inject)
  then show ?thesis unfolding snoc by (auto simp: attributes_def chain_append hd_append)
qed (simp add: attributes_def)

lemma attributes_unique:
  assumes sm: "soundModel m" and fl: "length (follow m) = length (positions m)"
    and u: "checkUPA same m opts = None" "\<not> LaxUPA opts" "Version opts = Version10"
  shows "attributes m names us \<Longrightarrow> attributes m names vs \<Longrightarrow> us = vs"
proof (induction names arbitrary: us vs rule: rev_induct)
  case (snoc x names)
  obtain us' i where i: "us = us' @ [i]" "attributes m names us'" "posMatches (positions m ! i) x None"
    "if us' = [] then i \<in> set (firstPos m) else (last us', i) \<in> edgesOf m" using snoc.prems(1) unfolding attributes_snoc by blast
  obtain vs' j where j: "vs = vs' @ [j]" "attributes m names vs'" "posMatches (positions m ! j) x None"
    "if vs' = [] then j \<in> set (firstPos m) else (last vs', j) \<in> edgesOf m" using snoc.prems(2) unfolding attributes_snoc by blast
  have same: "us' = vs'" using snoc.IH i(2) j(2) .
  have comp: "positionsCompete (positions m ! i) (positions m ! j) Version10" using match_competes i(3) j(3) .
  have "i = j"
  proof (rule ccontr)
    assume ne: "i \<noteq> j"
    show False
    proof (cases "us' = []")
      case True
      then have "\<not> violates same m opts True (positions m ! i) (positions m ! j)" using checkUPA_None(1) [OF u(1,2) ne] i(4) j(4) same by simp
      then show False using comp u(2,3) by (simp add: violates_def)
    next
      case False
      then have e: "(last us', i) \<in> edgesOf m" "(last us', j) \<in> edgesOf m" using i(4) j(4) same by auto
      then have "\<not> violates same m opts False (positions m ! i) (positions m ! j)"
        using checkUPA_None(2) [OF u(1,2) ne, of "last us'"] fl by (simp add: edgesOf_def)
      moreover have "i < length (positions m)" "j < length (positions m)" using sm e by (auto simp: soundModel_def)
      ultimately show False using comp u(2,3) dtd_not_forced [OF sm] by (simp add: violates_def)
    qed
  qed
  then show ?case using same i(1) j(1) by simp
qed (auto simp: attributes_def)

text \<open>C28: Unique particle attribution. When the check passes the compiled model of a particle with the bounds a DTD can write, under the strict reading of XML Schema 1.0, then no sequence of names, complete or not, can be attributed to the positions of the model in two ways; so every sequence in the particle's language is attributed in exactly one, and which particle an element belongs to is known without looking at what follows it.\<close>

theorem unique_attribution:
  assumes "plainGroups G" "plainParticle G p" "compileContentModel G (Some p) limit = Inr m"
    and "checkUPA same m opts = None" "\<not> LaxUPA opts" "Version opts = Version10"
  shows "(attributes m names us \<and> attributes m names vs \<longrightarrow> us = vs) \<and>
    (partLang G p names \<longrightarrow> (\<exists>!ws. attributes m names ws \<and> (if ws = [] then cmNullable m else last ws \<in> set (lastPos m))))"
proof -
  note C = compile_sound [OF assms(1-3)]
  have uniq: "attributes m names us \<Longrightarrow> attributes m names vs \<Longrightarrow> us = vs" for us vs
    using attributes_unique [OF C(1,3) assms(4-6)] .
  have "\<exists>ws. attributes m names ws \<and> (if ws = [] then cmNullable m else last ws \<in> set (lastPos m))" if "partLang G p names"
  proof -
    have "names \<in> modelLang m" using that C(2) by simp
    then show ?thesis by (auto simp: modelLang_def nameLang_def pathLang_def attributes_def)
  qed
  then show ?thesis using uniq by blast
qed

text \<open>The model \<open>(a, b?)*\<close> passes; the model \<open>(a, (b | c)*, a?)+\<close> does not, as an \<open>a\<close>
  after an \<open>a\<close> may end its round or begin the next.\<close>

definition strict :: checkOptions where
  "strict = \<lparr>LaxUPA = False, Version = Version10\<rparr>"

definition uniqueGroups :: "modelGroup list" where
  "uniqueGroups = [ModelGroup CompositorSequence [Particle 1 1 (exampleElem ''a''), Particle 0 1 (exampleElem ''b'')]]"

theorem unique_attribution_witness:
  "\<exists>m. NewSequenceMatcher uniqueGroups (Particle 0 (-1) (GroupTerm 0)) = Inr m \<and>
     (\<exists>!ws. attributes m (map exampleName [''a'', ''a'', ''b'']) ws \<and> (if ws = [] then cmNullable m else last ws \<in> set (lastPos m))) \<and>
     checkUPA (=) exampleModel strict \<noteq> None"
proof -
  let ?p = "Particle 0 (-1) (GroupTerm 0)"
  have p: "plainGroups uniqueGroups" "plainParticle uniqueGroups ?p"
    by (simp_all add: plainGroups_def uniqueGroups_def plainParticle_def dtdBounds_def exampleElem_def Unbounded_def)
  have "isl (NewSequenceMatcher uniqueGroups ?p) = False" by code_simp
  then obtain m where m: "NewSequenceMatcher uniqueGroups ?p = Inr m" by (cases "NewSequenceMatcher uniqueGroups ?p") auto
  have "(case NewSequenceMatcher uniqueGroups ?p of Inr m \<Rightarrow> checkUPA (=) m strict = None \<and>
      fst (sequenceMatch m (map exampleName [''a'', ''a'', ''b''])) | Inl _ \<Rightarrow> False) = True" by code_simp
  then have u: "checkUPA (=) m strict = None" "fst (sequenceMatch m (map exampleName [''a'', ''a'', ''b'']))" using m by auto
  then have "partLang uniqueGroups ?p (map exampleName [''a'', ''a'', ''b''])" using matcher_decides(1) [OF p m] by blast
  moreover have "(checkUPA (=) exampleModel strict = None) = False" by code_simp
  ultimately show ?thesis
    using unique_attribution [OF p m [unfolded NewSequenceMatcher_def] u(1)] m by (auto simp: strict_def)
qed

end
