(* ===== verification/DtdModel.thy ===== *)
theory DtdModel
  imports XsdLang "HOL-Library.Code_Target_Nat"
begin

text \<open>
  The content models of a DTD (\<open>dtd/model.go\<close>, and \<open>parseElement\<close> of
  \<open>dtd/parse.go\<close>): a recursive descent over the bytes of a declaration that builds particles of
  \<open>xsd\<close>. The parser's position is the rest of the input here, and the model groups it allocates are
  appended to a list, to which a particle refers by index. A member of a group of one is returned itself, so a
  quantifier outside the parentheses is written over the member's own.
\<close>

subsection \<open>Bytes\<close>

definition isSpace :: "char \<Rightarrow> bool" where
  "isSpace c \<longleftrightarrow> c = CHR '' '' \<or> c = CHR 0x09 \<or> c = CHR 0x0A \<or> c = CHR 0x0D"

text \<open>The encodings of the white space of Unicode, which \<open>strings.TrimSpace\<close> and
  \<open>strings.Fields\<close> look for.\<close>

definition spaceRunes :: "string list" where
  "spaceRunes = map (map char_of)
     ([[9], [10], [11], [12], [13], [32], [0xC2, 0x85], [0xC2, 0xA0], [0xE1, 0x9A, 0x80], [0xE2, 0x80, 0xA8],
       [0xE2, 0x80, 0xA9], [0xE2, 0x80, 0xAF], [0xE2, 0x81, 0x9F], [0xE3, 0x80, 0x80 :: nat]] @
      map (\<lambda>i. [0xE2, 0x80, 0x80 + i]) [0..<11])"

lemma spaceRunes_code [code]:
  "spaceRunes =
     [[CHR 0x09], [CHR 0x0A], [CHR 0x0B], [CHR 0x0C], [CHR 0x0D], '' '', [CHR 0xC2, CHR 0x85], [CHR 0xC2, CHR 0xA0],
      [CHR 0xE1, CHR 0x9A, CHR 0x80], [CHR 0xE2, CHR 0x80, CHR 0xA8], [CHR 0xE2, CHR 0x80, CHR 0xA9],
      [CHR 0xE2, CHR 0x80, CHR 0xAF], [CHR 0xE2, CHR 0x81, CHR 0x9F], [CHR 0xE3, CHR 0x80, CHR 0x80],
      [CHR 0xE2, CHR 0x80, CHR 0x80], [CHR 0xE2, CHR 0x80, CHR 0x81], [CHR 0xE2, CHR 0x80, CHR 0x82],
      [CHR 0xE2, CHR 0x80, CHR 0x83], [CHR 0xE2, CHR 0x80, CHR 0x84], [CHR 0xE2, CHR 0x80, CHR 0x85],
      [CHR 0xE2, CHR 0x80, CHR 0x86], [CHR 0xE2, CHR 0x80, CHR 0x87], [CHR 0xE2, CHR 0x80, CHR 0x88],
      [CHR 0xE2, CHR 0x80, CHR 0x89], [CHR 0xE2, CHR 0x80, CHR 0x8A]]"
  by code_simp

definition leading :: "string list \<Rightarrow> string \<Rightarrow> nat" where
  "leading runes s = (case find (\<lambda>r. take (length r) s = r) runes of Some r \<Rightarrow> length r | None \<Rightarrow> 0)"

function trimLeft :: "string list \<Rightarrow> string \<Rightarrow> string" where
  "trimLeft runes s = (if s = [] \<or> leading runes s = 0 then s else trimLeft runes (drop (leading runes s) s))"
  by pat_completeness auto
termination by (relation "measure (\<lambda>(runes, s). length s)") auto

declare trimLeft.simps [simp del]

definition TrimSpace :: "string \<Rightarrow> string" where
  "TrimSpace s = rev (trimLeft (map rev spaceRunes) (rev (trimLeft spaceRunes s)))"

subsection \<open>The parser\<close>

datatype modelError =
    ExpectedCP
  | ExpectedName
  | NestsTooDeep
  | Unclosed
  | MixesSeparators
  | Unexpected char
  | UnexpectedAfter string
  | OutOfFuel

definition maxModelDepth :: nat where "maxModelDepth = 1000"

fun skipSpace :: "string \<Rightarrow> string" where
  "skipSpace (c # s) = (if isSpace c then skipSpace s else c # s)"
| "skipSpace [] = []"

definition nameEnd :: "char \<Rightarrow> bool" where
  "nameEnd c \<longleftrightarrow> isSpace c \<or> c \<in> {CHR '','', CHR ''|'', CHR '')'', CHR ''?'', CHR ''*'', CHR ''+'', CHR ''(''}"

definition parseName :: "string \<Rightarrow> modelError + string \<times> string" where
  "parseName s =
     (let name = takeWhile (\<lambda>c. \<not> nameEnd c) s in
      if name = [] then Inl ExpectedName else Inr (name, dropWhile (\<lambda>c. \<not> nameEnd c) s))"

definition applyQuantifier :: "particle \<Rightarrow> string \<Rightarrow> particle \<times> string" where
  "applyQuantifier part s =
     (case s of
        [] \<Rightarrow> (part, [])
      | c # rest \<Rightarrow>
          if c = CHR ''?'' then (Particle 0 1 (TermOf part), rest)
          else if c = CHR ''*'' then (Particle 0 Unbounded (TermOf part), rest)
          else if c = CHR ''+'' then (Particle 1 Unbounded (TermOf part), rest)
          else (part, s))"

definition dtdElem :: "string \<Rightarrow> particle" where
  "dtdElem name = Particle 1 1 (ElemTerm (ElementDecl (QName [] [] name) False []))"

type_synonym modelState = "string \<times> modelGroup list"

text \<open>\<open>depth\<close> counts the groups that enclose the one being read. The fuel is spent one unit a
  call; \<open>parseModel\<close> gives more than any input needs.\<close>

fun parseCP :: "nat \<Rightarrow> nat \<Rightarrow> string \<Rightarrow> modelGroup list \<Rightarrow> modelError + particle \<times> modelState"
and parseGroup :: "nat \<Rightarrow> nat \<Rightarrow> string \<Rightarrow> modelGroup list \<Rightarrow> modelError + particle \<times> modelState"
and parseMembers :: "nat \<Rightarrow> nat \<Rightarrow> char option \<Rightarrow> particle list \<Rightarrow> string \<Rightarrow> modelGroup list \<Rightarrow> modelError + particle \<times> modelState"
where
  "parseCP 0 depth s G = Inl OutOfFuel"
| "parseCP (Suc fuel) depth s G =
     (case skipSpace s of
        [] \<Rightarrow> Inl ExpectedCP
      | c # rest \<Rightarrow>
          bindE
            (if c = CHR ''('' then parseGroup fuel depth (c # rest) G
             else bindE (parseName (c # rest)) (\<lambda>(name, rest). Inr (dtdElem name, rest, G)))
            (\<lambda>(part, rest, G). let (part, rest) = applyQuantifier part rest in Inr (part, rest, G)))"
| "parseGroup 0 depth s G = Inl OutOfFuel"
| "parseGroup (Suc fuel) depth s G =
     (if depth + 1 > maxModelDepth then Inl NestsTooDeep
      else parseMembers fuel (depth + 1) None [] (tl s) G)"
| "parseMembers 0 depth sep members s G = Inl OutOfFuel"
| "parseMembers (Suc fuel) depth sep members s G =
     bindE (parseCP fuel depth s G) (\<lambda>(m, rest, G).
       let members = members @ [m] in
       case skipSpace rest of
         [] \<Rightarrow> Inl Unclosed
       | c # rest \<Rightarrow>
           if c = CHR '','' \<or> c = CHR ''|'' then
             (if sep \<noteq> None \<and> sep \<noteq> Some c then Inl MixesSeparators
              else parseMembers fuel depth (Some c) members rest G)
           else if c = CHR '')'' then
             (if length members = 1 then Inr (members ! 0, rest, G)
              else
                Inr (Particle 1 1 (GroupTerm (length G)), rest,
                     G @ [ModelGroup (if sep = Some (CHR ''|'') then CompositorChoice else CompositorSequence) members]))
           else Inl (Unexpected c))"

definition parseModel :: "string \<Rightarrow> modelError + particle \<times> modelGroup list" where
  "parseModel s =
     (let src = TrimSpace s in
      bindE (parseCP (3 * length src + 1) 0 src []) (\<lambda>(part, rest, G).
        case skipSpace rest of
          [] \<Rightarrow> Inr (part, G)
        | rest' \<Rightarrow> Inl (UnexpectedAfter rest')))"

subsection \<open>The fuel is enough\<close>

lemma skipSpace_length: "length (skipSpace s) \<le> length s"
  by (induction s rule: skipSpace.induct) auto

lemma parseName_shorter: "parseName s = Inr (n, r) \<Longrightarrow> length r < length s"
proof -
  assume "parseName s = Inr (n, r)"
  then have "takeWhile (\<lambda>c. \<not> nameEnd c) s \<noteq> []" "r = dropWhile (\<lambda>c. \<not> nameEnd c) s"
    by (auto simp: parseName_def Let_def split: if_splits)
  then show ?thesis using takeWhile_dropWhile_id [of "\<lambda>c. \<not> nameEnd c" s]
    by (metis length_append length_greater_0_conv less_add_same_cancel2)
qed

lemma applyQuantifier_shorter: "applyQuantifier p s = (q, r) \<Longrightarrow> length r \<le> length s"
  by (auto simp: applyQuantifier_def split: list.splits if_splits)

text \<open>What a call shows: it has fuel left, and a success has consumed input.\<close>

definition consumed :: "string \<Rightarrow> modelError + particle \<times> modelState \<Rightarrow> bool" where
  "consumed s r \<longleftrightarrow> r \<noteq> Inl OutOfFuel \<and> (\<forall>p rest G. r = Inr (p, rest, G) \<longrightarrow> length rest < length s)"

lemma parse_consumed:
  "3 * length s + 1 \<le> fuel \<Longrightarrow> consumed s (parseCP fuel depth s G)"
  "s \<noteq> [] \<Longrightarrow> 3 * length s \<le> fuel \<Longrightarrow> consumed s (parseGroup fuel depth s G)"
  "3 * length s + 2 \<le> fuel \<Longrightarrow> consumed s (parseMembers fuel depth sep ms s G)"
proof (induction fuel arbitrary: s depth G sep ms)
  case (Suc fuel)
  {
    case 1
    show ?case
    proof (cases "skipSpace s")
      case Nil
      then show ?thesis by (simp add: consumed_def)
    next
      case (Cons c rest)
      have l: "length (c # rest) \<le> length s" using skipSpace_length [of s] Cons by simp
      let ?r = "if c = CHR ''('' then parseGroup fuel depth (c # rest) G
             else bindE (parseName (c # rest)) (\<lambda>(name, rest). Inr (dtdElem name, rest, G))"
      have "consumed (c # rest) ?r"
      proof (cases "c = CHR ''(''")
        case True
        then show ?thesis using Suc.IH(2) [of "c # rest" depth G] 1 l by simp
      next
        case False
        then show ?thesis using parseName_shorter [of "c # rest"]
          by (cases "parseName (c # rest)") (auto simp: consumed_def parseName_def Let_def simp del: takeWhile.simps dropWhile.simps split: if_splits)
      qed
      then show ?thesis using Cons l applyQuantifier_shorter
        by (cases ?r) (fastforce simp: consumed_def split: prod.splits)+
    qed
  next
    case 2
    show ?case
    proof (cases "depth + 1 > maxModelDepth")
      case False
      have "consumed (tl s) (parseMembers fuel (depth + 1) None [] (tl s) G)"
        by (rule Suc.IH(3)) (use 2 in \<open>cases s; simp\<close>)
      then show ?thesis using False 2 by (cases s) (auto simp: consumed_def less_Suc_eq)
    qed (simp add: consumed_def)
  next
    case 3
    have c: "consumed s (parseCP fuel depth s G)" by (rule Suc.IH(1)) (use 3 in simp)
    show ?case
    proof (cases "parseCP fuel depth s G")
      case (Inl e)
      then show ?thesis using c by (simp add: consumed_def)
    next
      case (Inr r)
      obtain m rest G' where r: "r = (m, rest, G')" by (cases r) auto
      have l: "length rest < length s" using c Inr r by (simp add: consumed_def)
      show ?thesis
      proof (cases "skipSpace rest")
        case Nil
        then show ?thesis using Inr r by (simp add: consumed_def)
      next
        case (Cons c' rest')
        have l': "length rest' < length s" using skipSpace_length [of rest] Cons l by simp
        have "consumed rest' (parseMembers fuel depth (Some c') (ms @ [m]) rest' G')"
          by (rule Suc.IH(3)) (use 3 l' in simp)
        then show ?thesis using Inr r Cons l' by (auto simp: consumed_def Let_def)
      qed
    qed
  }
qed simp_all

text \<open>C33: The descent of the content-model parser always finishes: on every input, of every length and nesting, it either returns a particle or reports one of its own errors, and the units of fuel the recursive calls are given, three for each byte and one more, are never used up.\<close>

theorem parseModel_total:
  "parseModel s \<noteq> Inl OutOfFuel"
proof -
  have "consumed (TrimSpace s) (parseCP (3 * length (TrimSpace s) + 1) 0 (TrimSpace s) [])"
    by (rule parse_consumed) simp
  then show ?thesis
    by (cases "parseCP (3 * length (TrimSpace s) + 1) 0 (TrimSpace s) []")
      (auto simp: parseModel_def Let_def consumed_def split: list.splits)
qed

end
