(* ===== verification/DtdDecl.thy ===== *)
theory DtdDecl
  imports DtdModel
begin

text \<open>
  The declarations of a DTD (\<open>dtd/parse.go\<close>, \<open>dtd/attlist.go\<close>): cutting a subset
  into declarations, reading element, attribute, notation and entity declarations, and merging them with the
  first declaration of a name binding. A Go map is a function with values in \<open>option\<close>, a set of
  names a list of which membership is used; \<open>None\<close> is a nil map.
\<close>

subsection \<open>Cutting strings\<close>

definition hasPrefix :: "string \<Rightarrow> string \<Rightarrow> bool" where
  "hasPrefix p s \<longleftrightarrow> take (length p) s = p"

text \<open>The text before the first occurrence of \<open>pat\<close>, and the text from it on.\<close>

fun cutAt :: "string \<Rightarrow> string \<Rightarrow> (string \<times> string) option" where
  "cutAt pat [] = (if pat = [] then Some ([], []) else None)"
| "cutAt pat (c # s) =
     (if hasPrefix pat (c # s) then Some ([], c # s)
      else map_option (\<lambda>(a, b). (c # a, b)) (cutAt pat s))"

text \<open>The text before the first occurrence of a byte, and the text after it.\<close>

definition cutByte :: "char \<Rightarrow> string \<Rightarrow> (string \<times> string) option" where
  "cutByte c s = (if c \<in> set s then Some (takeWhile (\<lambda>x. x \<noteq> c) s, tl (dropWhile (\<lambda>x. x \<noteq> c) s)) else None)"

lemma cutAt_shorter: "cutAt pat s = Some (a, b) \<Longrightarrow> s = a @ b \<and> hasPrefix pat b"
  by (induction s arbitrary: a) (auto simp: hasPrefix_def split: if_splits)

lemma cutByte_shorter: "cutByte c s = Some (a, b) \<Longrightarrow> s = a @ c # b"
proof -
  assume h: "cutByte c s = Some (a, b)"
  then have c: "c \<in> set s" and ab: "a = takeWhile (\<lambda>x. x \<noteq> c) s" "b = tl (dropWhile (\<lambda>x. x \<noteq> c) s)"
    by (auto simp: cutByte_def split: if_splits)
  have "dropWhile (\<lambda>x. x \<noteq> c) s \<noteq> []" using c by auto
  moreover have "hd (dropWhile (\<lambda>x. x \<noteq> c) s) = c" using hd_dropWhile calculation by blast
  ultimately have "dropWhile (\<lambda>x. x \<noteq> c) s = c # b" using ab by (metis list.collapse)
  then show ?thesis using ab takeWhile_dropWhile_id by metis
qed

function fieldsFunc :: "(char \<Rightarrow> bool) \<Rightarrow> string \<Rightarrow> string list" where
  "fieldsFunc P s =
     (let s = dropWhile P s in
      if s = [] then [] else takeWhile (\<lambda>c. \<not> P c) s # fieldsFunc P (dropWhile (\<lambda>c. \<not> P c) s))"
  by pat_completeness auto
termination
proof (relation "measure (\<lambda>(P, s). length s)", goal_cases)
  case (2 P s s')
  let ?d = "dropWhile P s"
  have "hd ?d \<in> {c. \<not> P c}" using hd_dropWhile [of P s] 2 by simp
  then have "length (dropWhile (\<lambda>c. \<not> P c) ?d) < length ?d"
    using 2 length_dropWhile_le [of "\<lambda>c. \<not> P c" "tl ?d"] by (cases ?d) auto
  then show ?case using 2 length_dropWhile_le [of P s] by simp
qed simp

declare fieldsFunc.simps [simp del]

definition spaceFields :: "string \<Rightarrow> string list" where
  "spaceFields s = fieldsFunc isSpace s"

subsection \<open>Declarations of a subset\<close>

function stripComments :: "string \<Rightarrow> string" where
  "stripComments s =
     (case cutAt ''<!--'' s of
        None \<Rightarrow> s
      | Some (pre, frm) \<Rightarrow>
          (case cutAt ''-->'' frm of
             None \<Rightarrow> pre
           | Some (_, rest) \<Rightarrow> pre @ stripComments (drop 3 rest)))"
  by pat_completeness auto
termination
proof (relation "measure length", goal_cases)
  case (2 s cut pre frm cut' skipped rest)
  then have "s = pre @ frm" "frm = skipped @ rest" "hasPrefix ''-->'' rest" using cutAt_shorter by blast+
  then show ?case by (cases rest) (auto simp: hasPrefix_def)
qed simp

declare stripComments.simps [simp del]

text \<open>The body of a declaration, up to the first \<open>>\<close> outside a literal and outside parentheses.\<close>

function declEnd :: "int \<Rightarrow> string \<Rightarrow> (string \<times> string) option" where
  "declEnd depth [] = None"
| "declEnd depth (c # s) =
     (if c = CHR ''\"'' \<or> c = CHR 0x27 then
        (case cutByte c s of
           Some (lit, rest) \<Rightarrow> map_option (\<lambda>(a, b). (c # lit @ c # a, b)) (declEnd depth rest)
         | None \<Rightarrow> map_option (\<lambda>(a, b). (c # a, b)) (declEnd depth s))
      else if c = CHR ''>'' \<and> depth \<le> 0 then Some ([], s)
      else
        map_option (\<lambda>(a, b). (c # a, b))
          (declEnd (if c = CHR ''('' then depth + 1 else if c = CHR '')'' then depth - 1 else depth) s))"
  by pat_completeness auto
termination
  by (relation "measure (\<lambda>(depth, s). length s)") (auto dest!: cutByte_shorter)

lemma declEnd_shorter: "declEnd depth s = Some (body, rest) \<Longrightarrow> length rest < length s"
proof (induction depth s arbitrary: body rule: declEnd.induct)
  case (2 depth c s)
  show ?case
  proof (cases "c = CHR ''\"'' \<or> c = CHR 0x27")
    case True
    show ?thesis
    proof (cases "cutByte c s")
      case None
      then obtain a where "declEnd depth s = Some (a, rest)" using 2(4) True by auto
      then show ?thesis using 2(1) [OF True None] by fastforce
    next
      case (Some lr)
      obtain lit r where lr: "lr = (lit, r)" by (cases lr) auto
      then obtain a where "declEnd depth r = Some (a, rest)" using 2(4) True Some by auto
      then have "length rest < length r" using 2(2) [OF True] Some lr by blast
      then show ?thesis using cutByte_shorter Some lr by fastforce
    qed
  next
    case False
    show ?thesis
    proof (cases "c = CHR ''>'' \<and> depth \<le> 0")
      case True
      then show ?thesis using 2(4) False by simp
    next
      case no: False
      then obtain a where "declEnd (if c = CHR ''('' then depth + 1 else if c = CHR '')'' then depth - 1 else depth) s = Some (a, rest)"
        using 2(4) False by auto
      then show ?thesis using 2(3) [OF False no] by fastforce
    qed
  qed
qed simp

function declBodies :: "string \<Rightarrow> string list" where
  "declBodies sset =
     (case cutAt ''<!'' sset of
        None \<Rightarrow> []
      | Some (_, frm) \<Rightarrow>
          (case declEnd 0 (drop 2 frm) of
             None \<Rightarrow> []
           | Some (body, rest) \<Rightarrow> TrimSpace body # declBodies rest))"
  by pat_completeness auto
termination
proof (relation "measure length", goal_cases)
  case (2 s cut a frm cut' body rest)
  then have "s = a @ frm" "length rest < length (drop 2 frm)" using cutAt_shorter declEnd_shorter by blast+
  then show ?case by simp
qed simp

declare declBodies.simps [simp del]

definition declarations :: "string \<Rightarrow> string list" where
  "declarations sset = declBodies (stripComments sset)"

subsection \<open>Element declarations\<close>

datatype contentKind = ContentEmpty | ContentAny | ContentMixed | ContentChildren

record elementModel =
  elName :: string
  elKind :: contentKind
  elMixed :: "string list"
  elParticle :: "particle \<times> modelGroup list"

definition mixedSplit :: "char \<Rightarrow> bool" where
  "mixedSplit c \<longleftrightarrow> isSpace c \<or> c \<in> {CHR ''('', CHR '')'', CHR ''|'', CHR '','', CHR ''*'', CHR ''+'', CHR ''?''}"

text \<open>A declaration without a name and a model is no declaration.\<close>

definition parseElement :: "string \<Rightarrow> modelError + elementModel option" where
  "parseElement body0 =
     (let body = TrimSpace body0; name = takeWhile (\<lambda>c. \<not> isSpace c) body in
      if name = body then Inr None
      else
        let model = TrimSpace (drop (length name) body);
            none = (Particle 1 1 NilTerm, []) in
        if model = ''EMPTY'' then Inr (Some \<lparr>elName = name, elKind = ContentEmpty, elMixed = [], elParticle = none\<rparr>)
        else if model = ''ANY'' then Inr (Some \<lparr>elName = name, elKind = ContentAny, elMixed = [], elParticle = none\<rparr>)
        else if cutAt ''#PCDATA'' model \<noteq> None then
          Inr (Some \<lparr>elName = name, elKind = ContentMixed,
                     elMixed = filter (\<lambda>n. n \<noteq> ''#PCDATA'') (fieldsFunc mixedSplit model), elParticle = none\<rparr>)
        else
          bindE (parseModel model) (\<lambda>pg.
            Inr (Some \<lparr>elName = name, elKind = ContentChildren, elMixed = [], elParticle = pg\<rparr>)))"

subsection \<open>Attribute declarations\<close>

datatype attrDefault = AttrImplied | AttrRequired | AttrFixed | AttrDefaulted | AttrInvalid

record attribute =
  atElement :: string
  atName :: string
  atType :: string
  atEnum :: "string list"
  atDefault :: attrDefault
  atValue :: string

function attFields :: "string \<Rightarrow> string list" where
  "attFields [] = []"
| "attFields (c # s) =
     (if isSpace c then attFields s
      else if c = CHR ''\"'' \<or> c = CHR 0x27 then
        (case cutByte c s of
           None \<Rightarrow> [c # s]
         | Some (lit, rest) \<Rightarrow> (c # lit @ [c]) # attFields rest)
      else if c = CHR ''('' then
        (case cutByte (CHR '')'') s of
           None \<Rightarrow> [c # s]
         | Some (inner, rest) \<Rightarrow> (c # inner @ '')'') # attFields rest)
      else takeWhile (\<lambda>x. \<not> isSpace x) (c # s) # attFields (dropWhile (\<lambda>x. \<not> isSpace x) s))"
  by pat_completeness auto
termination
  by (relation "measure length") (auto simp: less_Suc_eq_le length_dropWhile_le dest!: cutByte_shorter)

fun splitOn :: "char \<Rightarrow> string \<Rightarrow> string list" where
  "splitOn d [] = [[]]"
| "splitOn d (c # s) =
     (case splitOn d s of
        [] \<Rightarrow> [[c]]
      | w # ws \<Rightarrow> if c = d then [] # w # ws else (c # w) # ws)"

definition enumValues :: "string \<Rightarrow> string list" where
  "enumValues s =
     (let s = (if s \<noteq> [] \<and> last s = CHR '')'' then butlast s else s);
          s = (if hasPrefix ''('' s then tl s else s) in
      filter (\<lambda>v. v \<noteq> []) (map TrimSpace (splitOn (CHR ''|'') s)))"

definition unquote :: "string \<Rightarrow> string" where
  "unquote s =
     (if length s \<ge> 2 \<and> (hd s = CHR ''\"'' \<or> hd s = CHR 0x27) \<and> last s = hd s then butlast (tl s) else s)"

text \<open>One default declaration at the head of the fields: the attribute, and the fields after it.\<close>

definition attDefault :: "attribute \<Rightarrow> string \<Rightarrow> string list \<Rightarrow> attribute \<times> string list" where
  "attDefault a d fs =
     (if d = ''#REQUIRED'' then (a\<lparr>atDefault := AttrRequired\<rparr>, fs)
      else if d = ''#IMPLIED'' then (a\<lparr>atDefault := AttrImplied\<rparr>, fs)
      else if d = ''#FIXED'' then
        (case fs of
           [] \<Rightarrow> (a\<lparr>atDefault := AttrFixed\<rparr>, [])
         | v # fs \<Rightarrow> (a\<lparr>atDefault := AttrFixed, atValue := unquote v\<rparr>, fs))
      else if hasPrefix ''#'' d then (a\<lparr>atDefault := AttrInvalid, atValue := d\<rparr>, fs)
      else (a\<lparr>atDefault := AttrDefaulted, atValue := unquote d\<rparr>, fs))"

text \<open>The type of an attribute, with the enumeration in or after it.\<close>

definition attType :: "string \<Rightarrow> string \<Rightarrow> string \<Rightarrow> string list \<Rightarrow> attribute \<times> string list" where
  "attType element name typ fs =
     (let a = \<lparr>atElement = element, atName = name, atType = typ, atEnum = [], atDefault = AttrImplied, atValue = []\<rparr> in
      if typ = ''NOTATION'' \<and> fs \<noteq> [] \<and> hasPrefix ''('' (hd fs) then (a\<lparr>atEnum := enumValues (hd fs)\<rparr>, tl fs)
      else if hasPrefix ''('' typ then (a\<lparr>atEnum := enumValues typ, atType := ''ENUMERATION''\<rparr>, fs)
      else (a, fs))"

lemma attDefault_shorter: "length (snd (attDefault a d fs)) \<le> length fs"
  by (auto simp: attDefault_def split: list.splits)

lemma attType_shorter: "length (snd (attType e n t fs)) \<le> length fs"
  by (auto simp: attType_def Let_def)

function attLoop :: "string \<Rightarrow> string list \<Rightarrow> attribute list" where
  "attLoop element (name # typ # fs) =
     (case attType element name typ fs of
        (a, []) \<Rightarrow> []
      | (a, d # fs') \<Rightarrow> (case attDefault a d fs' of (a, rest) \<Rightarrow> a # attLoop element rest))"
| "attLoop element [] = []"
| "attLoop element [x] = []"
  by pat_completeness auto
termination
proof (relation "measure (\<lambda>(e, fs). length fs)", goal_cases)
  case (2 e n t fs a ds d fs' b rest)
  have "length (d # fs') \<le> length fs" using attType_shorter [of e n t fs] 2 by (metis snd_conv)
  moreover have "length rest \<le> length fs'" using attDefault_shorter [of a d fs'] 2 by (metis snd_conv)
  ultimately show ?case by simp
qed simp

definition parseAttList :: "string \<Rightarrow> attribute list" where
  "parseAttList body = (case attFields body of element # f # fs \<Rightarrow> attLoop element (f # fs) | _ \<Rightarrow> [])"

subsection \<open>Notations and unparsed entities\<close>

definition notationName :: "string \<Rightarrow> string" where
  "notationName body = (case spaceFields body of [] \<Rightarrow> [] | f # _ \<Rightarrow> f)"

fun ndataFollowed :: "string list \<Rightarrow> bool" where
  "ndataFollowed (t # n # ts) = (t = ''NDATA'' \<or> ndataFollowed (n # ts))"
| "ndataFollowed _ = False"

definition unparsedEntityName :: "string \<Rightarrow> string" where
  "unparsedEntityName body =
     (case attFields body of
        f # g # fs \<Rightarrow> if hasPrefix ''%'' f then [] else if ndataFollowed (g # fs) then f else []
      | _ \<Rightarrow> [])"

subsection \<open>The DTD\<close>

record dtd =
  Elements :: "string \<Rightarrow> elementModel option"
  Attributes :: "string \<Rightarrow> attribute list"
  Notations :: "string list option"
  Unparsed :: "string list option"
  HasExternalSubset :: bool
  ExternalSubset :: string

definition newDTD :: dtd where
  "newDTD =
     \<lparr>Elements = (\<lambda>_. None), Attributes = (\<lambda>_. []), Notations = Some [], Unparsed = Some [],
      HasExternalSubset = False, ExternalSubset = []\<rparr>"

definition attrDeclared :: "attribute list \<Rightarrow> string \<Rightarrow> bool" where
  "attrDeclared decls name = list_ex (\<lambda>a. atName a = name) decls"

definition addAttribute :: "dtd \<Rightarrow> attribute \<Rightarrow> dtd" where
  "addAttribute d a =
     (if attrDeclared (Attributes d (atElement a)) (atName a) then d
      else d\<lparr>Attributes := (Attributes d)(atElement a := Attributes d (atElement a) @ [a])\<rparr>)"

definition addDecl :: "dtd \<Rightarrow> string \<Rightarrow> modelError + dtd" where
  "addDecl d decl =
     (if hasPrefix ''ELEMENT'' decl then
        bindE (parseElement (drop 7 decl)) (\<lambda>el.
          case el of
            None \<Rightarrow> Inr d
          | Some el \<Rightarrow>
              Inr (if Elements d (elName el) = None then d\<lparr>Elements := (Elements d)(elName el \<mapsto> el)\<rparr> else d))
      else if hasPrefix ''ATTLIST'' decl then Inr (foldl addAttribute d (parseAttList (drop 7 decl)))
      else if hasPrefix ''NOTATION'' decl then
        (let n = notationName (drop 8 decl) in
         Inr (if n = [] then d else d\<lparr>Notations := map_option ((#) n) (Notations d)\<rparr>))
      else if hasPrefix ''ENTITY'' decl then
        (let n = unparsedEntityName (drop 6 decl) in
         Inr (if n = [] then d else d\<lparr>Unparsed := map_option ((#) n) (Unparsed d)\<rparr>))
      else Inr d)"

fun addDecls :: "dtd \<Rightarrow> string list \<Rightarrow> modelError + dtd" where
  "addDecls d [] = Inr d"
| "addDecls d (decl # decls) = bindE (addDecl d decl) (\<lambda>d. addDecls d decls)"

definition declarationsInto :: "dtd \<Rightarrow> string \<Rightarrow> modelError + dtd" where
  "declarationsInto d sset = addDecls d (declarations sset)"

text \<open>The head of a DOCTYPE and its internal subset.\<close>

definition splitSubset :: "string \<Rightarrow> string \<times> string" where
  "splitSubset directive =
     (case cutByte (CHR ''['') directive of
        None \<Rightarrow> (directive, [])
      | Some (head, rest) \<Rightarrow>
          (if CHR '']'' \<in> set rest then (head, rev (tl (dropWhile (\<lambda>c. c \<noteq> CHR '']'') (rev rest))))
           else (head, rest)))"

definition Parse :: "string \<Rightarrow> modelError + dtd option" where
  "Parse directive =
     (if TrimSpace directive = [] then Inr None
      else
        let (head, sset) = splitSubset directive; f = spaceFields head;
            d = newDTD\<lparr>HasExternalSubset := list_ex (\<lambda>tok. tok = ''SYSTEM'' \<or> tok = ''PUBLIC'') (tl f)\<rparr> in
        map_sum id Some (declarationsInto d sset))"

end
