(* ===== verification/DtdLoad.thy ===== *)
theory DtdLoad
  imports DtdDecl
begin

text \<open>
  Loading the external subset of a DTD (\<open>dtd/external.go\<close>, and \<open>MapResolver\<close> of
  \<open>dtd/resolve.go\<close>): fetching resources through a resolver, substituting parameter entities,
  resolving conditional sections, and the budget that all of it is charged to. The resolver is the caller's, so
  it is a function of the model. A position in a subset is the rest of it from there on; an error ends the load,
  so the loader's state is only kept on success.
\<close>

subsection \<open>The resolver\<close>

text \<open>What a resolver answers: an error, no reader, or a reader with the URI it resolved to. A reader is the
  bytes it delivers and whether it then fails instead of ending; one that never ends is longer than any limit.\<close>

datatype reply =
    Refused
  | NoReader
  | Reader (delivered: string) (fails: bool) (resolved: string)

type_synonym resolver = "string \<Rightarrow> string \<Rightarrow> string \<Rightarrow> reply"

definition afterSlash :: "string \<Rightarrow> string option" where
  "afterSlash s = (if CHR ''/'' \<in> set s then Some (rev (takeWhile (\<lambda>c. c \<noteq> CHR ''/'') (rev s))) else None)"

definition MapResolver :: "(string \<Rightarrow> string option) \<Rightarrow> resolver" where
  "MapResolver docs systemID publicID base =
     (case docs systemID of
        Some src \<Rightarrow> Reader src False systemID
      | None \<Rightarrow>
          (case Option.bind (afterSlash systemID) docs of
             Some src \<Rightarrow> Reader src False systemID
           | None \<Rightarrow>
               (case (if publicID = [] then None else docs publicID) of
                  Some src \<Rightarrow> Reader src False systemID
                | None \<Rightarrow> Refused)))"

subsection \<open>The loader\<close>

datatype loadError =
    ErrNoResolver string
  | TooManyDocuments
  | ResolveFailed string
  | NoContent string
  | ReadFailed string
  | TooManyBytes string
  | TooMuchExpansion
  | EntitiesTooDeep
  | RecursiveEntity string
  | SectionsTooDeep
  | SectionNotOpened
  | SectionNotClosed
  | BadDeclaration modelError

record paramEntity =
  peText :: string
  peExternal :: bool
  peSystem :: string
  pePublic :: string
  peBase :: string

record loader =
  ldResolver :: "resolver option"
  ldMaxDocs :: int
  ldMaxBytes :: int
  ldMaxExpand :: int
  ldDocs :: int
  ldBytes :: int
  ldExpanded :: int
  ldParams :: "string \<Rightarrow> paramEntity option"
  ldActive :: "string list"

record loadOptions =
  Resolver :: "resolver option"
  BaseURI :: string
  InternalSubsetOnly :: bool
  MaxExternalDocuments :: int
  MaxExternalBytes :: int
  MaxEntityBytes :: int

definition DefaultMaxExternalDocuments :: int where "DefaultMaxExternalDocuments = 64"
definition DefaultMaxExternalBytes :: int where "DefaultMaxExternalBytes = 4 * 2 ^ 20"
definition DefaultMaxEntityBytes :: int where "DefaultMaxEntityBytes = 2 ^ 20"
definition maxParameterDepth :: nat where "maxParameterDepth = 40"
definition maxConditionalDepth :: nat where "maxConditionalDepth = 40"

definition newLoader :: "loadOptions \<Rightarrow> loader" where
  "newLoader opts =
     \<lparr>ldResolver = Resolver opts,
      ldMaxDocs = (if MaxExternalDocuments opts = 0 then DefaultMaxExternalDocuments else MaxExternalDocuments opts),
      ldMaxBytes = (if MaxExternalBytes opts = 0 then DefaultMaxExternalBytes else MaxExternalBytes opts),
      ldMaxExpand = (if MaxEntityBytes opts = 0 then DefaultMaxEntityBytes else MaxEntityBytes opts),
      ldDocs = 0, ldBytes = 0, ldExpanded = 0, ldParams = (\<lambda>_. None), ldActive = []\<rparr>"

text \<open>How many more bytes may be read; \<open>None\<close> when no limit applies.\<close>

definition room :: "loader \<Rightarrow> int option" where
  "room l =
     (if ldMaxBytes l < 0 \<and> ldMaxExpand l < 0 then None
      else
        let r = 2 ^ 40;
            r = (if 0 \<le> ldMaxBytes l \<and> ldMaxBytes l - ldBytes l < r then ldMaxBytes l - ldBytes l else r);
            r = (if 0 \<le> ldMaxExpand l \<and> ldMaxExpand l - ldExpanded l < r then ldMaxExpand l - ldExpanded l else r)
        in Some (if r < 0 then 0 else r))"

definition chargeExpansion :: "loader \<Rightarrow> nat \<Rightarrow> loadError + loader" where
  "chargeExpansion l n =
     (if ldMaxExpand l < 0 then Inr l
      else if ldExpanded l + int n > ldMaxExpand l then Inl TooMuchExpansion
      else Inr (l\<lparr>ldExpanded := ldExpanded l + int n\<rparr>))"

text \<open>\<open>io.ReadAll\<close>, through a \<open>LimitReader\<close> when there is a limit; \<open>None\<close> is a read error.\<close>

definition readAll :: "string \<Rightarrow> bool \<Rightarrow> int option \<Rightarrow> string option" where
  "readAll s failing limit =
     (case limit of
        None \<Rightarrow> (if failing then None else Some s)
      | Some n \<Rightarrow> (if length s < nat (n + 1) \<and> failing then None else Some (take (nat (n + 1)) s)))"

definition stripTextDecl :: "string \<Rightarrow> string" where
  "stripTextDecl s =
     (let rest = skipSpace s in
      if \<not> hasPrefix ''<?xml'' rest then s
      else
        let tail = drop 5 rest in
        if tail \<noteq> [] \<and> \<not> isSpace (hd tail) \<and> \<not> hasPrefix ''?>'' tail then s
        else
          (case cutAt ''?>'' rest of
             None \<Rightarrow> s
           | Some (_, frm) \<Rightarrow> drop 2 frm))"

definition fetch :: "loader \<Rightarrow> string \<Rightarrow> string \<Rightarrow> string \<Rightarrow> loadError + string \<times> string \<times> loader" where
  "fetch l systemID publicID base =
     (case ldResolver l of
        None \<Rightarrow> Inl (ErrNoResolver systemID)
      | Some resolve \<Rightarrow>
          if 0 \<le> ldMaxDocs l \<and> ldMaxDocs l \<le> ldDocs l then Inl TooManyDocuments
          else
            let l = l\<lparr>ldDocs := ldDocs l + 1\<rparr> in
            (case resolve systemID publicID base of
               Refused \<Rightarrow> Inl (ResolveFailed systemID)
             | NoReader \<Rightarrow> Inl (NoContent systemID)
             | Reader s failing got \<Rightarrow>
                 (case readAll s failing (room l) of
                    None \<Rightarrow> Inl (ReadFailed systemID)
                  | Some data \<Rightarrow>
                      if (case room l of Some limit \<Rightarrow> int (length data) > limit | None \<Rightarrow> False) then Inl (TooManyBytes systemID)
                      else
                        bindE (chargeExpansion (l\<lparr>ldBytes := ldBytes l + int (length data)\<rparr>) (length data)) (\<lambda>l.
                          Inr (stripTextDecl data, (if got = [] then systemID else got), l)))))"

subsection \<open>Parameter entities\<close>

definition isEntityName :: "string \<Rightarrow> bool" where
  "isEntityName s \<longleftrightarrow>
     s \<noteq> [] \<and>
     (\<forall>c \<in> set s.
        let r = (of_char c :: nat) in
        97 \<le> r \<and> r \<le> 122 \<or> 65 \<le> r \<and> r \<le> 90 \<or> 48 \<le> r \<and> r \<le> 57 \<or>
        c \<in> {CHR ''.'', CHR ''-'', CHR ''_'', CHR '':''} \<or> 128 \<le> r)"

text \<open>The parameter entity a declaration declares.\<close>

definition paramDecl :: "string \<Rightarrow> string \<Rightarrow> (string \<times> paramEntity) option" where
  "paramDecl base decl =
     (if \<not> hasPrefix ''ENTITY'' decl then None
      else
        let body = TrimSpace (drop 6 decl) in
        if \<not> hasPrefix ''%'' body then None
        else
          (case attFields (TrimSpace (tl body)) of
             name # v # f \<Rightarrow>
               if \<not> isEntityName name then None
               else if v = ''SYSTEM'' then
                 (case f of
                    s # _ \<Rightarrow> Some (name, \<lparr>peText = [], peExternal = True, peSystem = unquote s, pePublic = [], peBase = base\<rparr>)
                  | [] \<Rightarrow> None)
               else if v = ''PUBLIC'' then
                 (case f of
                    p # s # _ \<Rightarrow> Some (name, \<lparr>peText = [], peExternal = True, peSystem = unquote s, pePublic = unquote p, peBase = base\<rparr>)
                  | _ \<Rightarrow> None)
               else if length v \<ge> 2 \<and> (hd v = CHR ''\"'' \<or> hd v = CHR 0x27) then
                 Some (name, \<lparr>peText = unquote v, peExternal = False, peSystem = [], pePublic = [], peBase = base\<rparr>)
               else None
           | _ \<Rightarrow> None))"

definition addParam :: "string \<Rightarrow> (string \<Rightarrow> paramEntity option) \<Rightarrow> string \<Rightarrow> (string \<Rightarrow> paramEntity option)" where
  "addParam base params decl =
     (case paramDecl base decl of
        Some (name, p) \<Rightarrow> if params name \<noteq> None then params else params(name \<mapsto> p)
      | None \<Rightarrow> params)"

definition collectParams :: "loader \<Rightarrow> string \<Rightarrow> string \<Rightarrow> loader" where
  "collectParams l sset base = l\<lparr>ldParams := foldl (addParam base) (ldParams l) (declarations sset)\<rparr>"

subsection \<open>Constructs\<close>

text \<open>The offset of the \<open>>\<close> that ends a declaration.\<close>

function endOfDeclaration :: "int \<Rightarrow> string \<Rightarrow> nat option" where
  "endOfDeclaration depth [] = None"
| "endOfDeclaration depth (c # s) =
     (if c = CHR ''\"'' \<or> c = CHR 0x27 then
        (case cutByte c s of
           None \<Rightarrow> None
         | Some (lit, rest) \<Rightarrow> map_option ((+) (length lit + 2)) (endOfDeclaration depth rest))
      else if c = CHR ''>'' \<and> depth \<le> 0 then Some 0
      else
        map_option Suc
          (endOfDeclaration (if c = CHR ''('' then depth + 1 else if c = CHR '')'' then depth - 1 else depth) s))"
  by pat_completeness auto
termination
  by (relation "measure (\<lambda>(depth, s). length s)") (auto dest!: cutByte_shorter)

text \<open>The length of the markup declaration, comment or processing instruction at the head of \<open>s\<close>,
  0 when there is none.\<close>

definition endOfConstruct :: "string \<Rightarrow> nat" where
  "endOfConstruct s =
     (if hasPrefix ''<!['' s then 0
      else if hasPrefix ''<!--'' s then
        (case cutAt ''-->'' (drop 4 s) of
           None \<Rightarrow> length s
         | Some (pre, _) \<Rightarrow> 4 + length pre + 3)
      else if \<not> hasPrefix ''<!'' s \<and> \<not> hasPrefix ''<?'' s then 0
      else
        (case endOfDeclaration 0 s of
           None \<Rightarrow> length s
         | Some e \<Rightarrow> e + 1))"

subsection \<open>Substitution\<close>

text \<open>The construct copied, or, in an external subset, its body expanded; and the rest of the loop.\<close>

function expand :: "loader \<Rightarrow> nat \<Rightarrow> bool \<Rightarrow> string \<Rightarrow> loadError + string \<times> loader"
and expandFrom :: "loader \<Rightarrow> nat \<Rightarrow> bool \<Rightarrow> string \<Rightarrow> loadError + string \<times> loader"
where
  "expand l depth declLevel sset =
     (if depth > maxParameterDepth then Inl EntitiesTooDeep
      else if CHR ''%'' \<notin> set sset then Inr (sset, l)
      else expandFrom l depth declLevel sset)"
| "expandFrom l depth declLevel [] = Inr ([], l)"
| "expandFrom l depth declLevel (c # s) =
     (if endOfConstruct (c # s) > 0 then
        let construct = take (endOfConstruct (c # s)) (c # s) in
        bindE
          (if declLevel \<and> hasPrefix ''<!'' construct \<and> \<not> hasPrefix ''<!--'' construct \<and> CHR ''%'' \<in> set construct then
             bindE (expand l (depth + 1) declLevel (butlast (drop 2 construct))) (\<lambda>(inner, l). Inr (''<!'' @ inner @ ''>'', l))
           else Inr (construct, l))
          (\<lambda>(text, l).
            bindE (expandFrom l depth declLevel (drop (endOfConstruct (c # s)) (c # s))) (\<lambda>(out, l). Inr (text @ out, l)))
      else if c \<noteq> CHR ''%'' then
        bindE (expandFrom l depth declLevel s) (\<lambda>(out, l). Inr (c # out, l))
      else
        (case cutByte (CHR '';'') s of
           None \<Rightarrow> bindE (expandFrom l depth declLevel s) (\<lambda>(out, l). Inr (c # out, l))
         | Some (name, rest) \<Rightarrow>
             (case (if isEntityName name then ldParams l name else None) of
                None \<Rightarrow> bindE (expandFrom l depth declLevel rest) (\<lambda>(out, l). Inr (c # name @ '';'' @ out, l))
              | Some p \<Rightarrow>
                  if name \<in> set (ldActive l) then Inl (RecursiveEntity name)
                  else
                    bindE
                      (if peExternal p then
                         bindE (fetch l (peSystem p) (pePublic p) (peBase p)) (\<lambda>(text, refBase, l).
                           Inr (text, collectParams l text refBase))
                       else Inr (peText p, l))
                      (\<lambda>(text, l).
                        bindE (expand (l\<lparr>ldActive := name # ldActive l\<rparr>) (depth + 1) declLevel text) (\<lambda>(text, l).
                          bindE (chargeExpansion (l\<lparr>ldActive := removeAll name (ldActive l)\<rparr>) (length text)) (\<lambda>l.
                            bindE (expandFrom l depth declLevel rest) (\<lambda>(out, l). Inr (text @ out, l))))))))"
  by pat_completeness auto
termination
proof (relation "measures [\<lambda>x. case x of
      Inl (l, d, b, s) \<Rightarrow> if d \<le> maxParameterDepth then 2 * (maxParameterDepth + 1 - d) + 1 else 0
    | Inr (l, d, b, s) \<Rightarrow> if d \<le> maxParameterDepth then 2 * (maxParameterDepth + 1 - d) else 1,
    \<lambda>x. case x of Inl (l, d, b, s) \<Rightarrow> length s | Inr (l, d, b, s) \<Rightarrow> length s]", goal_cases)
qed (auto dest!: cutByte_shorter)

declare expand.simps [simp del] expandFrom.simps [simp del]

subsection \<open>Conditional sections\<close>

text \<open>The contents of a section up to the \<open>]]>\<close> that closes it, and the text after that.\<close>

function matchingSectionEnd :: "nat \<Rightarrow> string \<Rightarrow> (string \<times> string) option" where
  "matchingSectionEnd depth [] = None"
| "matchingSectionEnd depth (c # s) =
     (if hasPrefix ''<!['' (c # s) then
        map_option (\<lambda>(a, b). (''<!['' @ a, b)) (matchingSectionEnd (depth + 1) (drop 2 s))
      else if hasPrefix '']]>'' (c # s) then
        (if depth = 0 then Some ([], drop 2 s)
         else map_option (\<lambda>(a, b). ('']]>'' @ a, b)) (matchingSectionEnd (depth - 1) (drop 2 s)))
      else map_option (\<lambda>(a, b). (c # a, b)) (matchingSectionEnd depth s))"
  by pat_completeness auto
termination by (relation "measure (\<lambda>(depth, s). length s)") auto

declare matchingSectionEnd.simps [simp del]

lemma hasPrefix3: "hasPrefix [x, y, z] (c # s) \<Longrightarrow> c # s = [x, y, z] @ drop 2 s"
  by (cases s; cases "tl s") (auto simp: hasPrefix_def)

lemma matchingSectionEnd_parts: "matchingSectionEnd depth s = Some (a, b) \<Longrightarrow> s = a @ '']]>'' @ b"
proof (induction depth s arbitrary: a rule: matchingSectionEnd.induct)
  case (2 depth c s)
  consider "hasPrefix ''<!['' (c # s)" | "\<not> hasPrefix ''<!['' (c # s)" "hasPrefix '']]>'' (c # s)" "depth = 0"
    | "\<not> hasPrefix ''<!['' (c # s)" "hasPrefix '']]>'' (c # s)" "depth \<noteq> 0"
    | "\<not> hasPrefix ''<!['' (c # s)" "\<not> hasPrefix '']]>'' (c # s)" by blast
  then show ?case
  proof cases
    case 1
    then obtain a' where a: "a = ''<!['' @ a'" "matchingSectionEnd (depth + 1) (drop 2 s) = Some (a', b)"
      using 2(4) by (auto simp: matchingSectionEnd.simps)
    then show ?thesis using 2(1) [OF 1 a(2)] hasPrefix3 [OF 1] by simp
  next
    case c: 2
    then show ?thesis using 2(4) hasPrefix3 [OF c(2)] by (auto simp: matchingSectionEnd.simps)
  next
    case c: 3
    then obtain a' where a: "a = '']]>'' @ a'" "matchingSectionEnd (depth - 1) (drop 2 s) = Some (a', b)"
      using 2(4) by (auto simp: matchingSectionEnd.simps)
    then show ?thesis using 2(2) [OF c a(2)] hasPrefix3 [OF c(2)] by simp
  next
    case c: 4
    then obtain a' where a: "a = c # a'" "matchingSectionEnd depth s = Some (a', b)"
      using 2(4) by (auto simp: matchingSectionEnd.simps)
    then show ?thesis using 2(3) [OF c a(2)] by simp
  qed
qed (simp add: matchingSectionEnd.simps)

text \<open>The keyword of a section: whether it is included, and the text after the keyword.\<close>

definition sectionKeyword :: "string \<Rightarrow> (bool \<times> string) option" where
  "sectionKeyword rest =
     (let kw = skipSpace rest in
      if hasPrefix ''INCLUDE'' kw then Some (True, drop 7 kw)
      else if hasPrefix ''IGNORE'' kw then Some (False, drop 6 kw)
      else None)"

lemma skipSpace_shorter: "length (skipSpace s) \<le> length s"
  by (induction s) auto

function conditionals :: "nat \<Rightarrow> string \<Rightarrow> loadError + string"
and conditionalsFrom :: "nat \<Rightarrow> string \<Rightarrow> loadError + string"
where
  "conditionals depth sset = (if depth > maxConditionalDepth then Inl SectionsTooDeep else conditionalsFrom depth sset)"
| "conditionalsFrom depth sset =
     (case cutAt ''<!['' sset of
        None \<Rightarrow> Inr sset
      | Some (pre, frm) \<Rightarrow>
          (case sectionKeyword (drop 3 frm) of
             None \<Rightarrow> bindE (conditionalsFrom depth (drop 3 frm)) (\<lambda>out. Inr (pre @ ''<!['' @ out))
           | Some (inc, kw) \<Rightarrow>
               if \<not> hasPrefix ''['' (skipSpace kw) then Inl SectionNotOpened
               else
                 (case matchingSectionEnd 0 (tl (skipSpace kw)) of
                    None \<Rightarrow> Inl SectionNotClosed
                  | Some (body, left) \<Rightarrow>
                      bindE (if inc then conditionals (depth + 1) body else Inr []) (\<lambda>inner.
                        bindE (conditionalsFrom depth left) (\<lambda>out. Inr (pre @ inner @ out))))))"
  by pat_completeness auto
termination
proof -
  have k: "length kw \<le> length r" if "sectionKeyword r = Some (inc, kw)" for r inc kw
    using that skipSpace_shorter [of r] by (auto simp: sectionKeyword_def Let_def split: if_splits)
  have m: "length a + length b + 3 \<le> length (skipSpace kw)"
    if "matchingSectionEnd 0 (tl (skipSpace kw)) = Some (a, b)" for kw a b
    using arg_cong [OF matchingSectionEnd_parts [OF that], of length] by simp
  have f: "length frm \<le> length s \<and> 3 \<le> length frm" if "cutAt ''<!['' s = Some (b, frm)" for s b frm
    using cutAt_shorter [OF that] by (auto simp: hasPrefix_def dest: arg_cong [of _ _ length])
  have body: "length a + length b < length s"
    if "cutAt ''<!['' s = Some (bf, frm)" "sectionKeyword (drop 3 frm) = Some (inc, kw)"
      "matchingSectionEnd 0 (tl (skipSpace kw)) = Some (a, b)" for s bf frm inc kw a b
    using f [OF that(1)] k [OF that(2)] m [OF that(3)] skipSpace_shorter [of kw] unfolding length_drop by linarith
  show ?thesis
    by (relation "measures [\<lambda>x. case x of Inl (d, s) \<Rightarrow> length s | Inr (d, s) \<Rightarrow> length s,
        \<lambda>x. case x of Inl (d, s) \<Rightarrow> 1 | Inr (d, s) \<Rightarrow> (0 :: nat)]") (auto dest: f body)
qed

declare conditionals.simps [simp del] conditionalsFrom.simps [simp del]

subsection \<open>Loading\<close>

definition expandSubset :: "loader \<Rightarrow> string \<Rightarrow> string \<Rightarrow> bool \<Rightarrow> loadError + string \<times> loader" where
  "expandSubset l sset base declLevel =
     bindE (expand (collectParams l sset base) 0 declLevel sset) (\<lambda>(expanded, l).
       if \<not> declLevel then Inr (expanded, l)
       else bindE (conditionals 0 expanded) (\<lambda>text. Inr (text, l)))"

fun externalID :: "string list \<Rightarrow> (string \<times> string) option" where
  "externalID [] = None"
| "externalID (t # f) =
     (if t = ''SYSTEM'' then (case f of s # _ \<Rightarrow> Some (unquote s, []) | [] \<Rightarrow> None)
      else if t = ''PUBLIC'' then (case f of p # s # _ \<Rightarrow> Some (unquote s, unquote p) | _ \<Rightarrow> None)
      else externalID f)"

definition externalSubsetOf :: "string \<Rightarrow> (string \<times> string) option" where
  "externalSubsetOf head = externalID (drop 2 (attFields head))"

definition parseSubsets :: "string \<Rightarrow> loadOptions \<Rightarrow> loadError + dtd" where
  "parseSubsets sset opts =
     (if TrimSpace sset = [] \<and> InternalSubsetOnly opts then Inr newDTD
      else map_sum BadDeclaration id (declarationsInto newDTD sset))"

text \<open>The expanded texts of the two subsets, and the loader after both.\<close>

definition expandBoth :: "string \<Rightarrow> string \<Rightarrow> string \<Rightarrow> loadOptions \<Rightarrow> loadError + string \<times> string \<times> loader" where
  "expandBoth internal systemID publicID opts =
     bindE (expandSubset (newLoader opts) internal (BaseURI opts) False) (\<lambda>(expandedInternal, l).
       bindE (fetch l systemID publicID (BaseURI opts)) (\<lambda>(text, resolved, l).
         bindE (expandSubset l text resolved True) (\<lambda>(expandedExternal, l).
           Inr (expandedInternal, expandedExternal, l))))"

definition Load :: "string \<Rightarrow> loadOptions \<Rightarrow> loadError + dtd option" where
  "Load directive opts =
     (if TrimSpace directive = [] then Inr None
      else
        let (head, internal) = splitSubset directive in
        case externalSubsetOf head of
          None \<Rightarrow> bindE (parseSubsets internal opts) (\<lambda>d. Inr (Some (d\<lparr>HasExternalSubset := False\<rparr>)))
        | Some (systemID, publicID) \<Rightarrow>
            if InternalSubsetOnly opts then
              bindE (parseSubsets internal opts) (\<lambda>d. Inr (Some (d\<lparr>HasExternalSubset := True\<rparr>)))
            else if Resolver opts = None then Inl (ErrNoResolver systemID)
            else
              bindE (expandBoth internal systemID publicID opts) (\<lambda>(expandedInternal, expandedExternal, l).
                bindE (parseSubsets (expandedInternal @ [CHR 0x0A] @ expandedExternal) opts) (\<lambda>d.
                  Inr (Some (d\<lparr>HasExternalSubset := True, ExternalSubset := expandedExternal\<rparr>)))))"

end
