(* ===== verification/DtdLoadFacts.thy ===== *)
theory DtdLoadFacts
  imports DtdLoad
begin

text \<open>
  What the loader of external subsets keeps: the budget it spends is accounted for by what it returns, the
  parameter entities in scope only grow, recursive entities are refused, and conditional sections are resolved
  as they nest.
\<close>

subsection \<open>The budget\<close>

definition inBudget :: "loader \<Rightarrow> bool" where
  "inBudget l \<longleftrightarrow>
     (0 \<le> ldMaxDocs l \<longrightarrow> ldDocs l \<le> ldMaxDocs l) \<and> (0 \<le> ldMaxBytes l \<longrightarrow> ldBytes l \<le> ldMaxBytes l) \<and>
     (0 \<le> ldMaxExpand l \<longrightarrow> ldExpanded l \<le> ldMaxExpand l)"

text \<open>A step of the loader: the limits stay, the budget is kept, no parameter entity is changed and none stays
  active; \<open>n\<close> bytes at most were produced by substitution.\<close>

definition ldStep :: "loader \<Rightarrow> loader \<Rightarrow> bool" where
  "ldStep l l' \<longleftrightarrow>
     ldResolver l' = ldResolver l \<and> ldMaxDocs l' = ldMaxDocs l \<and> ldMaxBytes l' = ldMaxBytes l \<and> ldMaxExpand l' = ldMaxExpand l \<and>
     ldDocs l \<le> ldDocs l' \<and> ldBytes l \<le> ldBytes l' \<and> ldExpanded l \<le> ldExpanded l' \<and>
     ldParams l \<subseteq>\<^sub>m ldParams l' \<and> ldActive l' = ldActive l \<and> (inBudget l \<longrightarrow> inBudget l')"

definition produced :: "loader \<Rightarrow> loader \<Rightarrow> int \<Rightarrow> bool" where
  "produced l l' n \<longleftrightarrow> (0 \<le> ldMaxExpand l \<longrightarrow> n \<le> ldExpanded l' - ldExpanded l)"

lemma inBudget_active [simp]: "inBudget (l\<lparr>ldActive := a\<rparr>) = inBudget l"
  by (simp add: inBudget_def)

lemma step_refl: "ldStep l l"
  by (simp add: ldStep_def)

lemma step_trans: "ldStep a b \<Longrightarrow> ldStep b c \<Longrightarrow> ldStep a c"
  unfolding ldStep_def by (auto intro: map_le_trans)

lemma produced_trans: "ldStep a b \<Longrightarrow> produced a b m \<Longrightarrow> produced b c n \<Longrightarrow> produced a c (m + n)"
  by (auto simp: produced_def ldStep_def)

lemma charge_step:
  assumes "chargeExpansion l n = Inr l'"
  shows "ldStep l l' \<and> produced l l' (int n)" "ldParams l' = ldParams l"
  using assms by (auto simp: chargeExpansion_def ldStep_def produced_def inBudget_def split: if_splits)

lemma addParam_le: "m \<subseteq>\<^sub>m addParam base m decl"
  by (auto simp: addParam_def map_le_def split: option.splits)

lemma addParams_le: "m \<subseteq>\<^sub>m foldl (addParam base) m decls"
proof (induction decls arbitrary: m)
  case (Cons d decls)
  then show ?case using map_le_trans [OF addParam_le [of m base d]] by simp
qed simp

lemma collect_step: "ldStep l (collectParams l sset base) \<and> produced l (collectParams l sset base) 0"
  using addParams_le [of "ldParams l" base "declarations sset"]
  by (simp add: ldStep_def collectParams_def produced_def inBudget_def)

lemma stripTextDecl_shorter: "length (stripTextDecl s) \<le> length s"
proof -
  have "length b \<le> length s" if "cutAt ''?>'' (skipSpace s) = Some (a, b)" for a b
    using cutAt_shorter [OF that] skipSpace_shorter [of s] by (metis length_append le_add2 le_trans)
  moreover have "length (drop 2 b) \<le> length b" for b :: string by simp
  ultimately show ?thesis by (auto simp: stripTextDecl_def Let_def split: option.splits intro: le_trans)
qed

text \<open>A fetched resource was delivered whole, and is charged to the expansion before anything is done with it.\<close>

lemma readAll_whole:
  assumes "readAll s failing limit = Some data" "\<not> (case limit of Some n \<Rightarrow> int (length data) > n | None \<Rightarrow> False)"
    "\<And>n. limit = Some n \<Longrightarrow> 0 \<le> n"
  shows "data = s \<and> \<not> failing"
proof (cases limit)
  case (Some n)
  then have d: "data = take (nat (n + 1)) s" "\<not> (length s < nat (n + 1) \<and> failing)" "int (length data) \<le> n" "0 \<le> n"
    using assms by (auto simp: readAll_def split: if_splits)
  have "length s < nat (n + 1)"
  proof (rule ccontr)
    assume "\<not> length s < nat (n + 1)"
    then have "length data = nat (n + 1)" using d(1) by simp
    then show False using d(3,4) by simp
  qed
  then show ?thesis using d(1,2) by simp
qed (use assms in \<open>auto simp: readAll_def split: if_splits\<close>)

lemma room_bounds:
  assumes "room l = Some n"
  shows "0 \<le> n" "inBudget l \<Longrightarrow> 0 \<le> ldMaxBytes l \<Longrightarrow> n \<le> ldMaxBytes l - ldBytes l"
  using assms by (auto simp: room_def Let_def inBudget_def split: if_splits)

lemma room_none: "room l = None \<Longrightarrow> ldMaxBytes l < 0"
  by (auto simp: room_def Let_def split: if_splits)

lemma fetch_step:
  assumes f: "fetch l sys pub base = Inr (text, got, l')"
  shows "ldStep l l' \<and> produced l l' (int (length text))"
    "\<exists>resolve s g. ldResolver l = Some resolve \<and> resolve sys pub base = Reader s False g \<and> text = stripTextDecl s"
    "ldParams l' = ldParams l"
proof -
  obtain resolve where r: "ldResolver l = Some resolve" using f by (auto simp: fetch_def split: option.splits)
  define k where "k = l\<lparr>ldDocs := ldDocs l + 1\<rparr>"
  have docs: "\<not> (0 \<le> ldMaxDocs l \<and> ldMaxDocs l \<le> ldDocs l)" using f r by (auto simp: fetch_def)
  obtain s failing g where p: "resolve sys pub base = Reader s failing g"
    using f r docs by (cases "resolve sys pub base") (simp_all add: fetch_def Let_def)
  obtain data where d: "readAll s failing (room k) = Some data"
    using f r docs p by (cases "readAll s failing (room k)") (simp_all add: fetch_def Let_def k_def)
  have fits: "\<not> (case room k of Some limit \<Rightarrow> int (length data) > limit | None \<Rightarrow> False)"
    using f r docs p d unfolding fetch_def by (simp add: Let_def k_def [symmetric] split: if_splits)
  then have c: "chargeExpansion (k\<lparr>ldBytes := ldBytes k + int (length data)\<rparr>) (length data) = Inr l'"
    and t: "text = stripTextDecl data"
    using f r docs p d unfolding fetch_def by (auto simp: Let_def k_def [symmetric] bindE_Inr_iff)
  have whole: "data = s" "\<not> failing" using readAll_whole [OF d fits room_bounds(1)] by auto
  then show "\<exists>resolve s g. ldResolver l = Some resolve \<and> resolve sys pub base = Reader s False g \<and> text = stripTextDecl s"
    using r p t by simp
  have "inBudget l \<longrightarrow> inBudget (k\<lparr>ldBytes := ldBytes k + int (length data)\<rparr>)"
  proof
    assume w: "inBudget l"
    have wk: "inBudget k" using w docs by (auto simp: inBudget_def k_def)
    have "0 \<le> ldMaxBytes k \<Longrightarrow> int (length data) \<le> ldMaxBytes k - ldBytes k"
      using fits room_bounds(2) [OF _ wk] room_none [of k] by (cases "room k") fastforce+
    then show "inBudget (k\<lparr>ldBytes := ldBytes k + int (length data)\<rparr>)" using wk by (auto simp: inBudget_def)
  qed
  then have "ldStep l (k\<lparr>ldBytes := ldBytes k + int (length data)\<rparr>)" by (simp add: ldStep_def k_def)
  moreover have "produced l l' (int (length data))" using charge_step(1) [OF c] by (simp add: produced_def k_def)
  ultimately show "ldStep l l' \<and> produced l l' (int (length text))"
    using step_trans [OF _ conjunct1 [OF charge_step(1) [OF c]]] stripTextDecl_shorter [of data] t
    by (auto simp: produced_def)
  show "ldParams l' = ldParams l" using charge_step(2) [OF c] by (simp add: k_def)
qed

lemma endOfDeclaration_less: "endOfDeclaration depth s = Some e \<Longrightarrow> e < length s"
proof (induction depth s arbitrary: e rule: endOfDeclaration.induct)
  case (2 depth c s)
  show ?case
  proof (cases "c = CHR ''\"'' \<or> c = CHR 0x27")
    case True
    then obtain lit rest e' where l: "cutByte c s = Some (lit, rest)" "endOfDeclaration depth rest = Some e'" "e = length lit + 2 + e'"
      using 2(3) by (auto split: option.splits)
    have "e' < length rest" using 2(1) [OF True l(1) refl l(2)] by simp
    then show ?thesis using cutByte_shorter [OF l(1)] l(3) by simp
  next
    case False
    then show ?thesis using 2(2) [OF False] 2(3) by (fastforce split: if_splits)
  qed
qed simp

lemma endOfConstruct_le: "endOfConstruct s \<le> length s"
proof -
  have "4 + length a + 3 \<le> length s" if "cutAt ''-->'' (drop 4 s) = Some (a, b)" "hasPrefix ''<!--'' s" for a b
  proof -
    have "drop 4 s = a @ b" "hasPrefix ''-->'' b" using cutAt_shorter [OF that(1)] by auto
    moreover have "3 \<le> length b" using calculation(2) by (auto simp: hasPrefix_def dest: arg_cong [of _ _ length])
    moreover have "4 \<le> length s" using that(2) by (auto simp: hasPrefix_def dest: arg_cong [of _ _ length])
    ultimately have "length s - 4 = length a + length b" by (metis length_append length_drop)
    then show ?thesis using \<open>3 \<le> length b\<close> \<open>4 \<le> length s\<close> by linarith
  qed
  then show ?thesis
    using endOfDeclaration_less [of 0 s] by (auto simp: endOfConstruct_def Suc_le_eq split: option.splits)
qed

subsection \<open>Successful expansions\<close>

text \<open>
  The runs of the expander that succeed, as a relation: \<open>expands l d b s out l'\<close> when the text \<open>s\<close>
  is expanded to \<open>out\<close> at depth \<open>d\<close>, and the loader goes from \<open>l\<close> to \<open>l'\<close>.
\<close>

definition opened :: "loader \<Rightarrow> paramEntity \<Rightarrow> string \<Rightarrow> loader \<Rightarrow> bool" where
  "opened l p text k \<longleftrightarrow>
     (if peExternal p then \<exists>got k0. fetch l (peSystem p) (pePublic p) (peBase p) = Inr (text, got, k0) \<and> k = collectParams k0 text got
      else text = peText p \<and> k = l)"

definition opaque :: "bool \<Rightarrow> string \<Rightarrow> bool" where
  "opaque declLevel construct \<longleftrightarrow>
     \<not> (declLevel \<and> hasPrefix ''<!'' construct \<and> \<not> hasPrefix ''<!--'' construct \<and> CHR ''%'' \<in> set construct)"

definition entityOf :: "loader \<Rightarrow> string \<Rightarrow> paramEntity option" where
  "entityOf l name = (if isEntityName name then ldParams l name else None)"

inductive expands :: "loader \<Rightarrow> nat \<Rightarrow> bool \<Rightarrow> string \<Rightarrow> string \<Rightarrow> loader \<Rightarrow> bool"
and expandsFrom :: "loader \<Rightarrow> nat \<Rightarrow> bool \<Rightarrow> string \<Rightarrow> string \<Rightarrow> loader \<Rightarrow> bool"
where
  eWhole: "CHR ''%'' \<notin> set s \<Longrightarrow> expands l d b s s l"
| eLoop: "d \<le> maxParameterDepth \<Longrightarrow> expandsFrom l d b s out l' \<Longrightarrow> expands l d b s out l'"
| fNil: "expandsFrom l d b [] [] l"
| fOpaque: "0 < endOfConstruct s \<Longrightarrow> opaque b (take (endOfConstruct s) s) \<Longrightarrow>
    expandsFrom l d b (drop (endOfConstruct s) s) out l' \<Longrightarrow> expandsFrom l d b s (take (endOfConstruct s) s @ out) l'"
| fInside: "0 < endOfConstruct s \<Longrightarrow> \<not> opaque b (take (endOfConstruct s) s) \<Longrightarrow>
    expands l (Suc d) b (butlast (drop 2 (take (endOfConstruct s) s))) inner k \<Longrightarrow>
    expandsFrom k d b (drop (endOfConstruct s) s) out l' \<Longrightarrow> expandsFrom l d b s (''<!'' @ inner @ ''>'' @ out) l'"
| fByte: "endOfConstruct (c # s) = 0 \<Longrightarrow> c \<noteq> CHR ''%'' \<or> cutByte (CHR '';'') s = None \<Longrightarrow>
    expandsFrom l d b s out l' \<Longrightarrow> expandsFrom l d b (c # s) (c # out) l'"
| fUndeclared: "endOfConstruct (CHR ''%'' # s) = 0 \<Longrightarrow> cutByte (CHR '';'') s = Some (name, rest) \<Longrightarrow> entityOf l name = None \<Longrightarrow>
    expandsFrom l d b rest out l' \<Longrightarrow> expandsFrom l d b (CHR ''%'' # s) (CHR ''%'' # name @ CHR '';'' # out) l'"
| fReference: "endOfConstruct (CHR ''%'' # s) = 0 \<Longrightarrow> cutByte (CHR '';'') s = Some (name, rest) \<Longrightarrow> entityOf l name = Some p \<Longrightarrow>
    name \<notin> set (ldActive l) \<Longrightarrow> opened l p text k \<Longrightarrow>
    expands (k\<lparr>ldActive := name # ldActive k\<rparr>) (Suc d) b text sub k' \<Longrightarrow>
    chargeExpansion (k'\<lparr>ldActive := removeAll name (ldActive k')\<rparr>) (length sub) = Inr k'' \<Longrightarrow>
    expandsFrom k'' d b rest out l' \<Longrightarrow> expandsFrom l d b (CHR ''%'' # s) (sub @ out) l'"

lemma expand_expands:
  "expand l d b s = Inr (out, l') \<Longrightarrow> expands l d b s out l'"
  "expandFrom l d b s = Inr (out, l') \<Longrightarrow> expandsFrom l d b s out l'"
proof (induction l d b s and l d b s arbitrary: out l' and out l' rule: expand_expandFrom.induct)
  case (1 l d b s)
  then show ?case by (auto simp: expand.simps intro: expands_expandsFrom.intros split: if_splits)
next
  case (2 l d b)
  then show ?case by (auto simp: expandFrom.simps intro: expands_expandsFrom.intros)
next
  case (3 l d b c s)
  let ?e = "endOfConstruct (c # s)"
  note run = 3(8) [unfolded expandFrom.simps(2) [of l d b c s]]
  show ?case
  proof (cases "0 < ?e")
    case e: True
    show ?thesis
    proof (cases "opaque b (take ?e (c # s))")
      case True
      then obtain o2 where "expandFrom l d b (drop ?e (c # s)) = Inr (o2, l')" "out = take ?e (c # s) @ o2"
        using run e by (auto simp: Let_def opaque_def bindE_Inr_iff)
      then show ?thesis using 3(2) [OF e refl _ refl, of _ l o2 l'] fOpaque [OF e True] True by (auto simp: opaque_def)
    next
      case False
      then have no: "b \<and> hasPrefix ''<!'' (take ?e (c # s)) \<and> \<not> hasPrefix ''<!--'' (take ?e (c # s)) \<and> CHR ''%'' \<in> set (take ?e (c # s))"
        by (simp add: opaque_def)
      obtain inner k o2 where r: "expand l (d + 1) b (butlast (drop 2 (take ?e (c # s)))) = Inr (inner, k)"
        "expandFrom k d b (drop ?e (c # s)) = Inr (o2, l')" "out = ''<!'' @ inner @ ''>'' @ o2"
        using run e no by (auto simp: Let_def bindE_Inr_iff)
      have "expands l (Suc d) b (butlast (drop 2 (take ?e (c # s)))) inner k" using 3(1) [OF e refl no r(1)] by simp
      moreover have "expandsFrom k d b (drop ?e (c # s)) o2 l'"
        using 3(2) [OF e refl _ refl r(2), of "''<!'' @ inner @ ''>''"] no r(1) by simp
      ultimately show ?thesis using fInside [OF e False] r(3) by simp
    qed
  next
    case e: False
    show ?thesis
    proof (cases "c = CHR ''%''")
      case False
      then show ?thesis using run e 3(3) [OF e False] fByte [of c s] by (auto simp: bindE_Inr_iff)
    next
      case c: True
      show ?thesis
      proof (cases "cutByte (CHR '';'') s")
        case None
        then show ?thesis using run e c 3(4) [OF e _ None] fByte [of c s] by (auto simp: bindE_Inr_iff)
      next
        case (Some nr)
        obtain name rest where nr: "nr = (name, rest)" by (cases nr)
        show ?thesis
        proof (cases "entityOf l name")
          case None
          then show ?thesis using run e c Some nr 3(5) [OF e _ Some nr [symmetric]] fUndeclared [of s name rest]
            by (auto simp: bindE_Inr_iff entityOf_def)
        next
          case p: (Some p)
          have na: "name \<notin> set (ldActive l)" using run e c Some nr p by (auto simp: entityOf_def)
          obtain body k where o: "(if peExternal p then bindE (fetch l (peSystem p) (pePublic p) (peBase p))
                (\<lambda>(text, refBase, l). Inr (text, collectParams l text refBase)) else Inr (peText p, l)) = Inr (body, k)"
            and o': "bindE (expand (k\<lparr>ldActive := name # ldActive k\<rparr>) (d + 1) b body) (\<lambda>(text, l).
                bindE (chargeExpansion (l\<lparr>ldActive := removeAll name (ldActive l)\<rparr>) (length text)) (\<lambda>l.
                bindE (expandFrom l d b rest) (\<lambda>(out, l). Inr (text @ out, l)))) = Inr (out, l')"
            using run e c Some nr p na by (auto simp: entityOf_def bindE_Inr_iff simp del: One_nat_def split: if_splits)
          obtain sub k' k'' o2 where r: "expand (k\<lparr>ldActive := name # ldActive k\<rparr>) (d + 1) b body = Inr (sub, k')"
            "chargeExpansion (k'\<lparr>ldActive := removeAll name (ldActive k')\<rparr>) (length sub) = Inr k''"
            "expandFrom k'' d b rest = Inr (o2, l')" "out = sub @ o2"
            using o' by (auto simp: bindE_Inr_iff)
          have op: "opened l p body k" using o by (auto simp: opened_def bindE_Inr_iff split: if_splits)
          have ent: "(if isEntityName name then ldParams l name else None) = Some p" using p by (simp add: entityOf_def)
          have nc: "\<not> c \<noteq> CHR ''%''" using c by simp
          have "expands (k\<lparr>ldActive := name # ldActive k\<rparr>) (Suc d) b body sub k'"
            using 3(6) [OF e nc Some nr [symmetric] ent na o refl] r(1) by simp
          moreover have "expandsFrom k'' d b rest o2 l'"
            by (rule 3(7) [OF e nc Some nr [symmetric] ent na o refl r(1) refl r(2) r(3)])
          ultimately show ?thesis using fReference [OF _ _ p na op _ r(2)] e c Some nr r(4) by simp
        qed
      qed
    qed
  qed
qed

lemma opened_step:
  assumes "opened l p body k"
  shows "ldStep l k \<and> produced l k (if peExternal p then int (length body) else 0)"
proof (cases "peExternal p")
  case True
  then obtain got k0 where f: "fetch l (peSystem p) (pePublic p) (peBase p) = Inr (body, got, k0)" and k: "k = collectParams k0 body got"
    using assms by (auto simp: opened_def)
  show ?thesis
    using fetch_step(1) [OF f] collect_step [of k0 body got] step_trans [of l k0 k] produced_trans [of l k0 _ k 0] True
    by (auto simp: k)
qed (use assms in \<open>auto simp: opened_def step_refl produced_def\<close>)

text \<open>What an expansion adds to the length of its text was charged.\<close>

lemma expands_step:
  "expands l d b s out l' \<Longrightarrow> ldStep l l' \<and> produced l l' (int (length out) - int (length s))"
  "expandsFrom l d b s out l' \<Longrightarrow> ldStep l l' \<and> produced l l' (int (length out) - int (length s))"
proof (induction rule: expands_expandsFrom.inducts)
  case (fInside s b l d inner k out l')
  let ?c = "take (endOfConstruct s) s"
  have "3 \<le> length ?c"
  proof (cases ?c)
    case (Cons x xs)
    then show ?thesis using fInside(2) by (cases xs; cases "tl xs") (auto simp: opaque_def hasPrefix_def)
  qed (use fInside(2) in \<open>auto simp: opaque_def\<close>)
  then have "int (length (butlast (drop 2 ?c))) = int (length ?c) - 3" by simp
  moreover have "int (length ?c) + int (length (drop (endOfConstruct s) s)) = int (length s)" using endOfConstruct_le [of s] by simp
  ultimately have "int (length (''<!'' @ inner @ ''>'' @ out)) - int (length s) =
      (int (length inner) - int (length (butlast (drop 2 ?c)))) + (int (length out) - int (length (drop (endOfConstruct s) s)))"
    unfolding length_append of_nat_add by simp
  then show ?case using fInside(5,6) step_trans [of l k l'] produced_trans [of l k] by metis
next
  case (fReference s name rest l p body k d b sub k' k'' out l')
  let ?k = "k\<lparr>ldActive := name # ldActive k\<rparr>" and ?r = "k'\<lparr>ldActive := removeAll name (ldActive k')\<rparr>"
  have o: "ldStep l k" "produced l k (if peExternal p then int (length body) else 0)" using opened_step [OF fReference(5)] by auto
  have e: "ldStep ?k k'" "produced ?k k' (int (length sub) - int (length body))" using fReference(9) by auto
  have c: "ldStep ?r k''" "produced ?r k'' (int (length sub))" using charge_step(1) [OF fReference(7)] by auto
  have f: "ldStep k'' l'" "produced k'' l' (int (length out) - int (length rest))" using fReference(10) by auto
  have "ldActive k' = name # ldActive k" "name \<notin> set (ldActive k)" using e(1) o(1) fReference(4) by (simp_all add: ldStep_def)
  then have m: "ldStep k ?r" using e(1) by (simp add: ldStep_def)
  have mx: "ldExpanded k \<le> ldExpanded ?r" using m by (simp add: ldStep_def)
  have "length s = length name + length rest + 1" using cutByte_shorter [OF fReference(2)] by simp
  then have "produced l l' (int (length (sub @ out)) - int (length (CHR ''%'' # s)))"
    using o c f m unfolding produced_def ldStep_def by auto
  then show ?case using step_trans [OF o(1) step_trans [OF m step_trans [OF c(1) f(1)]]] by blast
qed (auto simp: step_refl produced_def endOfConstruct_le dest: cutByte_shorter)

subsection \<open>Recursive entities\<close>

text \<open>The names the expander finds in a text, in order: a reference in a declaration counts in an external
  subset only.\<close>

function refs :: "bool \<Rightarrow> string \<Rightarrow> string list" where
  "refs declLevel [] = []"
| "refs declLevel (c # s) =
     (if endOfConstruct (c # s) > 0 then
        (let construct = take (endOfConstruct (c # s)) (c # s) in
         (if opaque declLevel construct then [] else refs declLevel (butlast (drop 2 construct))) @
         refs declLevel (drop (endOfConstruct (c # s)) (c # s)))
      else if c \<noteq> CHR ''%'' then refs declLevel s
      else
        (case cutByte (CHR '';'') s of
           None \<Rightarrow> refs declLevel s
         | Some (name, rest) \<Rightarrow> (if isEntityName name then [name] else []) @ refs declLevel rest))"
  by pat_completeness auto
termination
  by (relation "measure (\<lambda>(b, s). length s)") (auto dest!: cutByte_shorter)

declare refs.simps [simp del]

lemma refs_construct:
  assumes "0 < endOfConstruct s"
  shows "refs b s = (if opaque b (take (endOfConstruct s) s) then [] else refs b (butlast (drop 2 (take (endOfConstruct s) s)))) @
    refs b (drop (endOfConstruct s) s)"
  using assms by (cases s) (simp_all add: refs.simps endOfConstruct_def hasPrefix_def Let_def split: if_splits)

lemma refs_byte: "endOfConstruct (c # s) = 0 \<Longrightarrow> c \<noteq> CHR ''%'' \<or> cutByte (CHR '';'') s = None \<Longrightarrow> refs b (c # s) = refs b s"
  by (auto simp: refs.simps)

lemma refs_name:
  "endOfConstruct (CHR ''%'' # s) = 0 \<Longrightarrow> cutByte (CHR '';'') s = Some (name, rest) \<Longrightarrow>
   refs b (CHR ''%'' # s) = (if isEntityName name then [name] else []) @ refs b rest"
  by (simp add: refs.simps)

lemma refs_whole: "CHR ''%'' \<notin> set s \<Longrightarrow> refs b s = []"
proof (induction b s rule: refs.induct)
  case (2 b c s)
  show ?case
  proof (cases "0 < endOfConstruct (c # s)")
    case True
    have o: "opaque b (take (endOfConstruct (c # s)) (c # s))" using 2(6) by (auto simp: opaque_def dest: in_set_takeD)
    have "refs b (drop (endOfConstruct (c # s)) (c # s)) = []" using 2(2) [OF True refl] 2(6) by (blast dest: in_set_dropD)
    then show ?thesis using refs_construct [OF True] o by simp
  next
    case False
    then show ?thesis using 2(3) 2(6) refs_byte [of c s b] by auto
  qed
qed (simp add: refs.simps)

text \<open>The internal entities that the replacement text of an internal entity refers to.\<close>

definition entityEdges :: "bool \<Rightarrow> (string \<Rightarrow> paramEntity option) \<Rightarrow> (string \<times> string) set" where
  "entityEdges b P = {(n, m). \<exists>p. P n = Some p \<and> \<not> peExternal p \<and> m \<in> set (refs b (peText p))}"

lemma edge_declared: "(n, m) \<in> (entityEdges b P)\<^sup>+ \<Longrightarrow> n \<in> dom P"
  by (auto simp: entityEdges_def dest!: tranclD)

text \<open>A name from which no active entity and no cycle is reached.\<close>

definition harmless :: "bool \<Rightarrow> (string \<Rightarrow> paramEntity option) \<Rightarrow> string list \<Rightarrow> string \<Rightarrow> bool" where
  "harmless b P active n \<longleftrightarrow>
     (\<forall>h. (n, h) \<in> (entityEdges b P)\<^sup>* \<longrightarrow> (h \<in> dom P \<longrightarrow> h \<notin> set active) \<and> (h, h) \<notin> (entityEdges b P)\<^sup>+)"

lemma harmless_leaf:
  assumes "\<And>m. (n, m) \<notin> entityEdges b P" "n \<in> dom P \<Longrightarrow> n \<notin> set active"
  shows "harmless b P active n"
proof -
  have "h = n" if "(n, h) \<in> (entityEdges b P)\<^sup>*" for h using that assms(1) by (auto elim: converse_rtranclE)
  moreover have "(n, n) \<notin> (entityEdges b P)\<^sup>+" using assms(1) by (auto dest: tranclD)
  ultimately show ?thesis using assms(2) unfolding harmless_def by blast
qed

lemma harmless_node:
  assumes p: "P n = Some p" "\<not> peExternal p" and a: "n \<notin> set active" and m: "\<forall>m \<in> set (refs b (peText p)). harmless b P (n # active) m"
  shows "harmless b P active n"
proof -
  have sub: "harmless b P (n # active) m" if "(n, m) \<in> entityEdges b P" for m using that m p by (auto simp: entityEdges_def)
  have no: "(n, n) \<notin> (entityEdges b P)\<^sup>+"
  proof
    assume "(n, n) \<in> (entityEdges b P)\<^sup>+"
    then obtain m where "(n, m) \<in> entityEdges b P" "(m, n) \<in> (entityEdges b P)\<^sup>*" by (auto dest: tranclD)
    then show False using sub p(1) unfolding harmless_def by fastforce
  qed
  show ?thesis unfolding harmless_def
  proof (intro allI impI)
    fix h
    assume "(n, h) \<in> (entityEdges b P)\<^sup>*"
    then show "(h \<in> dom P \<longrightarrow> h \<notin> set active) \<and> (h, h) \<notin> (entityEdges b P)\<^sup>+"
    proof (cases rule: converse_rtranclE)
      case base
      then show ?thesis using a no by simp
    next
      case (step m)
      then show ?thesis using sub unfolding harmless_def by fastforce
    qed
  qed
qed

lemma step_params: "ldStep l l' \<Longrightarrow> P \<subseteq>\<^sub>m ldParams l \<Longrightarrow> P \<subseteq>\<^sub>m ldParams l'" "ldStep l l' \<Longrightarrow> ldActive l' = ldActive l"
  by (auto simp: ldStep_def intro: map_le_trans)

lemma expands_harmless:
  "expands l d b s out l' \<Longrightarrow> P \<subseteq>\<^sub>m ldParams l \<Longrightarrow> \<forall>n \<in> set (refs b s). harmless b P (ldActive l) n"
  "expandsFrom l d b s out l' \<Longrightarrow> P \<subseteq>\<^sub>m ldParams l \<Longrightarrow> \<forall>n \<in> set (refs b s). harmless b P (ldActive l) n"
proof (induction rule: expands_expandsFrom.inducts)
  case (fOpaque s b l d out l')
  then show ?case using refs_construct [OF fOpaque(1)] by simp
next
  case (fInside s b l d inner k out l')
  have "ldStep l k" using expands_step(1) [OF fInside(3)] by simp
  then show ?case using fInside refs_construct [OF fInside(1), of b] step_params [of l k] by auto
next
  case (fUndeclared s name rest l d b out l')
  have "P name = None" if "isEntityName name"
  proof -
    have "ldParams l name = None" using fUndeclared(3) that by (simp add: entityOf_def)
    then show ?thesis using fUndeclared.prems by (metis domIff map_le_def)
  qed
  then have "harmless b P (ldActive l) name" if "isEntityName name" using that
    by (intro harmless_leaf) (auto simp: entityEdges_def)
  then show ?case using fUndeclared refs_name [OF fUndeclared(1,2), of b] by auto
next
  case (fReference s name rest l p body k d b sub k' k'' out l')
  let ?k = "k\<lparr>ldActive := name # ldActive k\<rparr>"
  have o: "ldStep l k" using opened_step [OF fReference(5)] by auto
  have e: "ldStep ?k k'" using expands_step(1) [OF fReference(6)] by auto
  have c: "ldStep (k'\<lparr>ldActive := removeAll name (ldActive k')\<rparr>) k''" using charge_step(1) [OF fReference(7)] by auto
  have act: "ldActive k = ldActive l" "ldActive k'' = ldActive l" using o e c fReference(4) by (auto simp: ldStep_def)
  have pk: "P \<subseteq>\<^sub>m ldParams k" "P \<subseteq>\<^sub>m ldParams k''"
    using fReference.prems o e c by (auto simp: ldStep_def intro: map_le_trans)
  have rest: "\<forall>n \<in> set (refs b rest). harmless b P (ldActive l) n" using fReference.IH(2) [OF pk(2)] act by simp
  have sub: "\<forall>n \<in> set (refs b body). harmless b P (name # ldActive l) n" using fReference.IH(1) pk(1) act by simp
  have lp: "ldParams l name = Some p" using fReference(3) by (simp add: entityOf_def split: if_splits)
  have "harmless b P (ldActive l) name"
  proof (cases "P name")
    case None
    then show ?thesis by (intro harmless_leaf) (auto simp: entityEdges_def)
  next
    case (Some q)
    then have q: "q = p" using lp fReference.prems by (metis domI map_le_def option.inject)
    show ?thesis
    proof (cases "peExternal p")
      case True
      then show ?thesis using Some q fReference(4) by (intro harmless_leaf) (auto simp: entityEdges_def)
    next
      case False
      then have "body = peText p" using fReference(5) by (simp add: opened_def)
      then show ?thesis using harmless_node [OF _ False] Some q fReference(4) sub by simp
    qed
  qed
  then show ?case using rest refs_name [OF fReference(1,2), of b] by auto
qed (auto simp: refs_whole refs_byte refs.simps(1))

end
