(* ===== verification/DtdSections.thy ===== *)
theory DtdSections
  imports DtdLoad
begin

text \<open>
  Conditional sections (XML 1.0, section 3.4): what the text of a subset with sections is, and that the loader
  resolves them as they nest.
\<close>

subsection \<open>Sections and their text\<close>

text \<open>A text is plain, or plain up to a section and its contents, with a text after it. A section is included
  or ignored, with white space around its keyword; inside an ignored one there may also be a section without
  any keyword.\<close>


datatype mark = Inc string string | Ign string string | Unk
datatype body = Plain string | Sect string mark body body

fun startOf :: "mark \<Rightarrow> string" where
  "startOf (Inc u v) = u @ ''INCLUDE'' @ v @ ''[''"
| "startOf (Ign u v) = u @ ''IGNORE'' @ v @ ''[''"
| "startOf Unk = []"

fun render :: "body \<Rightarrow> string" where
  "render (Plain s) = s"
| "render (Sect s h b r) = s @ ''<!['' @ startOf h @ render b @ '']]>'' @ render r"

text \<open>The text that remains, and how deep included sections nest in it.\<close>

fun keep :: "body \<Rightarrow> string" where
  "keep (Plain s) = s"
| "keep (Sect s (Inc u v) b r) = s @ keep b @ keep r"
| "keep (Sect s _ b r) = s @ keep r"

fun nesting :: "body \<Rightarrow> nat" where
  "nesting (Plain s) = 0"
| "nesting (Sect s (Inc u v) b r) = max (Suc (nesting b)) (nesting r)"
| "nesting (Sect s _ b r) = nesting r"

text \<open>No delimiter of a section occurs in plain text. In an ignored section the delimiters only balance.\<close>

definition undelimited :: "string \<Rightarrow> bool" where
  "undelimited s \<longleftrightarrow> cutAt ''<!['' s = None \<and> cutAt '']]>'' s = None"

fun spaced :: "mark \<Rightarrow> bool" where
  "spaced (Inc u v) = (\<forall>c \<in> set u \<union> set v. isSpace c)"
| "spaced (Ign u v) = (\<forall>c \<in> set u \<union> set v. isSpace c)"
| "spaced Unk = True"

fun balanced :: "body \<Rightarrow> bool" where
  "balanced (Plain s) = undelimited s"
| "balanced (Sect s h b r) = (undelimited s \<and> spaced h \<and> balanced b \<and> balanced r)"

fun wellFormed :: "body \<Rightarrow> bool" where
  "wellFormed (Plain s) = undelimited s"
| "wellFormed (Sect s (Inc u v) b r) = (undelimited s \<and> spaced (Inc u v) \<and> wellFormed b \<and> wellFormed r)"
| "wellFormed (Sect s (Ign u v) b r) = (undelimited s \<and> spaced (Ign u v) \<and> balanced b \<and> wellFormed r)"
| "wellFormed (Sect s Unk b r) = False"

lemma wellFormed_balanced: "wellFormed b \<Longrightarrow> balanced b"
  by (induction b rule: wellFormed.induct) auto

subsection \<open>The end of a section\<close>

definition delim :: "string \<Rightarrow> bool" where
  "delim x \<longleftrightarrow> hasPrefix ''<!['' x \<or> hasPrefix '']]>'' x"

lemma cutAt_Cons_None: "cutAt pat (c # s) = None \<longleftrightarrow> \<not> hasPrefix pat (c # s) \<and> cutAt pat s = None"
  by simp

lemma undelimited_Cons: "undelimited (c # s) \<longleftrightarrow> \<not> delim (c # s) \<and> undelimited s"
  by (auto simp: undelimited_def delim_def)

lemma delim_append: "\<not> delim (c # s) \<Longrightarrow> x = [] \<or> delim x \<Longrightarrow> \<not> delim (c # s @ x)"
  by (cases s; cases "tl s"; cases x; cases "tl x"; cases "tl (tl x)") (auto simp: delim_def hasPrefix_def)

definition onFst :: "string \<Rightarrow> (string \<times> string) option \<Rightarrow> (string \<times> string) option" where
  "onFst p r = map_option (\<lambda>(a, b). (p @ a, b)) r"

lemma onFst_append: "onFst p (onFst q r) = onFst (p @ q) r"
  by (cases r) (auto simp: onFst_def)

lemma onFst_Nil: "onFst [] r = r"
  by (cases r) (auto simp: onFst_def)

lemma sectionEnd_byte: "\<not> delim (c # s) \<Longrightarrow> matchingSectionEnd d (c # s) = onFst [c] (matchingSectionEnd d s)"
  by (simp add: matchingSectionEnd.simps delim_def onFst_def)

lemma sectionEnd_undelimited: "undelimited s \<Longrightarrow> x = [] \<or> delim x \<Longrightarrow> matchingSectionEnd d (s @ x) = onFst s (matchingSectionEnd d x)"
proof (induction s)
  case (Cons c s)
  then show ?case using delim_append [of c s x] sectionEnd_byte [of c "s @ x" d] by (simp add: undelimited_Cons onFst_append)
qed (simp add: onFst_Nil)

lemma sectionEnd_quiet: "\<forall>c \<in> set s. c \<noteq> CHR ''<'' \<and> c \<noteq> CHR '']'' \<Longrightarrow> matchingSectionEnd d (s @ x) = onFst s (matchingSectionEnd d x)"
proof (induction s)
  case (Cons c s)
  then have "\<not> delim (c # s @ x)" by (auto simp: delim_def hasPrefix_def)
  then show ?case using Cons sectionEnd_byte [of c "s @ x" d] by (simp add: onFst_append)
qed (simp add: onFst_Nil)

lemma startOf_quiet: "spaced h \<Longrightarrow> \<forall>c \<in> set (startOf h). c \<noteq> CHR ''<'' \<and> c \<noteq> CHR '']''"
proof -
  have "\<not> isSpace (CHR ''<'')" "\<not> isSpace (CHR '']'')" by (simp_all add: isSpace_def)
  then show "spaced h \<Longrightarrow> ?thesis" by (cases h) auto
qed

lemma sectionEnd_body:
  "balanced b \<Longrightarrow> delim x \<Longrightarrow> matchingSectionEnd d (render b @ x) = onFst (render b) (matchingSectionEnd d x)"
proof (induction b arbitrary: d x)
  case (Plain s)
  then show ?case using sectionEnd_undelimited by simp
next
  case (Sect s h b r)
  let ?y = "'']]>'' @ render r @ x"
  have y: "delim ?y" by (simp add: delim_def hasPrefix_def)
  have z: "delim (''<!['' @ z)" for z by (simp add: delim_def hasPrefix_def)
  have "matchingSectionEnd d (render (Sect s h b r) @ x) = onFst s (matchingSectionEnd d (''<!['' @ startOf h @ render b @ ?y))"
    using sectionEnd_undelimited [OF _ disjI2 [OF z], of s d] Sect.prems by simp
  also have "\<dots> = onFst s (onFst ''<!['' (matchingSectionEnd (d + 1) (startOf h @ render b @ ?y)))"
    by (simp add: matchingSectionEnd.simps(2) [of d "CHR ''<''"] hasPrefix_def onFst_def)
  also have "\<dots> = onFst s (onFst ''<!['' (onFst (startOf h) (matchingSectionEnd (d + 1) (render b @ ?y))))"
    using sectionEnd_quiet [OF startOf_quiet, of h "d + 1" "render b @ ?y"] Sect.prems by simp
  also have "\<dots> = onFst s (onFst ''<!['' (onFst (startOf h) (onFst (render b) (matchingSectionEnd (d + 1) ?y))))"
    using Sect.IH(1) [OF _ y] Sect.prems by simp
  also have "matchingSectionEnd (d + 1) ?y = onFst '']]>'' (matchingSectionEnd d (render r @ x))"
    by (simp add: matchingSectionEnd.simps(2) [of _ "CHR '']''"] hasPrefix_def onFst_def)
  also have "matchingSectionEnd d (render r @ x) = onFst (render r) (matchingSectionEnd d x)"
    using Sect.IH(2) Sect.prems by simp
  finally show ?case by (simp add: onFst_append)
qed

lemma sectionEnd_close: "balanced b \<Longrightarrow> matchingSectionEnd 0 (render b @ '']]>'' @ x) = Some (render b, x)"
  using sectionEnd_body [of b "'']]>'' @ x" 0]
  by (simp add: delim_def hasPrefix_def onFst_def matchingSectionEnd.simps(2) [of _ "CHR '']''"])

subsection \<open>Resolving sections\<close>

lemma cut_section: "undelimited s \<Longrightarrow> cutAt ''<!['' (s @ ''<!['' @ y) = Some (s, ''<!['' @ y)"
proof (induction s)
  case (Cons c s)
  have "\<not> delim (c # s @ ''<!['' @ y)" using Cons.prems delim_append [of c s "''<!['' @ y"] by (simp add: undelimited_Cons delim_def hasPrefix_def)
  then show ?case using Cons by (simp add: undelimited_Cons delim_def)
qed (simp add: hasPrefix_def)

lemma skipSpace_stripped: "\<forall>c \<in> set u. isSpace c \<Longrightarrow> s \<noteq> [] \<Longrightarrow> \<not> isSpace (hd s) \<Longrightarrow> skipSpace (u @ s) = s"
  by (induction u) (cases s; simp)+

lemma keyword_spaces:
  assumes "\<forall>c \<in> set u. isSpace c" "\<forall>c \<in> set v. isSpace c"
  shows "sectionKeyword (u @ ''INCLUDE'' @ v @ ''['' @ x) = Some (True, v @ ''['' @ x)"
    "sectionKeyword (u @ ''IGNORE'' @ v @ ''['' @ x) = Some (False, v @ ''['' @ x)"
    "skipSpace (v @ ''['' @ x) = ''['' @ x"
  using skipSpace_stripped [OF assms(1), of "''INCLUDE'' @ v @ ''['' @ x"] skipSpace_stripped [OF assms(1), of "''IGNORE'' @ v @ ''['' @ x"]
    skipSpace_stripped [OF assms(2), of "''['' @ x"]
  by (simp_all add: sectionKeyword_def hasPrefix_def isSpace_def Let_def)

lemma conditionals_body:
  "wellFormed b \<Longrightarrow> d \<le> maxConditionalDepth \<Longrightarrow>
     conditionalsFrom d (render b) = (if d + nesting b \<le> maxConditionalDepth then Inr (keep b) else Inl SectionsTooDeep)"
proof (induction b arbitrary: d)
  case (Plain s)
  then show ?case by (simp add: conditionalsFrom.simps undelimited_def)
next
  case (Sect s h b r)
  show ?case
  proof (cases h)
    case (Inc u v)
    then have w: "undelimited s" "\<forall>c \<in> set u. isSpace c" "\<forall>c \<in> set v. isSpace c" "wellFormed b" "wellFormed r" using Sect.prems by auto
    have eq: "conditionalsFrom d (render (Sect s h b r)) =
        bindE (conditionals (d + 1) (render b)) (\<lambda>inner. bindE (conditionalsFrom d (render r)) (\<lambda>out. Inr (s @ inner @ out)))"
      using cut_section [OF w(1)] keyword_spaces [OF w(2,3)] sectionEnd_close [OF wellFormed_balanced [OF w(4)]] Inc
      by (simp add: conditionalsFrom.simps hasPrefix_def)
    have "conditionals (d + 1) (render b) = (if d + 1 + nesting b \<le> maxConditionalDepth then Inr (keep b) else Inl SectionsTooDeep)"
      using Sect.IH(1) [OF w(4), of "d + 1"] by (simp add: conditionals.simps)
    then show ?thesis unfolding eq using Sect.IH(2) [OF w(5) Sect.prems(2)] Inc by (auto split: if_splits)
  next
    case (Ign u v)
    then have w: "undelimited s" "\<forall>c \<in> set u. isSpace c" "\<forall>c \<in> set v. isSpace c" "balanced b" "wellFormed r" using Sect.prems by auto
    have "conditionalsFrom d (render (Sect s h b r)) = bindE (conditionalsFrom d (render r)) (\<lambda>out. Inr (s @ out))"
      using cut_section [OF w(1)] keyword_spaces [OF w(2,3)] sectionEnd_close [OF w(4)] Ign
      by (simp add: conditionalsFrom.simps hasPrefix_def)
    then show ?thesis using Sect.IH(2) [OF w(5) Sect.prems(2)] Ign by (simp del: render.simps)
  next
    case Unk
    then show ?thesis using Sect.prems by simp
  qed
qed

lemma conditionals_shorter:
  "conditionals d s = Inr t \<Longrightarrow> length t \<le> length s"
  "conditionalsFrom d s = Inr t \<Longrightarrow> length t \<le> length s"
proof (induction d s and d s arbitrary: t and t rule: conditionals_conditionalsFrom.induct)
  case (1 d s)
  then show ?case by (auto simp: conditionals.simps split: if_splits)
next
  case (2 d s)
  show ?case
  proof (cases "cutAt ''<!['' s")
    case None
    then show ?thesis using 2(4) by (simp add: conditionalsFrom.simps)
  next
    case (Some pf)
    obtain pre frm where pf: "pf = (pre, frm)" by (cases pf)
    have s: "s = pre @ frm" "3 \<le> length frm"
      using cutAt_shorter [of "''<![''" s pre frm] Some pf by (auto simp: hasPrefix_def dest: arg_cong [of _ _ length])
    show ?thesis
    proof (cases "sectionKeyword (drop 3 frm)")
      case None
      then obtain out where o: "conditionalsFrom d (drop 3 frm) = Inr out" "t = pre @ ''<!['' @ out"
        using 2(4) Some pf by (auto simp: conditionalsFrom.simps bindE_Inr_iff)
      then show ?thesis using 2(1) [OF Some pf [symmetric] None o(1)] s by simp
    next
      case k: (Some ik)
      obtain inc kw where ik: "ik = (inc, kw)" by (cases ik)
      have no: "\<not> \<not> hasPrefix ''['' (skipSpace kw)" using 2(4) Some pf k ik by (auto simp: conditionalsFrom.simps split: if_splits)
      obtain body left where e: "matchingSectionEnd 0 (tl (skipSpace kw)) = Some (body, left)"
        using 2(4) Some pf k ik no by (cases "matchingSectionEnd 0 (tl (skipSpace kw))") (auto simp: conditionalsFrom.simps)
      obtain inner out where r: "(if inc then conditionals (d + 1) body else Inr []) = Inr inner" "conditionalsFrom d left = Inr out" "t = pre @ inner @ out"
        using 2(4) Some pf k ik no e by (auto simp: conditionalsFrom.simps bindE_Inr_iff)
      have "length inner \<le> length body" using 2(2) [OF Some pf [symmetric] k ik [symmetric] no e refl] r(1) by (cases inc) auto
      moreover have "length out \<le> length left" by (rule 2(3) [OF Some pf [symmetric] k ik [symmetric] no e refl r(1,2)])
      moreover have "length body + length left \<le> length kw"
        using arg_cong [OF matchingSectionEnd_parts [OF e], of length] skipSpace_shorter [of kw] by simp
      moreover have "length kw \<le> length frm"
        using k ik skipSpace_shorter [of "drop 3 frm"] by (auto simp: sectionKeyword_def Let_def split: if_splits)
      ultimately show ?thesis using r(3) s by simp
    qed
  qed
qed

end
