(* ===== verification/DtdGrammar.thy ===== *)
theory DtdGrammar
  imports DtdModel XsdFacts
begin

text \<open>
  What a content model means by the XML specification, and that the parser, the compiler and the matcher
  together decide it. A content model is a tree of names and groups with quantifiers; its spellings put white
  space wherever the grammar of XML 1.0, section 3.2.1, has it.
\<close>

subsection \<open>Content models\<close>

datatype quant = Once | Opt | Star | Plus

datatype cm = CName string quant | CGroup bool "cm list" quant

fun quantStr :: "quant \<Rightarrow> string" where
  "quantStr Once = ''''"
| "quantStr Opt = ''?''"
| "quantStr Star = ''*''"
| "quantStr Plus = ''+''"

definition sepChar :: "bool \<Rightarrow> char" where
  "sepChar alt = (if alt then CHR ''|'' else CHR '','')"

fun quantLang :: "quant \<Rightarrow> qname list set \<Rightarrow> qname list set" where
  "quantLang Once A = A"
| "quantLang Opt A = insert [] A"
| "quantLang Star A = insert [] (plusLang A)"
| "quantLang Plus A = plusLang A"

text \<open>The language of a content model: a choice admits what a member admits, a sequence the concatenations,
  and a quantifier repeats.\<close>

fun cmLang :: "cm \<Rightarrow> qname list set" where
  "cmLang (CName n q) = quantLang q {[QName [] [] n]}"
| "cmLang (CGroup alt ts q) =
     quantLang q (if alt then \<Union> (set (map cmLang ts)) else foldr concatLang (map cmLang ts) {[]})"

fun cmDepth :: "cm \<Rightarrow> nat" where
  "cmDepth (CName n q) = 0"
| "cmDepth (CGroup alt ts q) = Suc (Max (insert 0 (set (map cmDepth ts))))"

inductive spells :: "cm \<Rightarrow> string \<Rightarrow> bool"
and spellsMembers :: "bool \<Rightarrow> cm list \<Rightarrow> string \<Rightarrow> bool" where
  sName: "\<forall>c \<in> set w. isSpace c \<Longrightarrow> n \<noteq> [] \<Longrightarrow> \<forall>c \<in> set n. \<not> nameEnd c \<Longrightarrow> spells (CName n q) (w @ n @ quantStr q)"
| sGroup: "\<forall>c \<in> set w. isSpace c \<Longrightarrow> spellsMembers alt ts s \<Longrightarrow>
     spells (CGroup alt ts q) (w @ CHR ''('' # s @ CHR '')'' # quantStr q)"
| mOne: "spells t s \<Longrightarrow> \<forall>c \<in> set w. isSpace c \<Longrightarrow> spellsMembers alt [t] (s @ w)"
| mMore: "spells t s \<Longrightarrow> \<forall>c \<in> set w. isSpace c \<Longrightarrow> spellsMembers alt ts s' \<Longrightarrow>
     spellsMembers alt (t # ts) (s @ w @ sepChar alt # s')"

subsection \<open>The particle a content model becomes\<close>

fun withQuant :: "quant \<Rightarrow> particle \<Rightarrow> particle" where
  "withQuant Once p = p"
| "withQuant Opt p = Particle 0 1 (TermOf p)"
| "withQuant Star p = Particle 0 Unbounded (TermOf p)"
| "withQuant Plus p = Particle 1 Unbounded (TermOf p)"

inductive denotes :: "modelGroup list \<Rightarrow> particle \<Rightarrow> cm \<Rightarrow> bool" for G where
  dName: "denotes G (withQuant q (dtdElem n)) (CName n q)"
| dOne: "denotes G p t \<Longrightarrow> denotes G (withQuant q p) (CGroup alt [t] q)"
| dMany: "list_all2 (denotes G) ps ts \<Longrightarrow> length ts \<noteq> 1 \<Longrightarrow> g < length G \<Longrightarrow>
     G ! g = ModelGroup (if alt then CompositorChoice else CompositorSequence) ps \<Longrightarrow>
     denotes G (withQuant q (Particle 1 1 (GroupTerm g))) (CGroup alt ts q)"

lemma denotes_grow: "denotes G p t \<Longrightarrow> denotes (G @ H) p t"
proof (induction rule: denotes.induct)
  case (dMany ps ts g alt q)
  then have "list_all2 (denotes (G @ H)) ps ts" by (auto elim: list_all2_mono)
  then show ?case using dMany by (intro denotes.dMany) (auto simp: nth_append)
qed (auto intro: denotes.intros)

subsection \<open>Parsing a spelling\<close>

definition follows :: "string \<Rightarrow> bool" where
  "follows r \<longleftrightarrow> (case r of [] \<Rightarrow> True | c # _ \<Rightarrow> isSpace c \<or> c = CHR '','' \<or> c = CHR ''|'' \<or> c = CHR '')'')"

lemma skipSpace_spaces: "\<forall>c \<in> set w. isSpace c \<Longrightarrow> skipSpace (w @ s) = skipSpace s"
  by (induction w) auto

lemma skipSpace_stop: "\<not> isSpace c \<Longrightarrow> skipSpace (c # s) = c # s"
  by simp

lemma follows_quant: "follows r \<Longrightarrow> applyQuantifier p (quantStr q @ r) = (withQuant q p, r)"
  by (cases q; cases r) (auto simp: applyQuantifier_def follows_def isSpace_def)

lemma follows_nameEnd: "follows r \<Longrightarrow> quantStr q @ r = [] \<or> nameEnd (hd (quantStr q @ r))"
  by (cases q; cases r) (auto simp: follows_def nameEnd_def)

lemma parseName_spelt:
  assumes "n \<noteq> []" "\<forall>c \<in> set n. \<not> nameEnd c" "r = [] \<or> nameEnd (hd r)"
  shows "parseName (n @ r) = Inr (n, r)"
proof -
  have "takeWhile (\<lambda>c. \<not> nameEnd c) (n @ r) = n" "dropWhile (\<lambda>c. \<not> nameEnd c) (n @ r) = r"
    using assms(2,3) by (cases r; simp add: takeWhile_append dropWhile_append)+
  then show ?thesis using assms(1) by (simp add: parseName_def)
qed

definition parsesTo :: "modelError + particle \<times> modelState \<Rightarrow> modelGroup list \<Rightarrow> string \<Rightarrow> (modelGroup list \<Rightarrow> particle \<Rightarrow> bool) \<Rightarrow> bool" where
  "parsesTo res G r P \<longleftrightarrow> (\<exists>p H. res = Inr (p, r, G @ H) \<and> P (G @ H) p)"

definition membersEnd :: "bool \<Rightarrow> particle list \<Rightarrow> string \<Rightarrow> modelGroup list \<Rightarrow> modelError + particle \<times> modelState" where
  "membersEnd alt ms r G =
     (if length ms = 1 then Inr (ms ! 0, r, G)
      else Inr (Particle 1 1 (GroupTerm (length G)), r,
                G @ [ModelGroup (if alt then CompositorChoice else CompositorSequence) ms]))"

lemma cmDepth_member: "t \<in> set ts \<Longrightarrow> cmDepth t < cmDepth (CGroup alt ts q)"
  by (simp add: less_Suc_eq_le)

lemma spelt_parse:
  "spells t s \<Longrightarrow> 3 * length (s @ r) + 1 \<le> fuel \<Longrightarrow> depth + cmDepth t \<le> maxModelDepth \<Longrightarrow> follows r \<Longrightarrow>
     \<exists>p H. parseCP fuel depth (s @ r) G = Inr (p, r, G @ H) \<and> denotes (G @ H) p t"
  "spellsMembers alt ts s \<Longrightarrow> 3 * length (s @ CHR '')'' # r) + 2 \<le> fuel \<Longrightarrow> (\<forall>t \<in> set ts. depth + cmDepth t \<le> maxModelDepth) \<Longrightarrow>
     sep = (if ms = [] then None else Some (sepChar alt)) \<Longrightarrow>
     \<exists>ps H. parseMembers fuel depth sep ms (s @ CHR '')'' # r) G = membersEnd alt (ms @ ps) r (G @ H) \<and>
       list_all2 (denotes (G @ H)) ps ts"
proof (induction arbitrary: r fuel depth G and r fuel depth G sep ms rule: spells_spellsMembers.inducts)
  case (sName w n q)
  obtain f where f: "fuel = Suc f" using sName.prems(1) by (cases fuel) auto
  obtain c n' where n: "n = c # n'" "\<not> isSpace c" "c \<noteq> CHR ''(''" using sName.hyps(2,3) by (cases n) (auto simp: nameEnd_def)
  have "skipSpace ((w @ n @ quantStr q) @ r) = n @ quantStr q @ r"
    using skipSpace_spaces [OF sName.hyps(1)] n by simp
  moreover have "parseName (n @ quantStr q @ r) = Inr (n, quantStr q @ r)"
    by (rule parseName_spelt [OF sName.hyps(2,3) follows_nameEnd [OF sName.prems(3)]])
  ultimately have "parseCP fuel depth ((w @ n @ quantStr q) @ r) G = Inr (withQuant q (dtdElem n), r, G @ [])"
    using n follows_quant [OF sName.prems(3)] by (simp add: f)
  then show ?case using denotes.dName by blast
next
  case (sGroup w alt ts s q)
  define r' where "r' = quantStr q @ r"
  obtain f where f: "fuel = Suc (Suc f)" using sGroup.prems(1) by (cases fuel rule: nat.exhaust [case_names 0 Suc]; cases "fuel - 1") auto
  have d: "depth + 1 \<le> maxModelDepth" using sGroup.prems(2) by simp
  have ds: "\<forall>t \<in> set ts. depth + 1 + cmDepth t \<le> maxModelDepth"
    using sGroup.prems(2) cmDepth_member [of _ ts alt q] by fastforce
  have "3 * length (s @ CHR '')'' # r') + 2 \<le> f" using sGroup.prems(1) by (simp add: f r'_def)
  from sGroup.IH [OF this ds, of None "[]" G] obtain ps H where
    ps: "parseMembers f (depth + 1) None [] (s @ CHR '')'' # r') G = membersEnd alt ps r' (G @ H)"
    and dn: "list_all2 (denotes (G @ H)) ps ts" by auto
  have sk: "skipSpace (w @ CHR ''('' # s @ CHR '')'' # quantStr q @ r) = CHR ''('' # s @ CHR '')'' # r'"
    using skipSpace_spaces [OF sGroup.hyps(1)] by (simp add: r'_def isSpace_def)
  note fq = follows_quant [OF sGroup.prems(3), of _ q, folded r'_def]
  show ?case
  proof (cases "length ts = 1")
    case True
    then obtain p t where pt: "ps = [p]" "ts = [t]" "denotes (G @ H) p t"
      using dn by (auto simp: length_Suc_conv list_all2_Cons2)
    have "parseCP fuel depth ((w @ CHR ''('' # s @ CHR '')'' # quantStr q) @ r) G = Inr (withQuant q p, r, G @ H)"
      using ps d pt(1) fq by (simp add: f sk membersEnd_def)
    then show ?thesis using denotes.dOne [OF pt(3)] unfolding pt(2) by blast
  next
    case False
    let ?M = "ModelGroup (if alt then CompositorChoice else CompositorSequence) ps"
    have l: "length ps \<noteq> 1" using False dn by (simp add: list_all2_lengthD)
    have "parseCP fuel depth ((w @ CHR ''('' # s @ CHR '')'' # quantStr q) @ r) G =
        Inr (withQuant q (Particle 1 1 (GroupTerm (length (G @ H)))), r, G @ (H @ [?M]))"
      using ps d l fq by (simp add: f sk membersEnd_def)
    moreover have "denotes (G @ (H @ [?M])) (withQuant q (Particle 1 1 (GroupTerm (length (G @ H))))) (CGroup alt ts q)"
    proof (rule denotes.dMany [OF _ False])
      show "list_all2 (denotes (G @ H @ [?M])) ps ts"
        using dn denotes_grow [of "G @ H" _ _ "[?M]"] by (auto elim: list_all2_mono)
    qed (simp_all add: nth_append)
    ultimately show ?thesis by blast
  qed
next
  case (mOne t s w alt)
  obtain f where f: "fuel = Suc f" using mOne.prems(1) by (cases fuel) auto
  have fo: "follows (w @ CHR '')'' # r)" using mOne.hyps(2) by (cases w) (auto simp: follows_def)
  have "3 * length (s @ w @ CHR '')'' # r) + 1 \<le> f" using mOne.prems(1) by (simp add: f)
  from mOne.IH [OF this _ fo, of depth G] obtain p H where
    p: "parseCP f depth (s @ w @ CHR '')'' # r) G = Inr (p, w @ CHR '')'' # r, G @ H)" "denotes (G @ H) p t"
    using mOne.prems(2) by auto
  have sk: "skipSpace (w @ CHR '')'' # r) = CHR '')'' # r"
    using skipSpace_spaces [OF mOne.hyps(2)] by (simp add: isSpace_def)
  have "parseMembers fuel depth sep ms ((s @ w) @ CHR '')'' # r) G = membersEnd alt (ms @ [p]) r (G @ H)"
    using p(1) sk mOne.prems(3) by (auto simp: f membersEnd_def sepChar_def)
  then show ?case using p(2) by blast
next
  case (mMore t s w alt ts s')
  obtain f where f: "fuel = Suc f" using mMore.prems(1) by (cases fuel) auto
  let ?c = "sepChar alt" and ?r = "s' @ CHR '')'' # r"
  have fo: "follows (w @ ?c # ?r)" using mMore.hyps(2) by (cases w) (auto simp: follows_def sepChar_def)
  have "3 * length (s @ w @ ?c # ?r) + 1 \<le> f" using mMore.prems(1) by (simp add: f)
  from mMore.IH(1) [OF this _ fo, of depth G] obtain p H where
    p: "parseCP f depth (s @ w @ ?c # ?r) G = Inr (p, w @ ?c # ?r, G @ H)" "denotes (G @ H) p t"
    using mMore.prems(2) by auto
  have sk: "skipSpace (w @ ?c # ?r) = ?c # ?r"
    using skipSpace_spaces [OF mMore.hyps(2)] by (simp add: isSpace_def sepChar_def)
  have "3 * length ?r + 2 \<le> f" using mMore.prems(1) by (simp add: f)
  from mMore.IH(2) [OF this, of depth "Some ?c" "ms @ [p]" "G @ H"] obtain ps H' where
    ps: "parseMembers f depth (Some ?c) (ms @ [p]) ?r (G @ H) = membersEnd alt ((ms @ [p]) @ ps) r ((G @ H) @ H')"
    and dn: "list_all2 (denotes ((G @ H) @ H')) ps ts"
    using mMore.prems(2) by auto
  have "?c = CHR '','' \<or> ?c = CHR ''|''" by (simp add: sepChar_def)
  then have "parseMembers fuel depth sep ms ((s @ w @ ?c # s') @ CHR '')'' # r) G =
      membersEnd alt (ms @ (p # ps)) r (G @ (H @ H'))"
    using p(1) sk mMore.prems(3) ps by (auto simp: f)
  moreover have "list_all2 (denotes (G @ (H @ H'))) (p # ps) (t # ts)"
    using denotes_grow [OF p(2), of H'] dn by simp
  ultimately show ?case by blast
qed

end
