(* ===== verification/DtdFacts.thy ===== *)
theory DtdFacts
  imports DtdGrammar
begin

text \<open>
  The properties of the content models of a DTD: every particle the parser builds is one the compiler is
  proved for, it denotes the language of the model that was written, and the compiler can fail on it only
  for its size.
\<close>

subsection \<open>What the parser builds\<close>

text \<open>References to groups go to groups built earlier.\<close>

definition below :: "nat \<Rightarrow> particle \<Rightarrow> bool" where
  "below n p \<longleftrightarrow> (case TermOf p of GroupTerm g \<Rightarrow> g < n | ElemTerm _ \<Rightarrow> True | _ \<Rightarrow> False)"

definition dtdGroups :: "modelGroup list \<Rightarrow> bool" where
  "dtdGroups G \<longleftrightarrow>
     (\<forall>g < length G. Compositor (G ! g) \<noteq> CompositorAll \<and> Particles (G ! g) \<noteq> [] \<and>
        (\<forall>p \<in> set (Particles (G ! g)). dtdBounds p \<and> below g p))"

definition dtdPart :: "modelGroup list \<Rightarrow> particle \<Rightarrow> bool" where
  "dtdPart G p \<longleftrightarrow> dtdBounds p \<and> below (length G) p"

lemma below_mono: "below m p \<Longrightarrow> m \<le> n \<Longrightarrow> below n p"
  by (auto simp: below_def split: xterm.splits)

lemma dtd_plain: "dtdGroups G \<Longrightarrow> plainGroups G" "dtdPart G p \<Longrightarrow> plainParticle G p"
proof -
  have *: "plainParticle G p" if "dtdBounds p" "below n p" "n \<le> length G" for n p
    using that by (cases "TermOf p") (auto simp: plainParticle_def below_def)
  show "dtdPart G p \<Longrightarrow> plainParticle G p" using * by (auto simp: dtdPart_def)
  show "dtdGroups G \<Longrightarrow> plainGroups G"
    unfolding plainGroups_def dtdGroups_def using * by (metis in_set_conv_nth less_imp_le)
qed

lemma dtdGroups_snoc:
  "dtdGroups G \<Longrightarrow> c \<noteq> CompositorAll \<Longrightarrow> ms \<noteq> [] \<Longrightarrow> \<forall>p \<in> set ms. dtdPart G p \<Longrightarrow> dtdGroups (G @ [ModelGroup c ms])"
  by (auto simp: dtdGroups_def dtdPart_def nth_append less_Suc_eq)

lemma dtdPart_quant: "dtdPart G p \<Longrightarrow> applyQuantifier p s = (q, r) \<Longrightarrow> dtdPart G q"
  by (auto simp: dtdPart_def applyQuantifier_def dtdBounds_def below_def split: list.splits if_splits)

definition goodParse :: "modelGroup list \<Rightarrow> modelError + particle \<times> modelState \<Rightarrow> bool" where
  "goodParse G res \<longleftrightarrow>
     (\<forall>p r G'. res = Inr (p, r, G') \<longrightarrow> length G \<le> length G' \<and> dtdGroups G' \<and> dtdPart G' p)"

lemma parse_good:
  "dtdGroups G \<Longrightarrow> goodParse G (parseCP fuel depth s G)"
  "dtdGroups G \<Longrightarrow> goodParse G (parseGroup fuel depth s G)"
  "dtdGroups G \<Longrightarrow> \<forall>p \<in> set ms. dtdPart G p \<Longrightarrow> goodParse G (parseMembers fuel depth sep ms s G)"
proof (induction fuel arbitrary: s depth G sep ms)
  case (Suc fuel)
  {
    case 1
    show ?case
    proof (cases "skipSpace s")
      case (Cons c rest)
      let ?r = "if c = CHR ''('' then parseGroup fuel depth (c # rest) G
             else bindE (parseName (c # rest)) (\<lambda>(name, rest). Inr (dtdElem name, rest, G))"
      have "goodParse G ?r"
      proof (cases "c = CHR ''(''")
        case True
        then show ?thesis using Suc.IH(2) [OF 1] by simp
      next
        case False
        then show ?thesis using 1
          by (cases "parseName (c # rest)") (auto simp: goodParse_def dtdPart_def dtdElem_def dtdBounds_def below_def)
      qed
      then show ?thesis using Cons dtdPart_quant by (cases ?r) (fastforce simp: goodParse_def split: prod.splits)+
    qed (simp add: goodParse_def)
  next
    case 2
    then show ?case using Suc.IH(3) [OF 2, of "[]"] by (simp add: goodParse_def)
  next
    case 3
    show ?case
    proof (cases "parseCP fuel depth s G")
      case (Inr r)
      obtain m rest G' where r: "r = (m, rest, G')" by (cases r) auto
      have g: "length G \<le> length G'" "dtdGroups G'" "dtdPart G' m"
        using Suc.IH(1) [OF 3(1), of depth s] Inr r by (auto simp: goodParse_def)
      have ms: "\<forall>p \<in> set (ms @ [m]). dtdPart G' p" using 3(2) g below_mono by (auto simp: dtdPart_def)
      show ?thesis
      proof (cases "skipSpace rest")
        case Nil
        then show ?thesis using Inr r by (simp add: goodParse_def)
      next
        case (Cons c rest')
        have rec: "goodParse G' (parseMembers fuel depth (Some c) (ms @ [m]) rest' G')"
          by (rule Suc.IH(3) [OF g(2) ms])
        have one: "dtdPart G' ((ms @ [m]) ! 0)" using ms nth_mem [of 0 "ms @ [m]"] by blast
        have many: "dtdGroups (G' @ [ModelGroup (if b then CompositorChoice else CompositorSequence) (ms @ [m])])" for b
          by (rule dtdGroups_snoc [OF g(2) _ _ ms]) auto
        have new: "dtdPart (G' @ [M]) (Particle 1 1 (GroupTerm (length G')))" for M
          by (simp add: dtdPart_def dtdBounds_def below_def)
        show ?thesis
        proof (cases "c = CHR '','' \<or> c = CHR ''|''")
          case True
          then show ?thesis using rec g(1) Inr r Cons by (auto simp: goodParse_def Let_def)
        next
          case False
          then show ?thesis
            using g(1,2) one many [of True] many [of False] new Inr r Cons by (auto simp: goodParse_def Let_def simp del: append_Cons)
        qed
      qed
    qed (simp add: goodParse_def)
  }
qed (simp_all add: goodParse_def)

lemma parseModel_good: "parseModel s = Inr (p, G) \<Longrightarrow> dtdGroups G \<and> dtdPart G p"
proof -
  assume "parseModel s = Inr (p, G)"
  then obtain r where "parseCP (3 * length (TrimSpace s) + 1) 0 (TrimSpace s) [] = Inr (p, r, G)"
    unfolding parseModel_def Let_def bindE_Inr_iff by (elim exE conjE) (auto simp del: parseCP.simps split: list.splits)
  moreover have "dtdGroups []" by (simp add: dtdGroups_def)
  ultimately show ?thesis using parse_good(1) [of "[]"] unfolding goodParse_def by blast
qed

subsection \<open>Its language\<close>

fun cmQuant :: "cm \<Rightarrow> quant" where
  "cmQuant (CName n q) = q"
| "cmQuant (CGroup alt [t] q) = (if q = Once then cmQuant t else q)"
| "cmQuant (CGroup alt ts q) = q"

text \<open>A member alone in its group does not carry a quantifier of its own when the group carries one.\<close>

fun singly :: "cm \<Rightarrow> bool" where
  "singly (CName n q) = True"
| "singly (CGroup alt ts q) = ((\<forall>t \<in> set ts. singly t) \<and> (\<forall>t. ts = [t] \<and> q \<noteq> Once \<longrightarrow> cmQuant t = Once))"

definition hasQuant :: "quant \<Rightarrow> particle \<Rightarrow> bool" where
  "hasQuant q p \<longleftrightarrow> withQuant q (Particle 1 1 (TermOf p)) = p"

lemma hasQuant_simps:
  "hasQuant q (withQuant q (Particle 1 1 t))" "hasQuant Once p \<Longrightarrow> hasQuant q (withQuant q p)"
  by (cases q; auto simp: hasQuant_def)+

lemma hasQuant_lang:
  assumes "hasQuant q p"
  shows "{w. partLang G p w} = quantLang q {w. termLang G (TermOf p) w}"
proof -
  obtain t where p: "p = withQuant q (Particle 1 1 t)" using assms unfolding hasQuant_def by metis
  have "dtdBounds p" "TermOf p = t" unfolding p by (cases q; simp add: dtdBounds_def)+
  then show ?thesis using partLang_dtd [of p G] unfolding p by (cases q) (simp_all add: Unbounded_def Let_def)
qed

lemma withQuant_lang:
  "hasQuant Once p \<Longrightarrow> {w. partLang G (withQuant q p) w} = quantLang q {w. partLang G p w}"
proof -
  assume h: "hasQuant Once p"
  have "TermOf (withQuant q p) = TermOf p" by (cases q) auto
  then show ?thesis using hasQuant_lang [OF hasQuant_simps(2) [OF h, of q], of G] hasQuant_lang [OF h, of G] by simp
qed

lemma seqLang_members: "{w. seqLang G ps w} = foldr concatLang (map (\<lambda>p. {w. partLang G p w}) ps) {[]}"
proof (induction ps)
  case (Cons p ps)
  then show ?case by (simp add: seqLang_Cons)
qed (auto simp: seqLang_Nil)

lemma denotes_quant: "denotes G p t \<Longrightarrow> singly t \<Longrightarrow> hasQuant (cmQuant t) p"
proof (induction rule: denotes.induct)
  case (dName q n)
  then show ?case using hasQuant_simps(1) by (simp add: dtdElem_def)
next
  case (dOne p t q alt)
  then show ?case using hasQuant_simps(2) by (cases "q = Once") auto
next
  case (dMany ps ts g alt q)
  then have "cmQuant (CGroup alt ts q) = q" by (cases ts; cases "tl ts") auto
  then show ?case using hasQuant_simps(1) by simp
qed

lemma denotes_lang: "denotes G p t \<Longrightarrow> singly t \<Longrightarrow> {w. partLang G p w} = cmLang t"
proof (induction rule: denotes.induct)
  case (dName q n)
  have h: "hasQuant Once (dtdElem n)" by (simp add: hasQuant_def dtdElem_def)
  have "{w. partLang G (dtdElem n) w} = {[QName [] [] n]}"
    using hasQuant_lang [OF h, of G] by (auto simp: dtdElem_def termLang_elem elemMatches_def)
  then show ?case using withQuant_lang [OF h, of G q] by simp
next
  case (dOne p t q alt)
  have l: "{w. partLang G p w} = cmLang t" using dOne by simp
  have "{w. partLang G (withQuant q p) w} = quantLang q (cmLang t)"
  proof (cases "q = Once")
    case False
    then have "hasQuant Once p" using denotes_quant [OF dOne.hyps] dOne.prems by auto
    then show ?thesis using withQuant_lang l by simp
  qed (use l in simp)
  then show ?case by (simp add: concatLang_unit)
next
  case (dMany ps ts g alt q)
  let ?p = "Particle 1 1 (GroupTerm g)"
  have h: "hasQuant Once ?p" by (simp add: hasQuant_def)
  have "\<forall>t \<in> set ts. singly t" using dMany.prems by simp
  with dMany.IH have m: "map (\<lambda>p. {w. partLang G p w}) ps = map cmLang ts"
    by (induction rule: list_all2_induct) auto
  have "{w. termLang G (GroupTerm g) w} = (if alt then \<Union> (set (map cmLang ts)) else foldr concatLang (map cmLang ts) {[]})"
  proof (cases alt)
    case True
    have "{w. termLang G (GroupTerm g) w} = \<Union> (set (map (\<lambda>p. {w. partLang G p w}) ps))"
      using termLang_choice [OF dMany.hyps(2)] dMany.hyps(3) True by auto
    then show ?thesis using True m by simp
  next
    case False
    have "{w. termLang G (GroupTerm g) w} = {w. seqLang G ps w}"
      using termLang_seq [OF dMany.hyps(2)] dMany.hyps(3) False by simp
    then show ?thesis using False m seqLang_members [of G ps] by simp
  qed
  then have "{w. partLang G ?p w} = (if alt then \<Union> (set (map cmLang ts)) else foldr concatLang (map cmLang ts) {[]})"
    using hasQuant_lang [OF h, of G] by simp
  then show ?case using withQuant_lang [OF h, of G q] by simp
qed

subsection \<open>Compiling it\<close>

lemma bindE_Inl_iff: "bindE r f = Inl e \<longleftrightarrow> r = Inl e \<or> (\<exists>x. r = Inr x \<and> f x = Inl e)"
  by (cases r) auto

lemma dtdGroupsD:
  assumes "dtdGroups G" "g < length G"
  shows "Compositor (G ! g) \<noteq> CompositorAll" "\<forall>p \<in> set (Particles (G ! g)). below g p"
  using assms by (auto simp: dtdGroups_def)

lemma build_only_size:
  assumes dg: "dtdGroups G"
  shows "H = G \<Longrightarrow> below n p \<Longrightarrow> n \<le> length G \<Longrightarrow> \<forall>a \<in> set active. n \<le> a \<Longrightarrow> build H active m p enc \<noteq> Inl RecursiveModel"
    "H = G \<Longrightarrow> \<forall>p \<in> set ps. below n p \<Longrightarrow> n \<le> length G \<Longrightarrow> \<forall>a \<in> set active. n \<le> a \<Longrightarrow>
       buildSequence H active m ps enc out \<noteq> Inl RecursiveModel"
    "H = G \<Longrightarrow> \<forall>p \<in> set ps. below n p \<Longrightarrow> n \<le> length G \<Longrightarrow> \<forall>a \<in> set active. n \<le> a \<Longrightarrow>
       buildChoice H active m ps enc out \<noteq> Inl RecursiveModel"
proof (induction H active m p enc and H active m ps enc out and H active m ps enc out arbitrary: n and n and n
    rule: build_buildSequence_buildChoice.induct)
  case (1 H active m p enc)
  show ?case
  proof (cases "TermOf p")
    case (GroupTerm g)
    have g: "g < n" "g < length G" "g \<notin> set active" using GroupTerm 1(4-6) by (auto simp: below_def)
    have ng: "\<not> \<not> g < length H" using g(2) 1(3) by simp
    have ac: "\<forall>a \<in> set (g # active). g \<le> a" using 1(6) g(1) by auto
    note D = dtdGroupsD [OF dg g(2)]
    note ih = 1(1,2) [OF refl refl refl refl refl GroupTerm g(3) ng _ 1(3), of g]
    show ?thesis
    proof (cases "Compositor (G ! g)")
      case CompositorSequence
      then show ?thesis using ih(1) D(2) g ac GroupTerm 1(3) by (auto simp: Let_def bindE_Inl_iff split: prod.splits)
    next
      case CompositorChoice
      then show ?thesis using ih(2) D(2) g ac GroupTerm 1(3) by (auto simp: Let_def bindE_Inl_iff split: prod.splits)
    qed (use D(1) in simp)
  qed (auto simp: Let_def)
next
  case (3 H active m p ps enc out)
  show ?case
  proof (cases "build H active m p enc")
    case (Inl e)
    then show ?thesis using 3(1) [OF 3(3), of n] 3(4-6) by simp
  next
    case (Inr r)
    then show ?thesis using 3(2) [OF Inr, of "fst r" "snd r" n] 3(3-6) by (cases r) simp
  qed
next
  case (5 H active m p ps enc out)
  show ?case
  proof (cases "build H active m p enc")
    case (Inl e)
    then show ?thesis using 5(1) [OF 5(3), of n] 5(4-6) by simp
  next
    case (Inr r)
    then show ?thesis using 5(2) [OF Inr, of "fst r" "snd r" n] 5(3-6) by (cases r) simp
  qed
qed simp_all

lemma parsed_compile_error:
  assumes "parseModel s = Inr (p, G)" "NewSequenceMatcher G p = Inl e"
  shows "e = TooManyPositions"
proof (rule compileError.exhaust [of e])
  assume e: "e = RecursiveModel"
  have "dtdGroups G" "below (length G) p" using parseModel_good [OF assms(1)] by (auto simp: dtdPart_def)
  then have "build G [] (emptyModel DefaultMaxContentModelPositions) p None \<noteq> Inl RecursiveModel"
    using build_only_size(1) [of G G "length G" p "[]"] by simp
  then show ?thesis using assms(2) e
    by (cases "build G [] (emptyModel DefaultMaxContentModelPositions) p None")
      (auto simp: NewSequenceMatcher_def compileContentModel_def Let_def simp del: build.simps)
qed

lemma spelt_model:
  assumes "spells t (TrimSpace s)" "cmDepth t \<le> maxModelDepth"
  shows "\<exists>p G. parseModel s = Inr (p, G) \<and> denotes G p t"
proof -
  have "follows []" by (simp add: follows_def)
  then obtain p G where "parseCP (3 * length (TrimSpace s) + 1) 0 (TrimSpace s) [] = Inr (p, [], G)" "denotes G p t"
    using spelt_parse(1) [OF assms(1), of "[]" "3 * length (TrimSpace s) + 1" 0 "[]"] assms(2) by auto
  then show ?thesis unfolding parseModel_def Let_def by (simp del: parseCP.simps)
qed

subsection \<open>The content model decides its language\<close>

lemma denoted_match:
  assumes "parseModel s = Inr (p, G)" "denotes G p t" "singly t" "NewSequenceMatcher G p = Inr m"
  shows "(fst (sequenceMatch m names) \<longrightarrow> names \<in> cmLang t) \<and> (\<not> overBudget m names \<and> names \<in> cmLang t \<longrightarrow> fst (sequenceMatch m names))"
proof -
  have "plainGroups G" "plainParticle G p" using parseModel_good [OF assms(1)] dtd_plain by auto
  then show ?thesis using matcher.decides [of "(G, p)" m names] assms(4) denotes_lang [OF assms(2,3)] by auto
qed

text \<open>C29: A DTD content model decides its language, from its text to the answer. For any content model of XML 1.0, section 3.2.1, nested at most 1000 groups deep, and any way of spelling it with white space, the parser accepts the text; the particle it builds compiles, unless the model has more than 8192 names; and the matcher then admits only sequences of names in the model's language, and all of them unless the budget of 4096 states is exceeded. The one thing asked of the model is that the sole member of a group does not have a quantifier when the group has one too.\<close>

theorem dtd_model_decides:
  assumes "spells t (TrimSpace s)" "cmDepth t \<le> maxModelDepth" "singly t"
  shows "\<exists>p G. parseModel s = Inr (p, G) \<and>
    (case NewSequenceMatcher G p of
       Inl e \<Rightarrow> e = TooManyPositions
     | Inr m \<Rightarrow> \<forall>names. (fst (sequenceMatch m names) \<longrightarrow> names \<in> cmLang t) \<and>
         (\<not> overBudget m names \<and> names \<in> cmLang t \<longrightarrow> fst (sequenceMatch m names)))"
proof -
  obtain p G where p: "parseModel s = Inr (p, G)" "denotes G p t" using spelt_model [OF assms(1,2)] by blast
  show ?thesis
  proof (intro exI conjI, rule p(1), cases "NewSequenceMatcher G p")
    case (Inl e)
    then show "case NewSequenceMatcher G p of Inl e \<Rightarrow> e = TooManyPositions
      | Inr m \<Rightarrow> \<forall>names. (fst (sequenceMatch m names) \<longrightarrow> names \<in> cmLang t) \<and>
         (\<not> overBudget m names \<and> names \<in> cmLang t \<longrightarrow> fst (sequenceMatch m names))"
      using parsed_compile_error [OF p(1)] by simp
  next
    case (Inr m)
    show "case NewSequenceMatcher G p of Inl e \<Rightarrow> e = TooManyPositions
      | Inr m \<Rightarrow> \<forall>names. (fst (sequenceMatch m names) \<longrightarrow> names \<in> cmLang t) \<and>
         (\<not> overBudget m names \<and> names \<in> cmLang t \<longrightarrow> fst (sequenceMatch m names))"
      unfolding Inr sum.case using denoted_match [OF p assms(3) Inr] by blast
  qed
qed

definition exampleCm :: cm where
  "exampleCm = CGroup False [CName ''a'' Once, CGroup True [CName ''b'' Once, CName ''c'' Plus] Star] Opt"

lemma exampleCm_spelt: "spells exampleCm ''(a, (b |c+)* )?''"
proof -
  have "spells (CName ''b'' Once) ([] @ ''b'' @ quantStr Once)" by (rule sName) (simp_all add: nameEnd_def isSpace_def)
  moreover have "spells (CName ''c'' Plus) ([] @ ''c'' @ quantStr Plus)" by (rule sName) (simp_all add: nameEnd_def isSpace_def)
  then have "spellsMembers True [CName ''c'' Plus] (([] @ ''c'' @ quantStr Plus) @ [])" by (rule mOne) simp
  ultimately have "spellsMembers True [CName ''b'' Once, CName ''c'' Plus] (''b'' @ '' '' @ sepChar True # ''c+'')"
    using mMore [of "CName ''b'' Once" "''b''" "'' ''" True "[CName ''c'' Plus]" "''c+''"] by (simp add: isSpace_def)
  then have "spells (CGroup True [CName ''b'' Once, CName ''c'' Plus] Star)
      ('' '' @ CHR ''('' # (''b'' @ '' '' @ sepChar True # ''c+'') @ CHR '')'' # quantStr Star)"
    by (intro sGroup) (simp_all add: isSpace_def)
  then have "spellsMembers False [CGroup True [CName ''b'' Once, CName ''c'' Plus] Star] ('' (b |c+)*'' @ '' '')"
    by (intro mOne) (simp_all add: sepChar_def isSpace_def)
  moreover have "spells (CName ''a'' Once) ([] @ ''a'' @ quantStr Once)" by (rule sName) (simp_all add: nameEnd_def isSpace_def)
  ultimately have "spellsMembers False [CName ''a'' Once, CGroup True [CName ''b'' Once, CName ''c'' Plus] Star]
      (''a'' @ [] @ sepChar False # '' (b |c+)* '')"
    using mMore [of "CName ''a'' Once" "''a''" "[]" False] by simp
  then have "spells exampleCm ([] @ CHR ''('' # (''a'' @ [] @ sepChar False # '' (b |c+)* '') @ CHR '')'' # quantStr Opt)"
    unfolding exampleCm_def by (intro sGroup) simp_all
  then show ?thesis by (simp add: sepChar_def)
qed

theorem dtd_model_decides_witness:
  "map (QName [] []) [''a'', ''b'', ''c'', ''c''] \<in> cmLang exampleCm \<and> map (QName [] []) [''b''] \<notin> cmLang exampleCm"
proof -
  let ?s = "''  (a, (b |c+)* )?''"
  have "TrimSpace ?s = ''(a, (b |c+)* )?''" by code_simp
  then have sp: "spells exampleCm (TrimSpace ?s)" using exampleCm_spelt by simp
  have dp: "cmDepth exampleCm \<le> maxModelDepth" "singly exampleCm"
    by (simp_all add: exampleCm_def maxModelDepth_def)
  define good where "good = (\<lambda>(p, G). case NewSequenceMatcher G p of Inl _ \<Rightarrow> False | Inr m \<Rightarrow>
      fst (sequenceMatch m (map (QName [] []) [''a'', ''b'', ''c'', ''c''])) \<and>
      \<not> fst (sequenceMatch m (map (QName [] []) [''b''])) \<and> \<not> overBudget m (map (QName [] []) [''b'']))"
  have e: "(case parseModel ?s of Inl _ \<Rightarrow> False | Inr r \<Rightarrow> good r) = True" unfolding good_def by code_simp
  obtain p G where p: "parseModel ?s = Inr (p, G)"
    and d: "case NewSequenceMatcher G p of
       Inl e \<Rightarrow> e = TooManyPositions
     | Inr m \<Rightarrow> \<forall>names. (fst (sequenceMatch m names) \<longrightarrow> names \<in> cmLang exampleCm) \<and>
         (\<not> overBudget m names \<and> names \<in> cmLang exampleCm \<longrightarrow> fst (sequenceMatch m names))"
    using dtd_model_decides [OF sp dp] by blast
  have "good (p, G)" using e unfolding p by simp
  then show ?thesis using d unfolding good_def by (cases "NewSequenceMatcher G p") auto
qed

text \<open>C34: A group of one member is that member, and a quantifier outside the parentheses replaces the member's own: whatever quantifier \<open>q'\<close> the name carries, \<open>(n q') q\<close> is compiled as \<open>n q\<close>. So \<open>(n?)+\<close>, which admits the empty content by the specification, is compiled to a model that refuses it, and \<open>(n+)?\<close> to one that refuses two of them.\<close>

theorem quantified_group_of_one:
  assumes "spells (CGroup alt [CName n q'] q) (TrimSpace s)" "q \<noteq> Once"
  shows "\<exists>p G. parseModel s = Inr (p, G) \<and> {w. partLang G p w} = quantLang q {[QName [] [] n]} \<and>
    (q' = Opt \<and> q = Plus \<longrightarrow> [] \<in> cmLang (CGroup alt [CName n q'] q) \<and> \<not> partLang G p []) \<and>
    (q' = Plus \<and> q = Opt \<longrightarrow> replicate 2 (QName [] [] n) \<in> cmLang (CGroup alt [CName n q'] q) \<and> \<not> partLang G p (replicate 2 (QName [] [] n)))"
proof -
  obtain p G where p: "parseModel s = Inr (p, G)" "denotes G p (CGroup alt [CName n q'] q)"
    using spelt_model [OF assms(1)] by (auto simp: maxModelDepth_def)
  have "p = withQuant q (withQuant q' (dtdElem n))"
    using p(2) by (auto elim!: denotes.cases)
  also have "\<dots> = withQuant q (dtdElem n)" using assms(2) by (cases q; cases q') (simp_all add: dtdElem_def)
  finally have "denotes G p (CName n q)" using denotes.dName by simp
  then have l: "{w. partLang G p w} = quantLang q {[QName [] [] n]}" using denotes_lang by fastforce
  have x: "[] \<notin> plusLang {[a]}" for a :: qname
  proof
    assume "[] \<in> plusLang {[a]}"
    then obtain ws where "concat ws = []" "ws \<noteq> []" "\<forall>w \<in> set ws. w = [a]" by (auto simp: plusLang_def)
    then show False by (cases ws) auto
  qed
  have y: "[] \<in> plusLang (insert [] A)" "replicate 2 a \<in> plusLang {[a]}" for a :: qname and A
    by (auto simp: plusLang_def numeral_2_eq_2 intro: exI [of _ "[[]]"] exI [of _ "[[a], [a]]"])
  show ?thesis
  proof (intro exI conjI impI, rule p(1), rule l, goal_cases)
    case 1
    then show ?case using y(1) by (simp add: concatLang_unit)
  next
    case 2
    then show ?case using l x by auto
  next
    case 3
    then show ?case using y(2) by (simp add: concatLang_unit)
  next
    case 4
    then show ?case using l by (auto simp: numeral_2_eq_2)
  qed
qed

theorem quantified_group_of_one_witness:
  "\<exists>p G. parseModel ''(a?)+'' = Inr (p, G) \<and> \<not> partLang G p []"
proof -
  have "spells (CName ''a'' Opt) ([] @ ''a'' @ quantStr Opt)" by (rule sName) (simp_all add: nameEnd_def isSpace_def)
  then have "spellsMembers False [CName ''a'' Opt] (([] @ ''a'' @ quantStr Opt) @ [])" by (rule mOne) simp
  then have "spells (CGroup False [CName ''a'' Opt] Plus) ([] @ CHR ''('' # (([] @ ''a'' @ quantStr Opt) @ []) @ CHR '')'' # quantStr Plus)"
    by (intro sGroup) simp_all
  moreover have "TrimSpace ''(a?)+'' = ''(a?)+''" by code_simp
  ultimately have "spells (CGroup False [CName ''a'' Opt] Plus) (TrimSpace ''(a?)+'')" by simp
  from quantified_group_of_one [OF this] show ?thesis by auto
qed

end
