(* ===== verification/DtdValidate.thy ===== *)
theory DtdValidate
  imports DtdDecl DtdFacts RngSem
begin

text \<open>
  Validation of a document against its DTD (\<open>dtd/validate.go\<close>): a walk of the tree that checks
  content models and attributes, collects identifiers and references, and resolves the references at the end.
  An error is the path of the element and what was wrong; the wording of messages is left out. The cache of
  compiled models, the identifiers and references seen and the declarations already reported on are the
  state.
\<close>

subsection \<open>State\<close>

datatype vmsg =
    NotDeclared
  | NotEmpty
  | NotInMixed string
  | CharacterData
  | BadModel compileError
  | NotPermitted string
  | Incomplete
  | MissingRequired string
  | FixedMismatch string string
  | InvalidDefault string
  | NotInEnum string string
  | UnknownNotation string string
  | EmptyEntities string
  | NoEntity string string
  | DuplicateID string
  | UnknownType string string
  | NoSuchID string

record dtdEnv =
  envDtd :: dtd
  envMax :: int
  allowUndec :: bool
  partialDtd :: bool

record dtdState =
  errs :: "(string list \<times> vmsg) list"
  matchers :: "string \<Rightarrow> contentModel option"
  ids :: "string list"
  idrefs :: "(string \<times> string list) list"
  notationsChecked :: "string list"

definition DefaultMaxErrors :: int where "DefaultMaxErrors = 100"

definition addError :: "dtdEnv \<Rightarrow> string list \<Rightarrow> vmsg \<Rightarrow> dtdState \<Rightarrow> dtdState" where
  "addError env path msg v =
     (if envMax env > 0 \<and> int (length (errs v)) \<ge> envMax env then v else v\<lparr>errs := errs v @ [(path, msg)]\<rparr>)"

definition failIf :: "bool \<Rightarrow> dtdEnv \<Rightarrow> string list \<Rightarrow> vmsg \<Rightarrow> dtdState \<Rightarrow> dtdState" where
  "failIf b env path msg v = (if b then addError env path msg v else v)"

definition memberOf :: "string list option \<Rightarrow> string \<Rightarrow> bool" where
  "memberOf names n = (case names of None \<Rightarrow> False | Some ns \<Rightarrow> n \<in> set ns)"

subsection \<open>Content\<close>

definition isElementNode :: "unit node \<Rightarrow> bool" where
  "isElementNode k = (case k of ElemN _ _ _ _ \<Rightarrow> True | _ \<Rightarrow> False)"

definition elemLocal :: "unit node \<Rightarrow> string" where
  "elemLocal k = (case k of ElemN n _ _ _ \<Rightarrow> qlocal n | _ \<Rightarrow> [])"

definition solidText :: "unit node \<Rightarrow> bool" where
  "solidText k = (case k of TextN s \<Rightarrow> TrimSpace s \<noteq> [] | _ \<Rightarrow> False)"

definition childNames :: "unit node list \<Rightarrow> qname list" where
  "childNames kids = map (\<lambda>k. QName [] [] (elemLocal k)) (filter isElementNode kids)"

definition matcherFor :: "elementModel \<Rightarrow> dtdState \<Rightarrow> compileError + contentModel \<times> dtdState" where
  "matcherFor decl v =
     (case matchers v (elName decl) of
        Some m \<Rightarrow> Inr (m, v)
      | None \<Rightarrow>
          bindE (NewSequenceMatcher (snd (elParticle decl)) (fst (elParticle decl))) (\<lambda>m.
            Inr (m, v\<lparr>matchers := (matchers v)(elName decl \<mapsto> m)\<rparr>)))"

definition checkModel :: "dtdEnv \<Rightarrow> string list \<Rightarrow> elementModel \<Rightarrow> unit node list \<Rightarrow> dtdState \<Rightarrow> dtdState" where
  "checkModel env path decl kids v =
     (case matcherFor decl v of
        Inl e \<Rightarrow> addError env path (BadModel e) v
      | Inr (m, v) \<Rightarrow>
          let names = childNames kids in
          case sequenceMatch m names of (ok, at) \<Rightarrow>
            if ok then v
            else if at < length names then addError env path (NotPermitted (qlocal (names ! at))) v
            else addError env path Incomplete v)"

definition checkContent :: "dtdEnv \<Rightarrow> string list \<Rightarrow> string \<Rightarrow> unit node list \<Rightarrow> dtdState \<Rightarrow> dtdState" where
  "checkContent env path name kids v =
     (case Elements (envDtd env) name of
        None \<Rightarrow> failIf (\<not> allowUndec env) env path NotDeclared v
      | Some decl \<Rightarrow>
          (case elKind decl of
             ContentAny \<Rightarrow> v
           | ContentEmpty \<Rightarrow> failIf (\<exists>k \<in> set kids. isElementNode k \<or> solidText k) env path NotEmpty v
           | ContentMixed \<Rightarrow>
               foldl (\<lambda>v k. failIf (isElementNode k \<and> elemLocal k \<notin> set (elMixed decl)) env path (NotInMixed (elemLocal k)) v) v kids
           | ContentChildren \<Rightarrow>
               checkModel env path decl kids (failIf (\<exists>k \<in> set kids. solidText k) env path CharacterData v)))"

subsection \<open>Attributes\<close>

text \<open>The attributes of no namespace; of two of one name the later is kept.\<close>

definition presentAttrs :: "(qname \<times> string) list \<Rightarrow> string \<Rightarrow> string option" where
  "presentAttrs atts =
     foldl (\<lambda>p (n, v). if quri n \<noteq> [] \<or> hasPrefix ''xmlns'' (qlocal n) then p else p(qlocal n \<mapsto> v)) (\<lambda>_. None) atts"

text \<open>\<open>strings.Fields\<close>: cut at the white space of Unicode.\<close>

fun wordsOf :: "string \<Rightarrow> nat \<Rightarrow> string \<Rightarrow> string list" where
  "wordsOf acc 0 s = []"
| "wordsOf acc (Suc fuel) s =
     (if s = [] then (if acc = [] then [] else [acc])
      else if leading spaceRunes s > 0 then
        (if acc = [] then [] else [acc]) @ wordsOf [] fuel (drop (leading spaceRunes s) s)
      else wordsOf (acc @ [hd s]) fuel (tl s))"

definition Fields :: "string \<Rightarrow> string list" where
  "Fields s = wordsOf [] (Suc (length s)) s"

definition notationKey :: "attribute \<Rightarrow> string" where
  "notationKey a = atElement a @ '' '' @ atName a"

definition checkNotationDecl :: "dtdEnv \<Rightarrow> string list \<Rightarrow> attribute \<Rightarrow> dtdState \<Rightarrow> dtdState" where
  "checkNotationDecl env path a v =
     (if partialDtd env \<or> notationKey a \<in> set (notationsChecked v) then v
      else
        foldl (\<lambda>v n. failIf (\<not> memberOf (Notations (envDtd env)) n) env path (UnknownNotation (atName a) n) v)
          (v\<lparr>notationsChecked := notationKey a # notationsChecked v\<rparr>) (atEnum a))"

definition checkEntityValue :: "dtdEnv \<Rightarrow> string list \<Rightarrow> string \<Rightarrow> string \<Rightarrow> dtdState \<Rightarrow> dtdState" where
  "checkEntityValue env path attr name v =
     failIf (\<not> partialDtd env \<and> \<not> memberOf (Unparsed (envDtd env)) name) env path (NoEntity attr name) v"

definition checkType :: "dtdEnv \<Rightarrow> string list \<Rightarrow> attribute \<Rightarrow> string \<Rightarrow> dtdState \<Rightarrow> dtdState" where
  "checkType env path a val v =
     (if atType a = ''NOTATION'' then checkNotationDecl env path a v
      else if atType a = ''ENTITY'' then checkEntityValue env path (atName a) val v
      else if atType a = ''ENTITIES'' then
        foldl (\<lambda>v n. checkEntityValue env path (atName a) n v)
          (failIf (Fields val = []) env path (EmptyEntities (atName a)) v) (Fields val)
      else if atType a = ''ID'' then
        (let v = failIf (val \<in> set (ids v)) env path (DuplicateID val) v in v\<lparr>ids := val # ids v\<rparr>)
      else if atType a = ''IDREF'' then v\<lparr>idrefs := idrefs v @ [(val, path)]\<rparr>
      else if atType a = ''IDREFS'' then v\<lparr>idrefs := idrefs v @ map (\<lambda>r. (r, path)) (Fields val)\<rparr>
      else failIf (atType a \<notin> {''CDATA'', ''NMTOKEN'', ''NMTOKENS'', ''ENUMERATION''}) env path (UnknownType (atName a) (atType a)) v)"

definition checkDefault :: "dtdEnv \<Rightarrow> string list \<Rightarrow> attribute \<Rightarrow> string option \<Rightarrow> dtdState \<Rightarrow> dtdState" where
  "checkDefault env path a val v =
     (case atDefault a of
        AttrRequired \<Rightarrow> failIf (val = None) env path (MissingRequired (atName a)) v
      | AttrFixed \<Rightarrow> failIf (val \<noteq> None \<and> val \<noteq> Some (atValue a)) env path (FixedMismatch (atName a) (atValue a)) v
      | AttrInvalid \<Rightarrow> addError env path (InvalidDefault (atName a)) v
      | _ \<Rightarrow> v)"

definition checkAttr :: "dtdEnv \<Rightarrow> string list \<Rightarrow> (string \<Rightarrow> string option) \<Rightarrow> dtdState \<Rightarrow> attribute \<Rightarrow> dtdState" where
  "checkAttr env path present v a =
     (let v = checkDefault env path a (present (atName a)) v in
      case present (atName a) of
        None \<Rightarrow> v
      | Some val \<Rightarrow>
          checkType env path a val
            (failIf (atEnum a \<noteq> [] \<and> val \<notin> set (atEnum a)) env path (NotInEnum (atName a) val) v))"

definition checkAttributes :: "dtdEnv \<Rightarrow> string list \<Rightarrow> string \<Rightarrow> (qname \<times> string) list \<Rightarrow> dtdState \<Rightarrow> dtdState" where
  "checkAttributes env path name atts v =
     foldl (checkAttr env path (presentAttrs atts)) v (Attributes (envDtd env) name)"

subsection \<open>The walk\<close>

fun walk :: "dtdEnv \<Rightarrow> string list \<Rightarrow> dtdState \<Rightarrow> unit node \<Rightarrow> dtdState"
and walkKids :: "dtdEnv \<Rightarrow> string list \<Rightarrow> dtdState \<Rightarrow> unit node list \<Rightarrow> dtdState" where
  "walk env path v (ElemN n c atts kids) =
     (let path = path @ [qlocal n] in
      walkKids env path (checkAttributes env path (qlocal n) atts (checkContent env path (qlocal n) kids v)) kids)"
| "walk env path v _ = v"
| "walkKids env path v [] = v"
| "walkKids env path v (k # ks) = walkKids env path (walk env path v k) ks"

definition checkIDRefs :: "dtdEnv \<Rightarrow> dtdState \<Rightarrow> dtdState" where
  "checkIDRefs env v =
     foldl (\<lambda>v (val, path). failIf (val \<notin> set (ids v)) env path (NoSuchID val) v) v (idrefs v)"

text \<open>\<open>doc\<close> holds the children of the document. Where none is an element, the walk starts at the
  document itself, whose name is empty.\<close>

definition Validate :: "unit node list \<Rightarrow> dtd option \<Rightarrow> int \<Rightarrow> bool \<Rightarrow> (string list \<times> vmsg) list" where
  "Validate doc d maxErrors allow =
     (case d of
        None \<Rightarrow> []
      | Some d \<Rightarrow>
          let env = \<lparr>envDtd = d, envMax = (if maxErrors = 0 then DefaultMaxErrors else maxErrors), allowUndec = allow,
                     partialDtd = (HasExternalSubset d \<and> ExternalSubset d = [] \<or> Notations d = None \<and> Unparsed d = None)\<rparr>;
              v = \<lparr>errs = [], matchers = (\<lambda>_. None), ids = [], idrefs = [], notationsChecked = []\<rparr>;
              root = (case find isElementNode doc of Some r \<Rightarrow> r | None \<Rightarrow> ElemN (QName [] [] []) () [] doc) in
          errs (checkIDRefs env (walk env [] v root)))"

end
