(* ===== verification/DtdValid.thy ===== *)
theory DtdValid
  imports DtdValidate
begin

text \<open>
  What it is to be valid against a DTD, stated over the tree without the walk's state, and that the
  validator decides it.
\<close>

subsection \<open>Validity\<close>

definition modelAdmits :: "elementModel \<Rightarrow> qname list \<Rightarrow> bool" where
  "modelAdmits decl names \<longleftrightarrow>
     (\<exists>m. NewSequenceMatcher (snd (elParticle decl)) (fst (elParticle decl)) = Inr m \<and> fst (sequenceMatch m names))"

definition contentValid :: "dtdEnv \<Rightarrow> string \<Rightarrow> unit node list \<Rightarrow> bool" where
  "contentValid env name kids \<longleftrightarrow>
     (case Elements (envDtd env) name of
        None \<Rightarrow> allowUndec env
      | Some decl \<Rightarrow>
          (case elKind decl of
             ContentAny \<Rightarrow> True
           | ContentEmpty \<Rightarrow> \<forall>k \<in> set kids. \<not> isElementNode k \<and> \<not> solidText k
           | ContentMixed \<Rightarrow> \<forall>k \<in> set kids. isElementNode k \<longrightarrow> elemLocal k \<in> set (elMixed decl)
           | ContentChildren \<Rightarrow> (\<forall>k \<in> set kids. \<not> solidText k) \<and> modelAdmits decl (childNames kids)))"

definition namesUnparsed :: "dtdEnv \<Rightarrow> string \<Rightarrow> bool" where
  "namesUnparsed env n \<longleftrightarrow> partialDtd env \<or> memberOf (Unparsed (envDtd env)) n"

definition notationsDeclared :: "dtdEnv \<Rightarrow> attribute \<Rightarrow> bool" where
  "notationsDeclared env a \<longleftrightarrow> partialDtd env \<or> (\<forall>n \<in> set (atEnum a). memberOf (Notations (envDtd env)) n)"

definition typeValid :: "dtdEnv \<Rightarrow> attribute \<Rightarrow> string \<Rightarrow> bool" where
  "typeValid env a val \<longleftrightarrow>
     atType a \<in> {''ID'', ''IDREF'', ''IDREFS'', ''CDATA'', ''NMTOKEN'', ''NMTOKENS'', ''ENUMERATION''} \<or>
     atType a = ''NOTATION'' \<and> notationsDeclared env a \<or>
     atType a = ''ENTITY'' \<and> namesUnparsed env val \<or>
     atType a = ''ENTITIES'' \<and> Fields val \<noteq> [] \<and> (\<forall>n \<in> set (Fields val). namesUnparsed env n)"

definition attrValid :: "dtdEnv \<Rightarrow> attribute \<Rightarrow> string option \<Rightarrow> bool" where
  "attrValid env a val \<longleftrightarrow>
     atDefault a \<noteq> AttrInvalid \<and> (atDefault a = AttrRequired \<longrightarrow> val \<noteq> None) \<and>
     (\<forall>s. val = Some s \<longrightarrow>
        (atDefault a = AttrFixed \<longrightarrow> s = atValue a) \<and> (atEnum a = [] \<or> s \<in> set (atEnum a)) \<and> typeValid env a s)"

text \<open>The identifiers an element declares and the references it makes, in the order of its attributes.\<close>

definition attrIds :: "attribute \<Rightarrow> string option \<Rightarrow> string list" where
  "attrIds a val = (case val of Some s \<Rightarrow> if atType a = ''ID'' then [s] else [] | None \<Rightarrow> [])"

definition attrRefs :: "attribute \<Rightarrow> string option \<Rightarrow> string list" where
  "attrRefs a val =
     (case val of
        Some s \<Rightarrow> if atType a = ''IDREF'' then [s] else if atType a = ''IDREFS'' then Fields s else []
      | None \<Rightarrow> [])"

definition perAttr :: "dtdEnv \<Rightarrow> string \<Rightarrow> (qname \<times> string) list \<Rightarrow> (attribute \<Rightarrow> string option \<Rightarrow> string list) \<Rightarrow> string list" where
  "perAttr env name atts f = concat (map (\<lambda>a. f a (presentAttrs atts (atName a))) (Attributes (envDtd env) name))"

fun nodeValid :: "dtdEnv \<Rightarrow> unit node \<Rightarrow> bool" where
  "nodeValid env (ElemN n c atts kids) \<longleftrightarrow>
     contentValid env (qlocal n) kids \<and>
     (\<forall>a \<in> set (Attributes (envDtd env) (qlocal n)). attrValid env a (presentAttrs atts (atName a))) \<and>
     (\<forall>k \<in> set kids. nodeValid env k)"
| "nodeValid env _ \<longleftrightarrow> True"

fun nodeAttrs :: "dtdEnv \<Rightarrow> (attribute \<Rightarrow> string option \<Rightarrow> string list) \<Rightarrow> unit node \<Rightarrow> string list" where
  "nodeAttrs env f (ElemN n c atts kids) = perAttr env (qlocal n) atts f @ concat (map (nodeAttrs env f) kids)"
| "nodeAttrs env f _ = []"

definition dtdValid :: "dtdEnv \<Rightarrow> unit node \<Rightarrow> bool" where
  "dtdValid env root \<longleftrightarrow>
     nodeValid env root \<and> distinct (nodeAttrs env attrIds root) \<and>
     set (nodeAttrs env attrRefs root) \<subseteq> set (nodeAttrs env attrIds root)"

subsection \<open>Steps of the validator\<close>

text \<open>Declarations filed under the name they declare, one attribute of each name, and no space in an
  element's name.\<close>

definition wfDtd :: "dtd \<Rightarrow> bool" where
  "wfDtd d \<longleftrightarrow>
     (\<forall>n decl. Elements d n = Some decl \<longrightarrow> elName decl = n) \<and>
     (\<forall>n. distinct (map atName (Attributes d n)) \<and> (\<forall>a \<in> set (Attributes d n). atElement a = n \<and> CHR '' '' \<notin> set n))"

definition keyOf :: "dtdEnv \<Rightarrow> string \<Rightarrow> bool" where
  "keyOf env key \<longleftrightarrow> (\<forall>e. \<forall>a \<in> set (Attributes (envDtd env) e). notationKey a = key \<longrightarrow> notationsDeclared env a)"

definition stateOK :: "dtdEnv \<Rightarrow> dtdState \<Rightarrow> bool" where
  "stateOK env v \<longleftrightarrow>
     (\<forall>n m. matchers v n = Some m \<longrightarrow>
        (\<exists>decl. Elements (envDtd env) n = Some decl \<and>
           NewSequenceMatcher (snd (elParticle decl)) (fst (elParticle decl)) = Inr m)) \<and>
     (errs v = [] \<longrightarrow> (\<forall>key \<in> set (notationsChecked v). keyOf env key)) \<and>
     (envMax env > 0 \<longrightarrow> int (length (errs v)) \<le> envMax env)"

text \<open>A step keeps the state sound, reports nothing exactly when \<open>P\<close> holds and the identifiers
  \<open>I\<close> are new, and records \<open>I\<close> and the references \<open>R\<close>.\<close>

definition stepOK :: "dtdEnv \<Rightarrow> (dtdState \<Rightarrow> dtdState) \<Rightarrow> bool \<Rightarrow> string list \<Rightarrow> string list \<Rightarrow> bool" where
  "stepOK env f P I R \<longleftrightarrow>
     (\<forall>v. stateOK env v \<longrightarrow>
        stateOK env (f v) \<and>
        (errs (f v) = [] \<longleftrightarrow> errs v = [] \<and> P \<and> distinct I \<and> set I \<inter> set (ids v) = {}) \<and>
        set (ids (f v)) = set I \<union> set (ids v) \<and> map fst (idrefs (f v)) = map fst (idrefs v) @ R)"

named_theorems steps \<open>what the steps of the validator report and record\<close>

lemma step_id [steps]: "stepOK env (\<lambda>v. v) True [] []"
  by (simp add: stepOK_def)

lemma step_comp:
  assumes "stepOK env f P I R" "stepOK env g Q J S"
  shows "stepOK env (\<lambda>v. g (f v)) (P \<and> Q) (I @ J) (R @ S)"
proof -
  have "stateOK env (g (f v)) \<and>
      (errs (g (f v)) = [] \<longleftrightarrow> errs v = [] \<and> (P \<and> Q) \<and> distinct (I @ J) \<and> set (I @ J) \<inter> set (ids v) = {}) \<and>
      set (ids (g (f v))) = set (I @ J) \<union> set (ids v) \<and> map fst (idrefs (g (f v))) = map fst (idrefs v) @ (R @ S)"
    if v: "stateOK env v" for v
  proof -
    have f: "stateOK env (f v)" "errs (f v) = [] \<longleftrightarrow> errs v = [] \<and> P \<and> distinct I \<and> set I \<inter> set (ids v) = {}"
      "set (ids (f v)) = set I \<union> set (ids v)" "map fst (idrefs (f v)) = map fst (idrefs v) @ R"
      using assms(1) v unfolding stepOK_def by blast+
    have g: "stateOK env (g (f v))" "errs (g (f v)) = [] \<longleftrightarrow> errs (f v) = [] \<and> Q \<and> distinct J \<and> set J \<inter> set (ids (f v)) = {}"
      "set (ids (g (f v))) = set J \<union> set (ids (f v))" "map fst (idrefs (g (f v))) = map fst (idrefs (f v)) @ S"
      using assms(2) f(1) unfolding stepOK_def by blast+
    have "set J \<inter> (set I \<union> set (ids v)) = {} \<longleftrightarrow> set J \<inter> set (ids v) = {} \<and> set I \<inter> set J = {}" by blast
    moreover have "set (I @ J) \<inter> set (ids v) = {} \<longleftrightarrow> set I \<inter> set (ids v) = {} \<and> set J \<inter> set (ids v) = {}" by auto
    moreover have "set (ids (g (f v))) = set (I @ J) \<union> set (ids v)" unfolding g(3) f(3) by auto
    ultimately show ?thesis using f(2,4) g(1,2,4) unfolding g(2) f(2,3) by auto
  qed
  then show ?thesis by (simp add: stepOK_def)
qed

lemma step_fold:
  "(\<And>x. x \<in> set xs \<Longrightarrow> stepOK env (\<lambda>v. f v x) (P x) (I x) (R x)) \<Longrightarrow>
     stepOK env (\<lambda>v. foldl f v xs) (\<forall>x \<in> set xs. P x) (concat (map I xs)) (concat (map R xs))"
proof (induction xs)
  case (Cons x xs)
  then have "stepOK env (\<lambda>v. foldl f (f v x) xs) (P x \<and> (\<forall>x \<in> set xs. P x)) (I x @ concat (map I xs)) (R x @ concat (map R xs))"
    using step_comp [of env "\<lambda>v. f v x" "P x" "I x" "R x"] by simp
  then show ?case by simp
qed (simp add: steps)

lemma step_addError [steps]: "stepOK env (addError env path msg) False [] []"
  unfolding stepOK_def stateOK_def addError_def by (auto simp: Ball_def)

lemma step_failIf [steps]: "stepOK env (failIf b env path msg) (\<not> b) [] []"
  using step_addError [of env path msg] step_id [of env] by (cases b) (simp_all add: failIf_def [abs_def])

lemma stepOK_cong: "stepOK env f P I R \<Longrightarrow> P = Q \<Longrightarrow> stepOK env f Q I R"
  by simp

lemma concat_empties [simp]: "concat (map (\<lambda>_. []) xs) = []"
  by (induction xs) auto

subsection \<open>Content\<close>

lemma step_checkModel:
  assumes wf: "wfDtd (envDtd env)" and decl: "Elements (envDtd env) name = Some decl"
  shows "stepOK env (checkModel env path decl kids) (modelAdmits decl (childNames kids)) [] []"
proof -
  have n: "elName decl = name" using wf decl by (simp add: wfDtd_def)
  let ?new = "NewSequenceMatcher (snd (elParticle decl)) (fst (elParticle decl))"
  have "stateOK env (checkModel env path decl kids v) \<and>
      (errs (checkModel env path decl kids v) = [] \<longleftrightarrow> errs v = [] \<and> modelAdmits decl (childNames kids)) \<and>
      ids (checkModel env path decl kids v) = ids v \<and> idrefs (checkModel env path decl kids v) = idrefs v"
    if v: "stateOK env v" for v
  proof -
    have added: "stateOK env (addError env path msg w) \<and> errs (addError env path msg w) \<noteq> [] \<and>
        ids (addError env path msg w) = ids w \<and> idrefs (addError env path msg w) = idrefs w" if "stateOK env w" for msg w
      using step_addError [of env path msg] that unfolding stepOK_def by (auto simp: addError_def)
    show ?thesis
    proof (cases "matcherFor decl v")
      case (Inl e)
      then have "?new = Inl e" by (auto simp: matcherFor_def n bindE_Inl_iff split: option.splits)
      then have "\<not> modelAdmits decl (childNames kids)" by (simp add: modelAdmits_def)
      then show ?thesis using added [OF v] Inl by (simp add: checkModel_def)
    next
      case (Inr r)
      obtain m w where r: "r = (m, w)" by (cases r)
      have cached: "?new = Inr m'" if "matchers v name = Some m'" for m'
        using v that decl unfolding stateOK_def by fastforce
      have new: "?new = Inr m"
        using Inr cached unfolding r by (auto simp: matcherFor_def n bindE_Inr_iff split: option.splits)
      have wv: "w = v \<or> w = v\<lparr>matchers := (matchers v)(name \<mapsto> m)\<rparr>"
        using Inr unfolding r by (auto simp: matcherFor_def n bindE_Inr_iff split: option.splits)
      have "stateOK env (v\<lparr>matchers := (matchers v)(name \<mapsto> m)\<rparr>)"
        using v decl new unfolding stateOK_def by (simp add: fun_upd_def)
      then have w: "stateOK env w" "errs w = errs v" "ids w = ids v" "idrefs w = idrefs v"
        using wv v by auto
      have ad: "modelAdmits decl (childNames kids) \<longleftrightarrow> fst (sequenceMatch m (childNames kids))" using new by (simp add: modelAdmits_def)
      obtain ok at where sm: "sequenceMatch m (childNames kids) = (ok, at)" by (cases "sequenceMatch m (childNames kids)")
      show ?thesis using Inr r sm ad w added [OF w(1)] by (auto simp: checkModel_def Let_def)
    qed
  qed
  then show ?thesis by (auto simp: stepOK_def)
qed

lemma step_checkContent [steps]:
  assumes wf: "wfDtd (envDtd env)"
  shows "stepOK env (checkContent env path name kids) (contentValid env name kids) [] []"
proof (cases "Elements (envDtd env) name")
  case None
  then show ?thesis using step_failIf [of env "\<not> allowUndec env"] by (simp add: checkContent_def [abs_def] contentValid_def)
next
  case (Some decl)
  show ?thesis
  proof (cases "elKind decl")
    case ContentEmpty
    then show ?thesis using step_failIf [of env "\<exists>k \<in> set kids. isElementNode k \<or> solidText k"] Some
      by (simp add: checkContent_def [abs_def] contentValid_def)
  next
    case ContentAny
    then show ?thesis using step_id Some by (simp add: checkContent_def [abs_def] contentValid_def)
  next
    case ContentMixed
    have "stepOK env (\<lambda>v. foldl (\<lambda>v k. failIf (isElementNode k \<and> elemLocal k \<notin> set (elMixed decl)) env path (NotInMixed (elemLocal k)) v) v kids)
        (\<forall>k \<in> set kids. \<not> (isElementNode k \<and> elemLocal k \<notin> set (elMixed decl))) (concat (map (\<lambda>_. []) kids)) (concat (map (\<lambda>_. []) kids))"
      by (rule step_fold) (rule steps)
    then show ?thesis using ContentMixed Some by (simp add: checkContent_def [abs_def] contentValid_def)
  next
    case ContentChildren
    then show ?thesis using step_comp [OF step_failIf [where b = "\<exists>k \<in> set kids. solidText k"] step_checkModel [OF wf Some]] Some
      by (simp add: checkContent_def [abs_def] contentValid_def)
  qed
qed

subsection \<open>Attributes\<close>

lemma key_split:
  assumes "CHR '' '' \<notin> set a" "CHR '' '' \<notin> set b" "a @ '' '' @ x = b @ '' '' @ y"
  shows "a = b \<and> x = y"
  using assms by (induction a arbitrary: b) (auto simp: Cons_eq_append_conv)

lemma keyOf_one:
  assumes wf: "wfDtd (envDtd env)" and a: "a \<in> set (Attributes (envDtd env) e)"
  shows "keyOf env (notationKey a) \<longleftrightarrow> notationsDeclared env a"
proof -
  have "b = a" if b: "b \<in> set (Attributes (envDtd env) f)" "notationKey b = notationKey a" for b f
  proof -
    have sp: "atElement a = e" "CHR '' '' \<notin> set e" "atElement b = f" "CHR '' '' \<notin> set f" "distinct (map atName (Attributes (envDtd env) e))"
      using wf a b(1) unfolding wfDtd_def by blast+
    have "f = e \<and> atName b = atName a"
      using key_split [OF sp(4,2), of "atName b" "atName a"] b(2) sp by (simp add: notationKey_def)
    then show ?thesis using sp(5) a b(1) by (auto simp: distinct_map dest: inj_onD)
  qed
  then show ?thesis using a unfolding keyOf_def by blast
qed

lemma foldFail_same:
  "notationsChecked (foldl (\<lambda>v n. failIf (b n) env path (g n) v) w ns) = notationsChecked w \<and>
   ids (foldl (\<lambda>v n. failIf (b n) env path (g n) v) w ns) = ids w \<and>
   idrefs (foldl (\<lambda>v n. failIf (b n) env path (g n) v) w ns) = idrefs w \<and>
   matchers (foldl (\<lambda>v n. failIf (b n) env path (g n) v) w ns) = matchers w"
  by (induction ns arbitrary: w) (simp_all add: failIf_def addError_def)

lemma foldFail_errs:
  "errs w = errs w' \<Longrightarrow>
     errs (foldl (\<lambda>v n. failIf (b n) env path (g n) v) w ns) = errs (foldl (\<lambda>v n. failIf (b n) env path (g n) v) w' ns)"
proof (induction ns arbitrary: w w')
  case (Cons n ns)
  have "errs (failIf (b n) env path (g n) w) = errs (failIf (b n) env path (g n) w')"
    using Cons.prems by (simp add: failIf_def addError_def)
  from Cons.IH [OF this] show ?case by (simp only: foldl_Cons)
qed simp

lemma step_checkNotationDecl:
  assumes wf: "wfDtd (envDtd env)" and a: "a \<in> set (Attributes (envDtd env) e)"
  shows "stepOK env (checkNotationDecl env path a) (notationsDeclared env a) [] []"
proof (cases "partialDtd env")
  case True
  then show ?thesis using step_id by (simp add: checkNotationDecl_def [abs_def] notationsDeclared_def)
next
  case False
  let ?report = "\<lambda>v. foldl (\<lambda>v n. failIf (\<not> memberOf (Notations (envDtd env)) n) env path (UnknownNotation (atName a) n) v) v (atEnum a)"
  let ?all = "\<forall>n \<in> set (atEnum a). memberOf (Notations (envDtd env)) n"
  have nd: "notationsDeclared env a \<longleftrightarrow> ?all" using False by (simp add: notationsDeclared_def)
  have rep: "stepOK env ?report (\<forall>n \<in> set (atEnum a). \<not> \<not> memberOf (Notations (envDtd env)) n)
      (concat (map (\<lambda>_. []) (atEnum a))) (concat (map (\<lambda>_. []) (atEnum a)))"
    by (rule step_fold) (rule steps)
  have "stateOK env (checkNotationDecl env path a v) \<and>
      (errs (checkNotationDecl env path a v) = [] \<longleftrightarrow> errs v = [] \<and> notationsDeclared env a) \<and>
      ids (checkNotationDecl env path a v) = ids v \<and> idrefs (checkNotationDecl env path a v) = idrefs v"
    if v: "stateOK env v" for v
  proof (cases "notationKey a \<in> set (notationsChecked v)")
    case True
    then have "errs v = [] \<longrightarrow> notationsDeclared env a" using v keyOf_one [OF wf a] unfolding stateOK_def by blast
    then show ?thesis using True v False by (auto simp: checkNotationDecl_def)
  next
    case new: False
    let ?v = "v\<lparr>notationsChecked := notationKey a # notationsChecked v\<rparr>"
    have same: "notationsChecked (?report w) = notationsChecked w \<and> ids (?report w) = ids w \<and> idrefs (?report w) = idrefs w
        \<and> matchers (?report w) = matchers w" for w by (rule foldFail_same)
    have eq: "checkNotationDecl env path a v = ?report ?v" using False new by (simp add: checkNotationDecl_def)
    have er: "errs (?report ?v) = errs (?report v)" by (rule foldFail_errs) simp
    have rv: "stateOK env (?report v)" "errs (?report v) = [] \<longleftrightarrow> errs v = [] \<and> ?all"
      using rep v unfolding stepOK_def by auto
    have "stateOK env (?report ?v)"
      unfolding stateOK_def er
    proof (intro conjI)
      show "\<forall>n m. matchers (?report ?v) n = Some m \<longrightarrow> (\<exists>decl. Elements (envDtd env) n = Some decl \<and>
          NewSequenceMatcher (snd (elParticle decl)) (fst (elParticle decl)) = Inr m)"
        using v same [of ?v] unfolding stateOK_def by simp
      show "errs (?report v) = [] \<longrightarrow> (\<forall>key \<in> set (notationsChecked (?report ?v)). keyOf env key)"
        unfolding conjunct1 [OF same [of ?v]] using v rv(2) nd keyOf_one [OF wf a] unfolding stateOK_def by auto
      show "0 < envMax env \<longrightarrow> int (length (errs (?report v))) \<le> envMax env"
        using rv(1) unfolding stateOK_def by blast
    qed
    then show ?thesis unfolding eq nd using same [of ?v] rv(2) er by simp
  qed
  then show ?thesis by (auto simp: stepOK_def)
qed

lemma step_checkEntityValue [steps]: "stepOK env (checkEntityValue env path attr n) (namesUnparsed env n) [] []"
  using step_failIf [of env "\<not> partialDtd env \<and> \<not> memberOf (Unparsed (envDtd env)) n"]
  by (simp add: checkEntityValue_def [abs_def] namesUnparsed_def)

lemma step_refs: "stepOK env (\<lambda>v. v\<lparr>idrefs := idrefs v @ map (\<lambda>r. (r, path)) rs\<rparr>) True [] rs"
  by (auto simp: stepOK_def stateOK_def comp_def)

lemma step_newId:
  "stepOK env (\<lambda>v. (failIf (val \<in> set (ids v)) env path msg v)\<lparr>ids := val # ids (failIf (val \<in> set (ids v)) env path msg v)\<rparr>)
     True [val] []"
proof -
  have "stateOK env (failIf b env path msg v) \<and> (errs (failIf b env path msg v) = [] \<longleftrightarrow> errs v = [] \<and> \<not> b) \<and>
      ids (failIf b env path msg v) = ids v \<and> idrefs (failIf b env path msg v) = idrefs v" if "stateOK env v" for b v
    using step_failIf [of env b path msg] that unfolding stepOK_def by (auto simp: failIf_def addError_def)
  note f = this
  have "stateOK env (w\<lparr>ids := i\<rparr>) = stateOK env w" for w i by (simp add: stateOK_def)
  then show ?thesis unfolding stepOK_def using f by simp
qed

lemma step_checkType:
  assumes wf: "wfDtd (envDtd env)" and a: "a \<in> set (Attributes (envDtd env) e)"
  shows "stepOK env (checkType env path a val) (typeValid env a val) (attrIds a (Some val)) (attrRefs a (Some val))"
proof -
  consider "atType a = ''NOTATION''" | "atType a = ''ENTITY''" | "atType a = ''ENTITIES''" | "atType a = ''ID''"
    | "atType a = ''IDREF''" | "atType a = ''IDREFS''"
    | (other) "atType a \<noteq> ''NOTATION''" "atType a \<noteq> ''ENTITY''" "atType a \<noteq> ''ENTITIES''" "atType a \<noteq> ''ID''"
      "atType a \<noteq> ''IDREF''" "atType a \<noteq> ''IDREFS''" by argo
  then show ?thesis
  proof cases
    case 1
    then show ?thesis using step_checkNotationDecl [OF wf a, of path]
      by (simp add: checkType_def [abs_def] typeValid_def attrIds_def attrRefs_def)
  next
    case 2
    then show ?thesis using step_checkEntityValue [of env path "atName a" val]
      by (simp add: checkType_def [abs_def] typeValid_def attrIds_def attrRefs_def)
  next
    case 3
    have "stepOK env (\<lambda>v. foldl (\<lambda>v n. checkEntityValue env path (atName a) n v) v (Fields val))
        (\<forall>n \<in> set (Fields val). namesUnparsed env n) (concat (map (\<lambda>_. []) (Fields val))) (concat (map (\<lambda>_. []) (Fields val)))"
      by (rule step_fold) (rule steps)
    from step_comp [OF step_failIf [where b = "Fields val = []" and path = path and msg = "EmptyEntities (atName a)"] this] 3
    show ?thesis by (simp add: checkType_def [abs_def] typeValid_def attrIds_def attrRefs_def)
  next
    case 4
    then show ?thesis using step_newId [of env val path "DuplicateID val"]
      by (simp add: checkType_def [abs_def] typeValid_def attrIds_def attrRefs_def Let_def)
  next
    case 5
    then show ?thesis using step_refs [of env path "[val]"]
      by (simp add: checkType_def [abs_def] typeValid_def attrIds_def attrRefs_def)
  next
    case 6
    then show ?thesis using step_refs [of env path "Fields val"]
      by (simp add: checkType_def [abs_def] typeValid_def attrIds_def attrRefs_def)
  next
    case other
    then show ?thesis
      using step_failIf [of env "atType a \<notin> {''CDATA'', ''NMTOKEN'', ''NMTOKENS'', ''ENUMERATION''}" path "UnknownType (atName a) (atType a)"]
      by (auto simp: checkType_def [abs_def] typeValid_def attrIds_def attrRefs_def elim!: stepOK_cong)
  qed
qed

lemma step_checkDefault:
  "stepOK env (checkDefault env path a val)
     (atDefault a \<noteq> AttrInvalid \<and> (atDefault a = AttrRequired \<longrightarrow> val \<noteq> None) \<and> (atDefault a = AttrFixed \<longrightarrow> val = None \<or> val = Some (atValue a))) [] []"
proof (cases "atDefault a")
  case AttrRequired
  then show ?thesis using step_failIf [of env "val = None"] by (simp add: checkDefault_def [abs_def])
next
  case AttrFixed
  then show ?thesis using step_failIf [of env "val \<noteq> None \<and> val \<noteq> Some (atValue a)"]
    by (auto simp: checkDefault_def [abs_def] elim!: stepOK_cong)
next
  case AttrInvalid
  then show ?thesis using step_addError [of env] by (simp add: checkDefault_def [abs_def])
qed (use step_id in \<open>simp_all add: checkDefault_def [abs_def]\<close>)

lemma step_checkAttr:
  assumes wf: "wfDtd (envDtd env)" and a: "a \<in> set (Attributes (envDtd env) e)"
  shows "stepOK env (\<lambda>v. checkAttr env path present v a) (attrValid env a (present (atName a)))
    (attrIds a (present (atName a))) (attrRefs a (present (atName a)))"
proof (cases "present (atName a)")
  case None
  then show ?thesis using step_checkDefault [of env path a None]
    by (simp add: checkAttr_def [abs_def] attrIds_def attrRefs_def attrValid_def Let_def)
next
  case (Some val)
  have s: "stepOK env (\<lambda>v. checkType env path a val (failIf (atEnum a \<noteq> [] \<and> val \<notin> set (atEnum a)) env path (NotInEnum (atName a) val)
        (checkDefault env path a (Some val) v)))
      (((atDefault a \<noteq> AttrInvalid \<and> (atDefault a = AttrRequired \<longrightarrow> Some val \<noteq> None) \<and>
         (atDefault a = AttrFixed \<longrightarrow> Some val = None \<or> Some val = Some (atValue a))) \<and> \<not> (atEnum a \<noteq> [] \<and> val \<notin> set (atEnum a))) \<and>
        typeValid env a val) (([] @ []) @ attrIds a (Some val)) (([] @ []) @ attrRefs a (Some val))"
    using step_comp [OF step_comp [OF step_checkDefault [of env path a "Some val"] step_failIf] step_checkType [OF wf a, of path val]] .
  show ?thesis
    using s unfolding Some attrValid_def
    by (auto simp: checkAttr_def [abs_def] Let_def Some elim!: stepOK_cong)
qed

lemma step_checkAttributes [steps]:
  assumes wf: "wfDtd (envDtd env)"
  shows "stepOK env (checkAttributes env path name atts)
    (\<forall>a \<in> set (Attributes (envDtd env) name). attrValid env a (presentAttrs atts (atName a)))
    (perAttr env name atts attrIds) (perAttr env name atts attrRefs)"
  unfolding checkAttributes_def [abs_def] perAttr_def by (rule step_fold) (rule step_checkAttr [OF wf])

subsection \<open>The walk\<close>

lemma step_walkKids:
  "(\<And>k. k \<in> set ks \<Longrightarrow> stepOK env (\<lambda>v. walk env path v k) (nodeValid env k) (nodeAttrs env attrIds k) (nodeAttrs env attrRefs k)) \<Longrightarrow>
   stepOK env (\<lambda>v. walkKids env path v ks) (\<forall>k \<in> set ks. nodeValid env k)
      (concat (map (nodeAttrs env attrIds) ks)) (concat (map (nodeAttrs env attrRefs) ks))"
proof (induction ks)
  case (Cons k ks)
  then show ?case
    using step_comp [of env "\<lambda>v. walk env path v k" "nodeValid env k" "nodeAttrs env attrIds k" "nodeAttrs env attrRefs k"
        "\<lambda>v. walkKids env path v ks"] by simp
qed (simp add: step_id)

lemma step_walk:
  assumes wf: "wfDtd (envDtd env)"
  shows "stepOK env (\<lambda>v. walk env path v k) (nodeValid env k) (nodeAttrs env attrIds k) (nodeAttrs env attrRefs k)"
proof (induction k arbitrary: path)
  case (ElemN n c atts kids)
  let ?p = "path @ [qlocal n]"
  have "stepOK env (\<lambda>v. walkKids env ?p v kids) (\<forall>k \<in> set kids. nodeValid env k)
      (concat (map (nodeAttrs env attrIds) kids)) (concat (map (nodeAttrs env attrRefs) kids))"
    by (rule step_walkKids) (rule ElemN.IH)
  from step_comp [OF step_comp [OF step_checkContent [OF wf, of ?p "qlocal n" kids] step_checkAttributes [OF wf, of ?p "qlocal n" atts]] this]
  show ?case by (simp add: Let_def conj_assoc)
qed (simp_all add: step_id)

lemma step_checkIDRefs:
  "stateOK env v \<Longrightarrow> stateOK env (checkIDRefs env v) \<and>
     (errs (checkIDRefs env v) = [] \<longleftrightarrow> errs v = [] \<and> fst ` set (idrefs v) \<subseteq> set (ids v))"
proof -
  assume v: "stateOK env v"
  have f: "stateOK env w \<Longrightarrow> ids w = ids v \<Longrightarrow>
      stateOK env (foldl (\<lambda>v (val, path). failIf (val \<notin> set (ids v)) env path (NoSuchID val) v) w rs) \<and>
      (errs (foldl (\<lambda>v (val, path). failIf (val \<notin> set (ids v)) env path (NoSuchID val) v) w rs) = [] \<longleftrightarrow>
         errs w = [] \<and> fst ` set rs \<subseteq> set (ids v))" for w rs
  proof (induction rs arbitrary: w)
    case (Cons r rs)
    obtain val path where r: "r = (val, path)" by (cases r)
    let ?w = "failIf (val \<notin> set (ids w)) env path (NoSuchID val) w"
    have sf: "stateOK env ?w" "errs ?w = [] \<longleftrightarrow> errs w = [] \<and> \<not> val \<notin> set (ids w)"
      using step_failIf [of env "val \<notin> set (ids w)" path "NoSuchID val"] Cons.prems(1) unfolding stepOK_def by simp_all
    have i: "ids ?w = ids v" using Cons.prems(2) by (simp add: failIf_def addError_def)
    show ?case using Cons.IH [OF sf(1) i] sf(2) Cons.prems(2) by (simp add: r conj_assoc)
  qed simp
  show ?thesis unfolding checkIDRefs_def using f [OF v refl] .
qed

lemma Validate_run:
  assumes wf: "wfDtd (envDtd env)"
    and st: "stateOK env v" "errs v = []" "ids v = []" "idrefs v = []"
  shows "stateOK env (checkIDRefs env (walk env [] v root)) \<and> (errs (checkIDRefs env (walk env [] v root)) = [] \<longleftrightarrow> dtdValid env root)"
proof -
  have w: "stateOK env (walk env [] v root)"
    "errs (walk env [] v root) = [] \<longleftrightarrow> nodeValid env root \<and> distinct (nodeAttrs env attrIds root)"
    "set (ids (walk env [] v root)) = set (nodeAttrs env attrIds root)"
    "map fst (idrefs (walk env [] v root)) = nodeAttrs env attrRefs root"
    using step_walk [OF wf, of "[]" root] st unfolding stepOK_def by auto
  have "fst ` set (idrefs (walk env [] v root)) = set (nodeAttrs env attrRefs root)"
    using w(4) by (metis list.set_map)
  then show ?thesis using step_checkIDRefs [OF w(1)] w(2,3) by (simp add: dtdValid_def conj_assoc)
qed

definition dtdEnvOf :: "dtd \<Rightarrow> int \<Rightarrow> bool \<Rightarrow> dtdEnv" where
  "dtdEnvOf d maxErrors allow =
     \<lparr>envDtd = d, envMax = (if maxErrors = 0 then DefaultMaxErrors else maxErrors), allowUndec = allow,
      partialDtd = (HasExternalSubset d \<and> ExternalSubset d = [] \<or> Notations d = None \<and> Unparsed d = None)\<rparr>"

definition rootOf :: "unit node list \<Rightarrow> unit node" where
  "rootOf doc = (case find isElementNode doc of Some r \<Rightarrow> r | None \<Rightarrow> ElemN (QName [] [] []) () [] doc)"

lemma Validate_iff:
  assumes "wfDtd d"
  shows "Validate doc (Some d) maxErrors allow = [] \<longleftrightarrow> dtdValid (dtdEnvOf d maxErrors allow) (rootOf doc)"
    and "0 \<le> maxErrors \<Longrightarrow>
      int (length (Validate doc (Some d) maxErrors allow)) \<le> (if maxErrors = 0 then DefaultMaxErrors else maxErrors)"
proof -
  let ?env = "dtdEnvOf d maxErrors allow"
  let ?v = "\<lparr>errs = [], matchers = (\<lambda>_. None), ids = [], idrefs = [], notationsChecked = []\<rparr>"
  have wf: "wfDtd (envDtd ?env)" using assms by (simp add: dtdEnvOf_def)
  have st: "stateOK ?env ?v" by (simp add: stateOK_def)
  have V: "Validate doc (Some d) maxErrors allow = errs (checkIDRefs ?env (walk ?env [] ?v (rootOf doc)))"
    by (simp add: Validate_def dtdEnvOf_def rootOf_def Let_def)
  have run: "stateOK ?env (checkIDRefs ?env (walk ?env [] ?v (rootOf doc))) \<and>
      (errs (checkIDRefs ?env (walk ?env [] ?v (rootOf doc))) = [] \<longleftrightarrow> dtdValid ?env (rootOf doc))"
    by (rule Validate_run [OF wf st]) simp_all
  show "Validate doc (Some d) maxErrors allow = [] \<longleftrightarrow> dtdValid ?env (rootOf doc)" unfolding V using run by blast
  have bound: "envMax ?env > 0 \<Longrightarrow> int (length (Validate doc (Some d) maxErrors allow)) \<le> envMax ?env"
    unfolding V using run unfolding stateOK_def by blast
  assume "0 \<le> maxErrors"
  then have m: "envMax ?env > 0" "envMax ?env = (if maxErrors = 0 then DefaultMaxErrors else maxErrors)"
    by (simp_all add: dtdEnvOf_def DefaultMaxErrors_def)
  show "int (length (Validate doc (Some d) maxErrors allow)) \<le> (if maxErrors = 0 then DefaultMaxErrors else maxErrors)"
    using bound [OF m(1)] unfolding m(2) .
qed

end
