(* ===== verification/DtdMain.thy ===== *)
theory DtdMain
  imports DtdValid
begin

text \<open>
  The properties of the DTD subsystem as a whole: what reading declarations keeps, that attribute
  declarations are read back as they were written, that the validator decides validity, and what a valid
  document then satisfies.
\<close>

subsection \<open>Reading declarations\<close>

definition filed :: "dtd \<Rightarrow> bool" where
  "filed d \<longleftrightarrow>
     (\<forall>n decl. Elements d n = Some decl \<longrightarrow> elName decl = n) \<and>
     (\<forall>n. distinct (map atName (Attributes d n)) \<and> (\<forall>a \<in> set (Attributes d n). atElement a = n))"

text \<open>Nothing that is declared is changed: an element keeps its declaration, and an attribute list only
  grows at its end.\<close>

definition extends :: "dtd \<Rightarrow> dtd \<Rightarrow> bool" where
  "extends d d' \<longleftrightarrow>
     (\<forall>n decl. Elements d n = Some decl \<longrightarrow> Elements d' n = Some decl) \<and>
     (\<forall>n. \<exists>as. Attributes d' n = Attributes d n @ as)"

lemma extends_refl: "extends d d"
  by (simp add: extends_def)

lemma extends_trans: "extends a b \<Longrightarrow> extends b c \<Longrightarrow> extends a c"
  unfolding extends_def by (metis append.assoc)

lemma attrDeclared_iff: "attrDeclared as n \<longleftrightarrow> n \<in> atName ` set as"
  by (auto simp: attrDeclared_def list_ex_iff)

lemma addAttribute_keeps: "filed d \<Longrightarrow> filed (addAttribute d a) \<and> extends d (addAttribute d a)"
  by (auto simp: addAttribute_def attrDeclared_iff filed_def extends_def)

lemma addAttributes_keep: "filed d \<Longrightarrow> filed (foldl addAttribute d as) \<and> extends d (foldl addAttribute d as)"
proof (induction as arbitrary: d)
  case (Cons a as)
  then show ?case using addAttribute_keeps [of d a] extends_trans by (metis foldl_Cons)
qed (simp add: extends_refl)

lemma addDecl_keeps:
  assumes f: "filed d" and r: "addDecl d decl = Inr d'"
  shows "filed d' \<and> extends d d'"
proof -
  have same: "filed d \<and> extends d d" using f extends_refl by blast
  have el: "filed (d\<lparr>Elements := (Elements d)(elName e \<mapsto> e)\<rparr>) \<and> extends d (d\<lparr>Elements := (Elements d)(elName e \<mapsto> e)\<rparr>)"
    if "Elements d (elName e) = None" for e
    using f that by (auto simp: filed_def extends_def)
  have nt: "filed (d\<lparr>Notations := x\<rparr>) \<and> extends d (d\<lparr>Notations := x\<rparr>)" "filed (d\<lparr>Unparsed := x\<rparr>) \<and> extends d (d\<lparr>Unparsed := x\<rparr>)" for x
    using f by (simp_all add: filed_def extends_def)
  show ?thesis
  proof (cases "hasPrefix ''ELEMENT'' decl")
    case True
    then obtain e where e: "(case e of None \<Rightarrow> Inr d | Some el \<Rightarrow>
        Inr (if Elements d (elName el) = None then d\<lparr>Elements := (Elements d)(elName el \<mapsto> el)\<rparr> else d)) = (Inr d' :: modelError + dtd)"
      using r True unfolding addDecl_def by (cases "parseElement (drop 7 decl)") auto
    show ?thesis
    proof (cases e)
      case None
      then show ?thesis using e same by simp
    next
      case (Some el')
      then show ?thesis using e same el by (auto split: if_splits)
    qed
  next
    case False
    then show ?thesis using r same nt addAttributes_keep [OF f]
      by (auto simp: addDecl_def Let_def split: if_splits)
  qed
qed

lemma addDecls_keep: "filed d \<Longrightarrow> addDecls d decls = Inr d' \<Longrightarrow> filed d' \<and> extends d d'"
proof (induction decls arbitrary: d)
  case (Cons decl decls)
  then obtain e where "addDecl d decl = Inr e" "addDecls e decls = Inr d'" by (auto simp: bindE_Inr_iff)
  then show ?case using Cons addDecl_keeps extends_trans by blast
qed (simp add: extends_refl)

lemma Parse_filed: "Parse s = Inr (Some d) \<Longrightarrow> filed d"
proof -
  assume "Parse s = Inr (Some d)"
  then obtain b ss where "declarationsInto (newDTD\<lparr>HasExternalSubset := b\<rparr>) ss = Inr d"
    by (auto simp: Parse_def Let_def map_sum_def split: if_splits prod.splits sum.splits)
  moreover have "filed (newDTD\<lparr>HasExternalSubset := b\<rparr>)" by (simp add: filed_def newDTD_def)
  ultimately show ?thesis using addDecls_keep unfolding declarationsInto_def by blast
qed

lemma Parse_wfDtd: "Parse s = Inr (Some d) \<Longrightarrow> (\<And>n. Attributes d n \<noteq> [] \<Longrightarrow> CHR '' '' \<notin> set n) \<Longrightarrow> wfDtd d"
proof -
  assume p: "Parse s = Inr (Some d)" and sp: "\<And>n. Attributes d n \<noteq> [] \<Longrightarrow> CHR '' '' \<notin> set n"
  have "CHR '' '' \<notin> set n" if "a \<in> set (Attributes d n)" for a n
    by (rule sp) (use that in auto)
  then show "wfDtd d" using Parse_filed [OF p] unfolding wfDtd_def filed_def by blast
qed

text \<open>The first declaration of a name binds. Reading further declarations into a DTD, whatever they are, changes no element that is declared and no attribute: an element keeps its content model, and an attribute list only gains attributes of new names at its end. Elements stay filed under the name they declare and attributes under their element, with no two of one name; so reading the internal subset before the external one gives it the precedence of XML 1.0, section 2.8.\<close>

theorem declarations_first_bind:
  assumes "filed d" "declarationsInto d sset = Inr d'"
  shows "filed d' \<and> (\<forall>n decl. Elements d n = Some decl \<longrightarrow> Elements d' n = Some decl) \<and>
    (\<forall>n. \<exists>as. Attributes d' n = Attributes d n @ as \<and> (\<forall>a \<in> set as. atName a \<notin> atName ` set (Attributes d n)))"
proof -
  have k: "filed d'" "extends d d'" using addDecls_keep [OF assms(1)] assms(2) unfolding declarationsInto_def by blast+
  have "\<exists>as. Attributes d' n = Attributes d n @ as \<and> (\<forall>a \<in> set as. atName a \<notin> atName ` set (Attributes d n))" for n
  proof -
    obtain as where as: "Attributes d' n = Attributes d n @ as" using k(2) unfolding extends_def by blast
    have "distinct (map atName (Attributes d n @ as))" using k(1) as unfolding filed_def by metis
    then show ?thesis using as by auto
  qed
  then show ?thesis using k by (auto simp: extends_def)
qed

subsection \<open>Attribute declarations\<close>

text \<open>How an attribute list is written.\<close>

fun joinBy :: "char \<Rightarrow> string list \<Rightarrow> string" where
  "joinBy c [] = []"
| "joinBy c [v] = v"
| "joinBy c (v # w # vs) = v @ c # joinBy c (w # vs)"

definition enumText :: "string list \<Rightarrow> string" where
  "enumText vs = CHR ''('' # joinBy (CHR ''|'') vs @ '')''"

definition quoted :: "string \<Rightarrow> string" where
  "quoted v = CHR 0x22 # v @ [CHR 0x22]"

definition attTokens :: "attribute \<Rightarrow> string list" where
  "attTokens a =
     [atName a] @
     (if atType a = ''ENUMERATION'' then [enumText (atEnum a)]
      else if atType a = ''NOTATION'' then [''NOTATION'', enumText (atEnum a)]
      else [atType a]) @
     (case atDefault a of
        AttrRequired \<Rightarrow> [''#REQUIRED'']
      | AttrImplied \<Rightarrow> [''#IMPLIED'']
      | AttrFixed \<Rightarrow> [''#FIXED'', quoted (atValue a)]
      | AttrDefaulted \<Rightarrow> [quoted (atValue a)]
      | AttrInvalid \<Rightarrow> [atValue a])"

definition attListText :: "string \<Rightarrow> attribute list \<Rightarrow> string" where
  "attListText element as = joinBy (CHR '' '') (element # concat (map attTokens as))"

definition bareToken :: "string \<Rightarrow> bool" where
  "bareToken s \<longleftrightarrow> s \<noteq> [] \<and> (\<forall>c \<in> set s. \<not> isSpace c) \<and> hd s \<notin> {CHR 0x22, CHR 0x27, CHR ''(''}"

definition enumValue :: "string \<Rightarrow> bool" where
  "enumValue v \<longleftrightarrow> v \<noteq> [] \<and> TrimSpace v = v \<and> CHR ''|'' \<notin> set v \<and> CHR '')'' \<notin> set v"

definition goodAttr :: "string \<Rightarrow> attribute \<Rightarrow> bool" where
  "goodAttr element a \<longleftrightarrow>
     atElement a = element \<and> bareToken (atName a) \<and> bareToken (atType a) \<and>
     (if atType a \<in> {''ENUMERATION'', ''NOTATION''} then atEnum a \<noteq> [] \<and> (\<forall>v \<in> set (atEnum a). enumValue v) else atEnum a = []) \<and>
     (case atDefault a of
        AttrRequired \<Rightarrow> atValue a = []
      | AttrImplied \<Rightarrow> atValue a = []
      | AttrFixed \<Rightarrow> CHR 0x22 \<notin> set (atValue a)
      | AttrDefaulted \<Rightarrow> CHR 0x22 \<notin> set (atValue a)
      | AttrInvalid \<Rightarrow> bareToken (atValue a) \<and> hd (atValue a) = CHR ''#'' \<and>
          atValue a \<notin> {''#REQUIRED'', ''#IMPLIED'', ''#FIXED''})"

text \<open>A token the splitter takes whole, whatever follows it.\<close>

definition wholeToken :: "string \<Rightarrow> bool" where
  "wholeToken t \<longleftrightarrow> attFields t = [t] \<and> (\<forall>rest. attFields (t @ CHR '' '' # rest) = t # attFields rest)"

lemma wholeToken_bare: "bareToken t \<Longrightarrow> wholeToken t"
proof -
  assume b: "bareToken t"
  then obtain c s where t: "t = c # s" "\<not> isSpace c" "\<forall>x \<in> set s. \<not> isSpace x" "c \<noteq> CHR 0x22" "c \<noteq> CHR 0x27" "c \<noteq> CHR ''(''"
    by (cases t) (auto simp: bareToken_def)
  have tw: "takeWhile (\<lambda>x. \<not> isSpace x) (s @ r) = s @ takeWhile (\<lambda>x. \<not> isSpace x) r"
    "dropWhile (\<lambda>x. \<not> isSpace x) (s @ r) = dropWhile (\<lambda>x. \<not> isSpace x) r" for r
    using t(3) by (induction s) auto
  have sp: "isSpace (CHR '' '')" by (simp add: isSpace_def)
  have all: "takeWhile (\<lambda>x. \<not> isSpace x) s = s" "dropWhile (\<lambda>x. \<not> isSpace x) s = []" using t(3) by (simp_all add: dropWhile_eq_Nil_conv)
  show ?thesis using t(2,4-6) sp by (simp add: wholeToken_def t(1) tw all)
qed

lemma cutByte_found: "c \<notin> set a \<Longrightarrow> cutByte c (a @ c # b) = Some (a, b)"
  by (induction a) (auto simp: cutByte_def)

lemma wholeToken_quoted: "CHR 0x22 \<notin> set v \<Longrightarrow> wholeToken (quoted v)"
proof -
  assume v: "CHR 0x22 \<notin> set v"
  have "\<not> isSpace (CHR 0x22)" "isSpace (CHR '' '')" by (simp_all add: isSpace_def)
  then show ?thesis using cutByte_found [OF v] by (simp add: wholeToken_def quoted_def)
qed

lemma joinBy_set: "set (joinBy c vs) \<subseteq> insert c (\<Union> (set (map set vs)))"
  by (induction c vs rule: joinBy.induct) auto

lemma wholeToken_enum: "\<forall>v \<in> set vs. enumValue v \<Longrightarrow> wholeToken (enumText vs)"
proof -
  assume v: "\<forall>v \<in> set vs. enumValue v"
  have "CHR '')'' \<notin> set (joinBy (CHR ''|'') vs)"
    using joinBy_set [of "CHR ''|''" vs] v by (auto simp: enumValue_def)
  moreover have "\<not> isSpace (CHR ''('')" "isSpace (CHR '' '')" by (simp_all add: isSpace_def)
  ultimately show ?thesis using cutByte_found [of "CHR '')''" "joinBy (CHR ''|'') vs"]
    by (simp add: wholeToken_def enumText_def)
qed

lemma attFields_join: "\<forall>t \<in> set ts. wholeToken t \<Longrightarrow> attFields (joinBy (CHR '' '') ts) = ts"
  by (induction "CHR '' ''" ts rule: joinBy.induct) (auto simp: wholeToken_def)

lemma attTokens_whole: "goodAttr e a \<Longrightarrow> t \<in> set (attTokens a) \<Longrightarrow> wholeToken t"
proof -
  have "bareToken ''NOTATION''" "bareToken ''#REQUIRED''" "bareToken ''#IMPLIED''" "bareToken ''#FIXED''"
    by (simp_all add: bareToken_def isSpace_def)
  then show "goodAttr e a \<Longrightarrow> t \<in> set (attTokens a) \<Longrightarrow> wholeToken t"
    using wholeToken_bare wholeToken_quoted wholeToken_enum
    by (auto simp: goodAttr_def attTokens_def split: if_splits attrDefault.splits)
qed

lemma splitOn_join: "vs \<noteq> [] \<Longrightarrow> \<forall>v \<in> set vs. c \<notin> set v \<Longrightarrow> splitOn c (joinBy c vs) = vs"
proof (induction c vs rule: joinBy.induct)
  case (2 c v)
  then show ?case by (induction v) auto
next
  case (3 c v w vs)
  have s: "splitOn c (v @ c # r) = v # splitOn c r" if "splitOn c r \<noteq> []" for r
    using "3.prems"(2) that by (induction v) (auto split: list.splits)
  have "splitOn c (joinBy c (w # vs)) = w # vs" using 3 by simp
  then show ?case using s [of "joinBy c (w # vs)"] by simp
qed simp

lemma enumValues_text: "vs \<noteq> [] \<Longrightarrow> \<forall>v \<in> set vs. enumValue v \<Longrightarrow> enumValues (enumText vs) = vs"
proof -
  assume v: "vs \<noteq> []" "\<forall>v \<in> set vs. enumValue v"
  have "map TrimSpace vs = vs" using v(2) by (intro map_idI) (simp add: enumValue_def)
  moreover have "splitOn (CHR ''|'') (joinBy (CHR ''|'') vs) = vs" using v by (intro splitOn_join) (auto simp: enumValue_def)
  moreover have "filter (\<lambda>v. v \<noteq> []) vs = vs" using v(2) by (intro filter_True) (simp add: enumValue_def)
  ultimately show ?thesis by (simp add: enumValues_def enumText_def butlast_append hasPrefix_def Let_def)
qed

lemma unquote_quoted: "unquote (quoted v) = v"
  by (simp add: unquote_def quoted_def butlast_append)

lemma attLoop_tokens:
  assumes g: "goodAttr e a"
  shows "attLoop e (attTokens a @ rest) = a # attLoop e rest"
proof -
  have nq: "hasPrefix ''#'' (quoted v) = False" "quoted v \<noteq> ''#REQUIRED''" "quoted v \<noteq> ''#IMPLIED''" "quoted v \<noteq> ''#FIXED''" for v
    by (simp_all add: quoted_def hasPrefix_def)
  have par: "hasPrefix ''('' (enumText vs)" for vs by (simp add: enumText_def hasPrefix_def)
  have enumNot: "enumText vs \<noteq> ''NOTATION''" for vs by (simp add: enumText_def)
  have bare: "hasPrefix ''('' t = False" if "bareToken t" for t
    using that by (cases t) (auto simp: bareToken_def hasPrefix_def)
  define ds where "ds = (case atDefault a of AttrRequired \<Rightarrow> [''#REQUIRED''] | AttrImplied \<Rightarrow> [''#IMPLIED'']
      | AttrFixed \<Rightarrow> [''#FIXED'', quoted (atValue a)] | AttrDefaulted \<Rightarrow> [quoted (atValue a)] | AttrInvalid \<Rightarrow> [atValue a])"
  let ?b = "a\<lparr>atDefault := AttrImplied, atValue := []\<rparr>"
  have dflt: "\<exists>d ds'. ds = d # ds' \<and> attDefault ?b d (ds' @ rest) = (a, rest)"
  proof (cases "atDefault a")
    case AttrInvalid
    then have "hasPrefix ''#'' (atValue a)" using g by (cases "atValue a") (auto simp: goodAttr_def hasPrefix_def bareToken_def)
    then show ?thesis using AttrInvalid g by (auto simp: ds_def attDefault_def goodAttr_def)
  qed (use g in \<open>auto simp: ds_def attDefault_def goodAttr_def nq unquote_quoted\<close>)
  then obtain d ds' where d: "ds = d # ds'" "attDefault ?b d (ds' @ rest) = (a, rest)" by blast
  have el: "atElement a = e" using g by (simp add: goodAttr_def)
  consider "atType a = ''ENUMERATION''" | "atType a = ''NOTATION''" | "atType a \<noteq> ''ENUMERATION''" "atType a \<noteq> ''NOTATION''" by argo
  then show ?thesis
  proof cases
    case 1
    then have ev: "enumValues (enumText (atEnum a)) = atEnum a" using g enumValues_text by (simp add: goodAttr_def)
    have "attType e (atName a) (enumText (atEnum a)) (ds @ rest) = (?b, ds @ rest)"
      using 1 el by (simp add: attType_def enumNot par ev)
    moreover have "attTokens a = [atName a, enumText (atEnum a)] @ ds" using 1 by (simp add: attTokens_def ds_def)
    ultimately show ?thesis using d by simp
  next
    case 2
    then have ev: "enumValues (enumText (atEnum a)) = atEnum a" using g enumValues_text by (simp add: goodAttr_def)
    have "attType e (atName a) ''NOTATION'' (enumText (atEnum a) # ds @ rest) = (?b, ds @ rest)"
      using 2 el by (simp add: attType_def par ev)
    moreover have "attTokens a = [atName a, ''NOTATION'', enumText (atEnum a)] @ ds" using 2 by (simp add: attTokens_def ds_def)
    ultimately show ?thesis using d by simp
  next
    case 3
    have "attType e (atName a) (atType a) (ds @ rest) = (?b, ds @ rest)"
      using 3 el g bare by (simp add: attType_def goodAttr_def)
    moreover have "attTokens a = [atName a, atType a] @ ds" using 3 by (simp add: attTokens_def ds_def)
    ultimately show ?thesis using d by simp
  qed
qed

lemma attLoop_all: "\<forall>a \<in> set as. goodAttr e a \<Longrightarrow> attLoop e (concat (map attTokens as)) = as"
proof (induction as)
  case (Cons a as)
  then show ?case using attLoop_tokens [of e a "concat (map attTokens as)"] by simp
qed simp

text \<open>C32: An attribute list is read back as it was written: for any element and any attributes of it, with every type (enumerations and notations with their values, or a type token) and every default (required, implied, fixed, defaulted, and the unrecognised ones that are kept for the validator to report), the declaration printed from them is parsed to exactly these attributes, in order.\<close>

theorem attlist_roundtrip:
  assumes "bareToken element" "as \<noteq> []" "\<forall>a \<in> set as. goodAttr element a"
  shows "parseAttList (attListText element as) = as"
proof -
  have "\<forall>t \<in> set (element # concat (map attTokens as)). wholeToken t"
    using assms wholeToken_bare attTokens_whole by fastforce
  then have "attFields (attListText element as) = element # concat (map attTokens as)"
    unfolding attListText_def by (rule attFields_join)
  moreover have "concat (map attTokens as) \<noteq> []" using assms(2) by (cases as) (simp_all add: attTokens_def)
  ultimately show ?thesis using attLoop_all [OF assms(3)]
    by (cases "concat (map attTokens as)") (simp_all add: parseAttList_def)
qed

theorem attlist_roundtrip_witness:
  "parseAttList ''item kind (a|b c) #REQUIRED id ID #IMPLIED'' =
     [\<lparr>atElement = ''item'', atName = ''kind'', atType = ''ENUMERATION'', atEnum = [''a'', ''b c''], atDefault = AttrRequired, atValue = []\<rparr>,
      \<lparr>atElement = ''item'', atName = ''id'', atType = ''ID'', atEnum = [], atDefault = AttrImplied, atValue = []\<rparr>]"
proof -
  let ?as = "[\<lparr>atElement = ''item'', atName = ''kind'', atType = ''ENUMERATION'', atEnum = [''a'', ''b c''], atDefault = AttrRequired, atValue = []\<rparr>,
      \<lparr>atElement = ''item'', atName = ''id'', atType = ''ID'', atEnum = [], atDefault = AttrImplied, atValue = []\<rparr>]"
  have "TrimSpace ''a'' = ''a''" "TrimSpace ''b c'' = ''b c''" by code_simp+
  then have "\<forall>a \<in> set ?as. goodAttr ''item'' a" by (simp add: goodAttr_def bareToken_def isSpace_def enumValue_def)
  from attlist_roundtrip [OF _ _ this] show ?thesis
    by (simp add: attListText_def attTokens_def enumText_def bareToken_def isSpace_def)
qed

subsection \<open>Validation\<close>

text \<open>C30: The validator decides validity. For any DTD whose declarations are filed under their names, any document, limit on errors and treatment of undeclared elements, the validator reports nothing exactly when every element satisfies its content declaration, every attribute its default, enumeration and type, the identifiers of the whole document are distinct, and every reference names one of them; the cache of compiled models, the once-only reports on notations and the limit on errors change no verdict. And it never reports more errors than the limit, 100 when none is given.\<close>

theorem Validate_decides:
  assumes "wfDtd d"
  shows "(Validate doc (Some d) maxErrors allow = [] \<longleftrightarrow> dtdValid (dtdEnvOf d maxErrors allow) (rootOf doc)) \<and>
    (0 \<le> maxErrors \<longrightarrow> int (length (Validate doc (Some d) maxErrors allow)) \<le> (if maxErrors = 0 then DefaultMaxErrors else maxErrors))"
  using Validate_iff [OF assms] by blast

definition exampleDtd :: dtd where
  "exampleDtd =
     newDTD\<lparr>Elements := (\<lambda>_. None)
         (''r'' \<mapsto> \<lparr>elName = ''r'', elKind = ContentChildren, elMixed = [],
                 elParticle = (case parseModel ''(a, b?)+'' of Inr pg \<Rightarrow> pg | Inl _ \<Rightarrow> (Particle 1 1 NilTerm, []))\<rparr>,
          ''a'' \<mapsto> \<lparr>elName = ''a'', elKind = ContentEmpty, elMixed = [], elParticle = (Particle 1 1 NilTerm, [])\<rparr>,
          ''b'' \<mapsto> \<lparr>elName = ''b'', elKind = ContentAny, elMixed = [], elParticle = (Particle 1 1 NilTerm, [])\<rparr>),
       Attributes := (\<lambda>_. [])
         (''a'' := parseAttList ''a id ID #REQUIRED'', ''b'' := parseAttList ''b to IDREF #IMPLIED'')\<rparr>"

definition exampleDoc :: "string list \<Rightarrow> string \<Rightarrow> unit node list" where
  "exampleDoc values ref =
     [OtherN, ElemN (QName [] [] ''r'') () []
        (map (\<lambda>v. ElemN (QName [] [] ''a'') () [(QName [] [] ''id'', v)] []) values @
         [ElemN (QName [] [] ''b'') () [(QName [] [] ''to'', ref)] [TextN ''text'']])]"

lemma exampleDtd_wf: "wfDtd exampleDtd"
proof -
  have "parseAttList ''a id ID #REQUIRED'' =
      [\<lparr>atElement = ''a'', atName = ''id'', atType = ''ID'', atEnum = [], atDefault = AttrRequired, atValue = []\<rparr>]"
    "parseAttList ''b to IDREF #IMPLIED'' =
      [\<lparr>atElement = ''b'', atName = ''to'', atType = ''IDREF'', atEnum = [], atDefault = AttrImplied, atValue = []\<rparr>]"
    by code_simp+
  then show ?thesis by (simp add: wfDtd_def exampleDtd_def newDTD_def)
qed

theorem Validate_decides_witness:
  "dtdValid (dtdEnvOf exampleDtd 0 False) (rootOf (exampleDoc [''x'', ''y''] ''y'')) \<and>
   \<not> dtdValid (dtdEnvOf exampleDtd 0 False) (rootOf (exampleDoc [''x'', ''x''] ''y'')) \<and>
   length (Validate (exampleDoc [''x'', ''x''] ''y'') (Some exampleDtd) 1 False) = 1"
proof -
  have e: "(Validate (exampleDoc [''x'', ''y''] ''y'') (Some exampleDtd) 0 False = []) = True"
    "(Validate (exampleDoc [''x'', ''x''] ''y'') (Some exampleDtd) 0 False = []) = False"
    "(Validate (exampleDoc [''x'', ''x''] ''y'') (Some exampleDtd) 1 False = []) = False" by code_simp+
  have "length (Validate (exampleDoc [''x'', ''x''] ''y'') (Some exampleDtd) 1 False) \<le> 1"
    using Validate_decides [OF exampleDtd_wf, of _ 1] by simp
  then have "length (Validate (exampleDoc [''x'', ''x''] ''y'') (Some exampleDtd) 1 False) = 1"
    using e(3) by (cases "Validate (exampleDoc [''x'', ''x''] ''y'') (Some exampleDtd) 1 False") auto
  then show ?thesis
    using Validate_decides [OF exampleDtd_wf, of "exampleDoc [''x'', ''y''] ''y''" 0 False]
      Validate_decides [OF exampleDtd_wf, of "exampleDoc [''x'', ''x''] ''y''" 0 False] e by blast
qed

subsection \<open>What a valid document satisfies\<close>

fun elementsIn :: "unit node \<Rightarrow> unit node list" where
  "elementsIn (ElemN n c atts kids) = ElemN n c atts kids # concat (map elementsIn kids)"
| "elementsIn _ = []"

lemma nodeValid_inside: "nodeValid env r \<Longrightarrow> k \<in> set (elementsIn r) \<Longrightarrow> nodeValid env k"
  by (induction r) auto

text \<open>C31: In a document the validator passes, the children of every element whose content model was parsed from some spelling of a content model (nested at most 1000 deep, with no quantifier on the sole member of a quantified group) spell a sequence of names in the language that XML 1.0 gives the model, and there is no text but white space between them: the declaration's parser, the compiler of content models, the matcher with its counts and states, the cache of matchers and the walk compose.\<close>

theorem valid_children:
  assumes "wfDtd d" "Validate doc (Some d) maxErrors allow = []"
    and "ElemN n c atts kids \<in> set (elementsIn (rootOf doc))"
    and "Elements d (qlocal n) = Some decl" "elKind decl = ContentChildren"
    and "parseModel s = Inr (elParticle decl)" "spells t (TrimSpace s)" "cmDepth t \<le> maxModelDepth" "singly t"
  shows "childNames kids \<in> cmLang t \<and> (\<forall>k \<in> set kids. \<not> solidText k)"
proof -
  have "nodeValid (dtdEnvOf d maxErrors allow) (rootOf doc)"
    using Validate_iff(1) [OF assms(1)] assms(2) by (simp add: dtdValid_def)
  from nodeValid_inside [OF this assms(3)]
  have cv: "contentValid (dtdEnvOf d maxErrors allow) (qlocal n) kids" by simp
  then have ad: "modelAdmits decl (childNames kids)" "\<forall>k \<in> set kids. \<not> solidText k"
    using assms(4,5) by (simp_all add: contentValid_def dtdEnvOf_def)
  then obtain m where m: "NewSequenceMatcher (snd (elParticle decl)) (fst (elParticle decl)) = Inr m"
    "fst (sequenceMatch m (childNames kids))" by (auto simp: modelAdmits_def)
  obtain p G where p: "elParticle decl = (p, G)" by (cases "elParticle decl")
  have ps: "parseModel s = Inr (p, G)" using assms(6) p by simp
  have "denotes G p t" using spelt_model [OF assms(7,8)] ps by auto
  from denoted_match [OF ps this assms(9)] m p show ?thesis using ad(2) by auto
qed

theorem valid_children_witness:
  "childNames (map (\<lambda>x. ElemN (QName [] [] x) () [] []) [''a'', ''b'']) \<in>
     cmLang (CGroup False [CName ''a'' Once, CName ''b'' Opt] Plus)"
proof -
  let ?d = "newDTD\<lparr>Elements := (\<lambda>_. None)
         (''r'' \<mapsto> \<lparr>elName = ''r'', elKind = ContentChildren, elMixed = [],
                 elParticle = (case parseModel ''(a, b?)+'' of Inr pg \<Rightarrow> pg | Inl _ \<Rightarrow> (Particle 1 1 NilTerm, []))\<rparr>)\<rparr>"
  let ?kids = "map (\<lambda>x. ElemN (QName [] [] x) () [] []) [''a'', ''b'']"
  let ?t = "CGroup False [CName ''a'' Once, CName ''b'' Opt] Plus"
  have wf: "wfDtd ?d" by (simp add: wfDtd_def newDTD_def)
  have v: "Validate [ElemN (QName [] [] ''r'') () [] ?kids] (Some ?d) 0 True = []" by code_simp
  have pm: "isl (parseModel ''(a, b?)+'') = False" by code_simp
  have "spells (CName ''b'' Opt) ('' '' @ ''b'' @ quantStr Opt)" by (rule sName) (simp_all add: nameEnd_def isSpace_def)
  then have "spellsMembers False [CName ''b'' Opt] (('' '' @ ''b'' @ quantStr Opt) @ [])" by (rule mOne) simp
  moreover have "spells (CName ''a'' Once) ([] @ ''a'' @ quantStr Once)" by (rule sName) (simp_all add: nameEnd_def isSpace_def)
  ultimately have "spellsMembers False [CName ''a'' Once, CName ''b'' Opt] (''a'' @ [] @ sepChar False # '' b?'')"
    using mMore [of "CName ''a'' Once" "''a''" "[]" False] by simp
  then have "spells ?t ([] @ CHR ''('' # (''a'' @ [] @ sepChar False # '' b?'') @ CHR '')'' # quantStr Plus)"
    by (intro sGroup) simp_all
  moreover have "TrimSpace ''(a, b?)+'' = ''(a, b?)+''" by code_simp
  ultimately have sp: "spells ?t (TrimSpace ''(a, b?)+'')" by (simp add: sepChar_def)
  have root: "ElemN (QName [] [] ''r'') () [] ?kids \<in> set (elementsIn (rootOf [ElemN (QName [] [] ''r'') () [] ?kids]))"
    by (simp add: rootOf_def isElementNode_def)
  have "childNames ?kids \<in> cmLang ?t \<and> (\<forall>k \<in> set ?kids. \<not> solidText k)"
    by (rule valid_children [OF wf v root _ _ _ sp])
      (use pm in \<open>auto simp: maxModelDepth_def split: sum.splits\<close>)
  then show ?thesis by blast
qed

theorem declarations_first_bind_witness:
  "\<exists>d'. declarationsInto exampleDtd ''<!ELEMENT a ANY><!ATTLIST a id CDATA #IMPLIED x CDATA #IMPLIED>'' = Inr d' \<and>
     Elements d' ''a'' = Elements exampleDtd ''a'' \<and> hd (Attributes d' ''a'') = hd (Attributes exampleDtd ''a'')"
proof -
  let ?s = "''<!ELEMENT a ANY><!ATTLIST a id CDATA #IMPLIED x CDATA #IMPLIED>''"
  have f: "filed exampleDtd" using exampleDtd_wf by (simp add: wfDtd_def filed_def)
  have "isl (declarationsInto exampleDtd ?s) = False" by code_simp
  then obtain d' where d: "declarationsInto exampleDtd ?s = Inr d'" by (cases "declarationsInto exampleDtd ?s") auto
  obtain decl where el: "Elements exampleDtd ''a'' = Some decl" by (simp add: exampleDtd_def)
  have "(Attributes exampleDtd ''a'' = []) = False" by code_simp
  then show ?thesis using declarations_first_bind [OF f d] d el
    by (metis hd_append2)
qed

end
