(* ===== verification/DtdLoadMain.thy ===== *)
theory DtdLoadMain
  imports DtdLoadFacts DtdSections DtdMain
begin

text \<open>
  The properties of loading external subsets: the budget, the order of precedence, conditional sections, the
  refusal of recursive entities, and the places where references and declarations are lost.
\<close>

subsection \<open>Budget\<close>

lemma newLoader_inBudget: "inBudget (newLoader opts)"
  by (simp add: inBudget_def newLoader_def DefaultMaxExternalDocuments_def DefaultMaxExternalBytes_def DefaultMaxEntityBytes_def)

lemma expandSubset_step:
  assumes "expandSubset l s base b = Inr (t, l')"
  shows "ldStep l l' \<and> produced l l' (int (length t) - int (length s))"
proof -
  let ?c = "collectParams l s base"
  obtain x where x: "expand ?c 0 b s = Inr (x, l')" "length t \<le> length x"
    using assms conditionals_shorter(1) by (auto simp: expandSubset_def bindE_Inr_iff split: if_splits)
  have "ldStep ?c l' \<and> produced ?c l' (int (length x) - int (length s))"
    using expands_step(1) [OF expand_expands(1) [OF x(1)]] .
  then show ?thesis using collect_step [of l s base] step_trans [of l ?c l'] produced_trans [of l ?c 0 l'] x(2)
    by (fastforce simp: produced_def)
qed

text \<open>C35: One budget covers the whole load. Whatever the resolver delivers and however entities refer to one another, when both subsets expand, at most the permitted number of resources was asked for, at most the permitted number of bytes was read, and the two expanded subsets together are no longer than the internal subset as written and the permitted number of expanded bytes: fetched bytes and substituted ones count alike, so splitting an expansion over the subsets gains nothing. The limits are 64 resources, 4 MB and 1 MB when none are given.\<close>

theorem load_budget:
  assumes "expandBoth internal systemID publicID opts = Inr (expandedInternal, expandedExternal, l)"
  shows "(0 \<le> ldMaxDocs (newLoader opts) \<longrightarrow> ldDocs l \<le> ldMaxDocs (newLoader opts)) \<and>
    (0 \<le> ldMaxBytes (newLoader opts) \<longrightarrow> ldBytes l \<le> ldMaxBytes (newLoader opts)) \<and>
    (0 \<le> ldMaxExpand (newLoader opts) \<longrightarrow>
       int (length expandedInternal) + int (length expandedExternal) \<le> int (length internal) + ldMaxExpand (newLoader opts))"
proof -
  let ?l = "newLoader opts"
  obtain l1 t r l2 where e1: "expandSubset ?l internal (BaseURI opts) False = Inr (expandedInternal, l1)"
    and f: "fetch l1 systemID publicID (BaseURI opts) = Inr (t, r, l2)"
    and e2: "expandSubset l2 t r True = Inr (expandedExternal, l)"
    using assms by (auto simp: expandBoth_def bindE_Inr_iff)
  note s = expandSubset_step [OF e1] fetch_step(1) [OF f] expandSubset_step [OF e2]
  have st: "ldStep ?l l" using s step_trans by blast
  have z: "ldExpanded ?l = 0" by (simp add: newLoader_def)
  then have w: "inBudget l" using newLoader_inBudget st by (auto simp: ldStep_def)
  have "produced ?l l ((int (length expandedInternal) - int (length internal)) + int (length t) + (int (length expandedExternal) - int (length t)))"
    using s step_trans by (meson produced_trans)
  then show ?thesis using w st z by (auto simp: inBudget_def ldStep_def produced_def)
qed

subsection \<open>Recursive entities\<close>

text \<open>C37: Recursive parameter entities are refused. When a subset expands, no internal entity in scope at its start that is reached from a reference in it, directly or through the replacement texts of other internal entities, refers to itself through any chain of such texts.\<close>

theorem recursion_refused:
  assumes "expandSubset l sset base declLevel = Inr (text, l')" "P = ldParams (collectParams l sset base)"
    and "n \<in> set (refs declLevel sset)" "(n, h) \<in> (entityEdges declLevel P)\<^sup>*"
  shows "(h, h) \<notin> (entityEdges declLevel P)\<^sup>+"
proof -
  obtain x where "expand (collectParams l sset base) 0 declLevel sset = Inr (x, l')"
    using assms(1) by (auto simp: expandSubset_def bindE_Inr_iff split: if_splits)
  from expands_harmless(1) [OF expand_expands(1) [OF this]] assms(2-4) show ?thesis
    unfolding harmless_def by auto
qed

subsection \<open>Precedence\<close>














text \<open>A DTD in two halves, with overrides in the internal subset.\<close>

definition smallOptions :: "string \<Rightarrow> loadOptions" where
  "smallOptions s =
     \<lparr>Resolver = Some (MapResolver [''e'' \<mapsto> s]), BaseURI = [], InternalSubsetOnly = False, MaxExternalDocuments = 0,
      MaxExternalBytes = 0, MaxEntityBytes = 0\<rparr>"

definition exampleOptions :: loadOptions where
  "exampleOptions = smallOptions ''<?xml?><!ENTITY % m \"y\"><![INCLUDE[<!ATTLIST a x ID #IMPLIED %m; ID #IMPLIED>]]>''"

definition exampleInternal :: string where
  "exampleInternal = ''<!ENTITY % m \"z\"><!ELEMENT a EMPTY><!ATTLIST a x ID #REQUIRED>''"



theorem load_budget_witness:
  "\<exists>ei ee l. expandBoth exampleInternal ''e'' [] exampleOptions = Inr (ei, ee, l) \<and> ldDocs l \<le> 64 \<and>
     length ei + length ee \<le> length exampleInternal + 2 ^ 20"
proof -
  have "isl (expandBoth exampleInternal ''e'' [] exampleOptions) = False" by code_simp
  then obtain ei ee l where e: "expandBoth exampleInternal ''e'' [] exampleOptions = Inr (ei, ee, l)"
    by (cases "expandBoth exampleInternal ''e'' [] exampleOptions") auto
  then show ?thesis using load_budget [OF e]
    by (simp add: newLoader_def exampleOptions_def smallOptions_def DefaultMaxExternalDocuments_def DefaultMaxEntityBytes_def)
qed


theorem recursion_refused_witness:
  "(''b'', ''b'') \<notin> (entityEdges True (ldParams (collectParams (newLoader exampleOptions) ''<!ENTITY % b \"B\"><!ENTITY % a \"%b;%b;\">%a;'' [])))\<^sup>+ \<and>
   expandSubset (newLoader exampleOptions) ''<!ENTITY % b \"%a;\"><!ENTITY % a \"%b;%b;\">%a;'' [] True = Inl (RecursiveEntity ''b'')"
proof -
  let ?s = "''<!ENTITY % b \"B\"><!ENTITY % a \"%b;%b;\">%a;''"
  let ?P = "ldParams (collectParams (newLoader exampleOptions) ?s [])"
  have "isl (expandSubset (newLoader exampleOptions) ?s [] True) = False" by code_simp
  then obtain t l where e: "expandSubset (newLoader exampleOptions) ?s [] True = Inr (t, l)"
    by (cases "expandSubset (newLoader exampleOptions) ?s [] True") auto
  have n: "''a'' \<in> set (refs True ?s)" by code_simp
  have p: "(case ?P ''a'' of Some p \<Rightarrow> \<not> peExternal p \<and> ''b'' \<in> set (refs True (peText p)) | None \<Rightarrow> False) = True" by code_simp
  then have "(''a'', ''b'') \<in> (entityEdges True ?P)\<^sup>*" unfolding entityEdges_def
    by (intro r_into_rtrancl) (auto split: option.splits)
  moreover have "expandSubset (newLoader exampleOptions) ''<!ENTITY % b \"%a;\"><!ENTITY % a \"%b;%b;\">%a;'' [] True = Inl (RecursiveEntity ''b'')"
  proof -
    have "(case expandSubset (newLoader exampleOptions) ''<!ENTITY % b \"%a;\"><!ENTITY % a \"%b;%b;\">%a;'' [] True of Inl (RecursiveEntity n) \<Rightarrow> n = ''b'' | _ \<Rightarrow> False) = True"
      by code_simp
    then show ?thesis by (auto split: sum.splits loadError.splits)
  qed
  ultimately show ?thesis using recursion_refused [OF e refl n] by blast
qed

subsection \<open>Conditional sections\<close>

text \<open>C38: Conditional sections are resolved as they nest. For any text built of plain text, included sections and ignored sections, in any nesting, with any white space around the keywords and with any balanced sections inside the ignored ones, what remains is the text outside the ignored sections with the delimiters of the included ones removed, provided included sections nest at most 40 deep; a deeper nesting is refused, and never read in part.\<close>

theorem sections_resolved:
  assumes "wellFormed b"
  shows "conditionals 0 (render b) = (if nesting b \<le> maxConditionalDepth then Inr (keep b) else Inl SectionsTooDeep)"
  using conditionals_body [OF assms, of 0] by (simp add: conditionals.simps)

definition exampleSections :: body where
  "exampleSections =
     Sect ''x'' (Inc '' '' []) (Sect ''y'' (Ign [] '' '') (Sect ''1'' Unk (Plain ''2'') (Plain ''3'')) (Plain ''z]]'')) (Plain '' w'')"

theorem sections_resolved_witness:
  "conditionals 0 ''x<![ INCLUDE[y<![IGNORE [1<![2]]>3]]>z]]]]> w'' = Inr ''xyz]] w''"
proof -
  have "wellFormed exampleSections" by code_simp
  from sections_resolved [OF this] show ?thesis
    by (simp add: exampleSections_def maxConditionalDepth_def)
qed

subsection \<open>What is lost\<close>

text \<open>A construct that is never closed reaches to the end of the text.\<close>

lemma endOfDeclaration_quote:
  "\<forall>c \<in> set a. c \<noteq> q \<and> c \<noteq> CHR ''\"'' \<and> c \<noteq> CHR 0x27 \<and> c \<noteq> CHR ''>'' \<Longrightarrow> q = CHR ''\"'' \<or> q = CHR 0x27 \<Longrightarrow> q \<notin> set t \<Longrightarrow>
     endOfDeclaration d (a @ q # t) = None"
proof (induction a arbitrary: d)
  case (Cons c a)
  then show ?case by simp
qed (auto simp: cutByte_def)

text \<open>C40: An apostrophe in a processing instruction hides every parameter-entity reference after it. The expander looks for the end of an instruction the way it looks for the end of a declaration, so a quotation mark opens a literal; when no second one follows, the rest of the subset is taken to belong to the instruction and is copied as it stands, and no reference in it is expanded, whatever the entities are. The modules the references name are left out without an error.\<close>

theorem instruction_hides_references:
  assumes "\<forall>c \<in> set a. c \<noteq> CHR ''\"'' \<and> c \<noteq> CHR 0x27 \<and> c \<noteq> CHR ''>''" "CHR 0x27 \<notin> set t" "depth \<le> maxParameterDepth"
  shows "expand l depth declLevel (''<?'' @ a @ CHR 0x27 # t) = Inr (''<?'' @ a @ CHR 0x27 # t, l)"
    (is "expand l depth declLevel ?s = _")
proof -
  have "endOfDeclaration 0 ((''<?'' @ a) @ CHR 0x27 # t) = None" using assms by (intro endOfDeclaration_quote) auto
  then have e: "endOfConstruct ?s = length ?s" by (simp add: endOfConstruct_def hasPrefix_def)
  have "\<not> hasPrefix ''<!'' ?s" by (simp add: hasPrefix_def)
  then have "expandFrom l depth declLevel ?s = Inr (?s, l)"
    using e expandFrom.simps(2) [of l depth declLevel "CHR ''<''" "''?'' @ a @ CHR 0x27 # t"] by (simp add: expandFrom.simps(1) Let_def)
  then show ?thesis using assms(3) by (simp add: expand.simps)
qed

theorem instruction_hides_references_witness:
  "let l = collectParams (newLoader exampleOptions) ''<!ENTITY % e \"<!ELEMENT a ANY>\">'' [] in
   expand l 0 True (''<?p don'' @ CHR 0x27 # ''t?>%e;'') = Inr (''<?p don'' @ CHR 0x27 # ''t?>%e;'', l) \<and>
   map_sum id fst (expand l 0 True ''<?p do not?>%e;'') = Inr ''<?p do not?><!ELEMENT a ANY>''"
proof -
  let ?l = "collectParams (newLoader exampleOptions) ''<!ENTITY % e \"<!ELEMENT a ANY>\">'' []"
  have "map_sum id fst (expand ?l 0 True ''<?p do not?>%e;'') = Inr ''<?p do not?><!ELEMENT a ANY>''" by code_simp
  then show ?thesis using instruction_hides_references [of "''p don''" "''t?>%e;''" 0 ?l True] by (simp add: Let_def)
qed

lemma trimLeft_suffix: "\<exists>n. trimLeft runes s = drop n s"
proof (induction runes s rule: trimLeft.induct)
  case (1 runes s)
  show ?case
  proof (cases "s = [] \<or> leading runes s = 0")
    case True
    then show ?thesis by (subst trimLeft.simps) (auto intro: exI [of _ 0])
  next
    case False
    then obtain n where "trimLeft runes (drop (leading runes s) s) = drop n (drop (leading runes s) s)" using 1 by auto
    then show ?thesis using False by (subst trimLeft.simps) (auto simp: drop_drop)
  qed
qed

lemma TrimSpace_bracket: "\<not> hasPrefix ''ENTITY'' (TrimSpace (CHR ''['' # s))"
proof -
  have "leading spaceRunes (CHR ''['' # s) = 0"
  proof -
    have "\<forall>r \<in> set spaceRunes. r \<noteq> [] \<and> hd r \<noteq> CHR ''[''" by code_simp
    then have "find (\<lambda>r. take (length r) (CHR ''['' # s) = r) spaceRunes = None"
      unfolding find_None_iff by (metis length_greater_0_conv hd_take list.sel(1))
    then show ?thesis by (simp add: leading_def)
  qed
  then have t: "trimLeft spaceRunes (CHR ''['' # s) = CHR ''['' # s" by (simp add: trimLeft.simps)
  obtain n where "trimLeft (map rev spaceRunes) (rev (CHR ''['' # s)) = drop n (rev (CHR ''['' # s))" using trimLeft_suffix by blast
  then have "TrimSpace (CHR ''['' # s) = take (Suc (length s) - n) (CHR ''['' # s)"
    unfolding TrimSpace_def t by (metis length_Cons length_rev rev_drop rev_rev_ident)
  then show ?thesis by (cases "Suc (length s) - n") (auto simp: hasPrefix_def)
qed

lemma declEnd_plain:
  "\<forall>c \<in> set a. c \<noteq> CHR ''\"'' \<and> c \<noteq> CHR 0x27 \<and> c \<noteq> CHR ''>'' \<and> c \<noteq> CHR ''('' \<and> c \<noteq> CHR '')'' \<Longrightarrow>
     declEnd d (a @ s) = map_option (\<lambda>(x, y). (a @ x, y)) (declEnd d s)"
proof (induction a)
  case Nil
  then show ?case by (cases "declEnd d s") auto
next
  case (Cons c a)
  then show ?case by (cases "declEnd d s") auto
qed

lemma stripComments_none: "cutAt ''<!--'' s = None \<Longrightarrow> stripComments s = s"
  by (simp add: stripComments.simps)

text \<open>C39: The first declaration of a conditional section is not seen when parameter entities are collected. A section's opening is cut as the beginning of a declaration, whose body then runs to the end of the first declaration in the section; so for a section of the external subset that begins by declaring an entity, whatever its keyword, the entities collected are those of the text behind that declaration. An entity declared first in an included section is therefore undeclared, and its references are left in the declarations that use it.\<close>

theorem first_in_section_lost:
  assumes "\<forall>c \<in> set (kw @ name). c \<noteq> CHR ''\"'' \<and> c \<noteq> CHR 0x27 \<and> c \<noteq> CHR ''>'' \<and> c \<noteq> CHR ''('' \<and> c \<noteq> CHR '')''"
    and "CHR ''\"'' \<notin> set v" "cutAt ''<!--'' (''<!['' @ kw @ ''[<!ENTITY % '' @ name @ '' \"'' @ v @ ''\">'' @ rest) = None"
  shows "collectParams l (''<!['' @ kw @ ''[<!ENTITY % '' @ name @ '' \"'' @ v @ ''\">'' @ rest) base = collectParams l rest base"
proof -
  let ?open = "''['' @ kw @ ''[<!ENTITY % '' @ name @ '' ''" and ?q = "CHR ''\"''"
  let ?s = "''<!'' @ ?open @ (?q # v @ ?q # CHR ''>'' # rest)"
  have same: "''<!['' @ kw @ ''[<!ENTITY % '' @ name @ '' \"'' @ v @ ''\">'' @ rest = ?s" by simp
  have nc: "cutAt ''<!--'' (a @ b) = None \<Longrightarrow> cutAt ''<!--'' b = None" for a b
    by (induction a) (auto split: if_splits)
  have "cutAt ''<!--'' ?s = None" using assms(3) same by metis
  moreover from this have "cutAt ''<!--'' rest = None" using nc [of "''<!'' @ ?open @ ?q # v @ [?q, CHR ''>'']" rest] by simp
  ultimately have strip: "stripComments ?s = ?s" "stripComments rest = rest"
    using stripComments_none by blast+
  have "cutByte ?q (v @ ?q # CHR ''>'' # rest) = Some (v, CHR ''>'' # rest)"
  proof -
    have "takeWhile (\<lambda>x. x \<noteq> ?q) (v @ ?q # r) = v" "dropWhile (\<lambda>x. x \<noteq> ?q) (v @ ?q # r) = ?q # r" for r
      using assms(2) by (induction v) auto
    then show ?thesis by (simp add: cutByte_def)
  qed
  then have "declEnd 0 (?q # v @ ?q # CHR ''>'' # rest) = Some (?q # v @ [?q], rest)" by simp
  moreover have "\<forall>c \<in> set ?open. c \<noteq> ?q \<and> c \<noteq> CHR 0x27 \<and> c \<noteq> CHR ''>'' \<and> c \<noteq> CHR ''('' \<and> c \<noteq> CHR '')''"
    using assms(1) by auto
  ultimately have "declEnd 0 (?open @ (?q # v @ ?q # CHR ''>'' # rest)) = Some (?open @ ?q # v @ [?q], rest)"
    using declEnd_plain [of ?open 0] by simp
  moreover have "cutAt ''<!'' ?s = Some ([], ?s)" by (simp add: hasPrefix_def)
  moreover have "drop 2 ?s = ?open @ (?q # v @ ?q # CHR ''>'' # rest)" by simp
  ultimately have "declBodies ?s = TrimSpace (?open @ ?q # v @ [?q]) # declBodies rest"
    unfolding declBodies.simps [of ?s] by (simp del: append_Cons append_assoc)
  moreover have "paramDecl base (TrimSpace (?open @ ?q # v @ [?q])) = None"
    using TrimSpace_bracket by (simp add: paramDecl_def)
  ultimately show ?thesis
    unfolding same collectParams_def declarations_def strip by (simp add: addParam_def)
qed

theorem first_in_section_lost_witness:
  "entityOf (collectParams (newLoader exampleOptions) ''<![INCLUDE[<!ENTITY % m \"EMPTY\">]]>'' []) ''m'' = None \<and>
   entityOf (collectParams (newLoader exampleOptions) ''<!ENTITY % m \"EMPTY\">'' []) ''m'' \<noteq> None"
proof -
  have "cutAt ''<!--'' (''<!['' @ ''INCLUDE'' @ ''[<!ENTITY % '' @ ''m'' @ '' \"'' @ ''EMPTY'' @ ''\">'' @ '']]>'') = None" by code_simp
  then have "collectParams (newLoader exampleOptions) ''<![INCLUDE[<!ENTITY % m \"EMPTY\">]]>'' [] = collectParams (newLoader exampleOptions) '']]>'' []"
    using first_in_section_lost [of "''INCLUDE''" "''m''" "''EMPTY''" "'']]>''" "newLoader exampleOptions" "[]"] by simp
  moreover have "(entityOf (collectParams (newLoader exampleOptions) '']]>'' []) ''m'' = None) = True" by code_simp
  moreover have "(entityOf (collectParams (newLoader exampleOptions) ''<!ENTITY % m \"EMPTY\">'' []) ''m'' = None) = False" by code_simp
  ultimately show ?thesis by simp
qed

text \<open>An entity declared behind the first declaration of an ignored section is declared none the less: here the
  ignored section decides the content of \<open>r\<close>. And without an external subset, references in the internal one
  are not expanded at all.\<close>

definition kindOf :: "string \<Rightarrow> loadError + dtd option \<Rightarrow> contentKind option" where
  "kindOf n r = (case r of Inr (Some d) \<Rightarrow> map_option elKind (Elements d n) | _ \<Rightarrow> None)"

theorem ignored_entity_binds:
  "kindOf ''r'' (Load ''D r SYSTEM \"e\"'' (smallOptions ''<![IGNORE[<!X><!ENTITY % m \"EMPTY\">]]><!ENTITY % m \"ANY\"><!ELEMENT r %m;>'')) =
     Some ContentEmpty"
  by code_simp

theorem internal_references_unexpanded:
  "kindOf ''r'' (Load ''D r [<!ENTITY % m \"<!ELEMENT r EMPTY>\">%m;]'' (smallOptions [])) = None \<and>
   kindOf ''r'' (Load ''D r SYSTEM \"e\" [<!ENTITY % m \"<!ELEMENT r EMPTY>\">%m;]'' (smallOptions [])) = Some ContentEmpty"
  by (rule conjI; code_simp)

end
