(* ===== verification/Spec2Isabelle.thy ===== *)
theory Spec2Isabelle
  imports MapFuncs RngMemo NameMemo DateFacts DurText StreamPath XsdUpa DtdLoadMain
begin

text \<open>
  Verification of the core algorithms of go-xml, a Go library for XML, XPath, XSLT, XML Schema, RELAX NG and
  DTDs. This theory imports the whole development; every property is a theorem of the theory of its component.

  \<^bold>\<open>The program and what is modelled\<close>

  \<^item> The data model (\<open>xdm\<close>). \<open>Hamt\<close> is the persistent trie of \<open>hamt.go\<close>: a node of type
    \<open>hnode\<close> with its bitmap and slots, \<open>hget\<close>, \<open>hput\<close> and \<open>hdel\<close>
    with their in-place variants. \<open>MapItem\<close> is the map of \<open>maparray.go\<close> over it: the record
    \<open>mapItem\<close> is the root, the size and the next sequence number, and \<open>mapBuilder\<close> the builder.
    \<open>Calendar\<close>, \<open>DateTime\<close>, \<open>DateText\<close> model \<open>datetime.go\<close>,
    \<open>DurText\<close> \<open>duration.go\<close>, \<open>DecimalMag\<close> and \<open>DecText\<close> the decimals of
    \<open>decimal.go\<close> and \<open>atomic.go\<close>; \<open>Dec\<close> is what they use of Go's number formatting.
  \<^item> XPath functions. \<open>MapFuncs\<close> is \<open>fn_map.go\<close>; \<open>DateArith\<close> the arithmetic of
    \<open>cast.go\<close> and \<open>fn_date.go\<close> on dates and durations.
  \<^item> RELAX NG (\<open>relaxng\<close>). \<open>RngPattern\<close> and \<open>RngDeriv\<close> are the patterns of
    \<open>pattern.go\<close> and the derivatives of \<open>derive.go\<close>; \<open>RngValidate\<close> the walk of
    \<open>validate.go\<close>; \<open>RngMemo\<close> the memo points of \<open>memo.go\<close>; \<open>NameMemo\<close> the
    memo shared by concurrent validations, as functions and as a step relation over interleaved lookups.
  \<^item> XML Schema content models (\<open>xsd\<close>). \<open>XsdModel\<close> is the compiler of \<open>automaton.go\<close>
    from particles to a position automaton with counters (the record \<open>contentModel\<close>);
    \<open>XsdMatch\<close> the matcher of \<open>nfa.go\<close> and \<open>seqmatch.go\<close>, whose state is a set of
    positions with count vectors. \<open>XsdUpa\<close> is the check of unique particle attribution in
    \<open>upa.go\<close> over compiled models.
  \<^item> DTDs (\<open>dtd\<close>). \<open>DtdModel\<close> is the content-model parser of \<open>model.go\<close>, which builds
    particles of \<open>xsd\<close>; \<open>DtdDecl\<close> the declarations of \<open>parse.go\<close> and
    \<open>attlist.go\<close>; \<open>DtdValidate\<close> the validator of \<open>validate.go\<close>, which asks the
    matcher about every element's children; \<open>DtdLoad\<close> the loading of external subsets in
    \<open>external.go\<close>, whose state is the record \<open>loader\<close> (the budget, the parameter entities in
    scope, the active ones) and whose result is handed to the declaration reader.
  \<^item> Streamability (\<open>xslt\<close>). \<open>StreamLattice\<close> is \<open>streamlattice.go\<close>,
    \<open>StreamPath\<close> the analysis of paths in \<open>streamability.go\<close>.

  \<^bold>\<open>Interfaces\<close>

  \<open>OrderedMap\<close> states the contract between a map and its clients as the locale
  \<open>ordered_map\<close>; \<open>MapItem\<close> interprets it on maps and on builders, and \<open>MapFuncs\<close> proves
  its functions from it. \<open>reading\<close> (in \<open>RngCorrect\<close>) is what a semantics of patterns must satisfy
  for the smart constructors to be right, interpreted on both semantics. \<open>sequence_decider\<close> (in
  \<open>XsdFacts\<close>) is what a client of the content models may rely on, interpreted on the compiler and matcher
  and used by the DTD theories. A run-time panic is \<open>None\<close>, an error is the left side of a sum.

  \<^bold>\<open>What the lemmas show\<close>

  \<^item> Maps: every operation refines the association list in insertion order, whatever the hash function; the
    functions of \<open>fn_map.go\<close> do what their specification says, under every duplicates policy.
  \<^item> Dates, durations, decimals: parsing undoes printing for every value; day numbers and civil dates are
    inverse; arithmetic on instants is exact; and the places where it is not.
  \<^item> RELAX NG: \<open>RngSem\<close> gives patterns a meaning without derivatives; \<open>RngCorrect\<close> and
    \<open>RngText\<close> show that the derivatives compute it, \<open>RngSound\<close> and \<open>RngMain\<close> that the
    validator decides it within its limits, \<open>RngMemo\<close> and \<open>NameMemo\<close> that remembered answers are
    right under every interleaving.
  \<^item> Content models: \<open>XsdLang\<close> defines the language of a particle; \<open>Glushkov\<close>,
    \<open>XsdBuild\<close>, \<open>XsdGlue\<close>, \<open>XsdScope\<close> and \<open>XsdCorrect\<close> show that the compiled
    automaton has it, \<open>XsdRun\<close>, \<open>XsdStep\<close> and \<open>XsdAccept\<close> that the matcher with its
    counts follows the automaton, \<open>XsdLimits\<close> what is refused, and
    \<open>XsdUpa\<close> that a model which passes the check attributes names to positions in one way. The language theorem is for the bounds a
    DTD can write; the definitions are for all.
  \<^item> DTDs: \<open>DtdGrammar\<close> states the grammar of content models and its language and shows that every
    spelling is parsed to a particle that denotes it; \<open>DtdFacts\<close> composes this with the compiler and the
    matcher; \<open>DtdValid\<close> shows that the stateful validator decides a declarative validity;
    \<open>DtdMain\<close> draws the consequences for documents and proves the reading of declarations.
    \<open>DtdLoadFacts\<close> turns the successful runs of the expander into a relation and proves over it that the
    budget accounts for all output and that recursive entities are refused; \<open>DtdSections\<close> shows that
    conditional sections are resolved as they nest; \<open>DtdLoadMain\<close> composes both and shows the precedence
    of the internal subset, and where references and declarations are lost.
  \<^item> Streamability: the postures are a semilattice; a path judged streamable stays within the nodes a
    streaming processor holds.

  \<^bold>\<open>Bounds and fuel\<close>

  The content-model parser has three units of fuel for each byte of its input and one more, which
  \<open>parseModel_total\<close> shows are never used up; \<open>Fields\<close> spends at most one unit a byte. All other
  recursions are proved to terminate, the expander of parameter entities by the depth of 40 it permits. Machine integers are written with their width where a result depends on
  it (day numbers, month counts, the words of the trie); elsewhere the quantities are bounded by the size of the
  input.

  \<^bold>\<open>Not modelled\<close>

  The XPath, XQuery and XSLT parsers and evaluators, the XSD schema loader, simple types, identity constraints and the schema
  validator, the RELAX NG compiler, XML parsing and tree building, canonicalization, serialization, the
  resolvers that read files and the command line: they are mostly large dispatch over node trees or I/O, and only the parts above are translated so far. In
  the parts modelled, interning, buffer reuse and the wording of messages are left out, because they change no
  answer. The seeded hash, atomization, the datatype library of RELAX NG, the canonical key of a map and
  the resolver of external subsets are parameters.
\<close>

end
